(* ===== verification/Momo_Prelude.thy ===== *)
theory Momo_Prelude
  imports Main "HOL-Library.Word" "HOL-Library.List_Lexorder" "HOL-Library.Char_ord"
    "HOL-Library.Sublist" "HOL-Library.Multiset"
begin

text \<open>
  Shared vocabulary of the development: the error values of the Go code, byte strings
  and their big-endian codecs, the string routines of Go's \<^verbatim>\<open>strings\<close> package that the
  sources call, the stable sort of Go's \<^verbatim>\<open>sort.SliceStable\<close>, and the ordered key/value
  bucket of the embedded database with the laws (locale \<open>ordered_bucket\<close>) its clients use.
\<close>

named_theorems codec \<open>length and round-trip facts of the byte codecs\<close>
named_theorems bucket_law \<open>reading a bucket after an update\<close>

section \<open>Errors\<close>

text \<open>
  A Go error is a \<^verbatim>\<open>syscall.Errno\<close> itself (\<open>Bare\<close>, what \<^verbatim>\<open>err == syscall.X\<close> tests), an
  error that wraps one with \<^verbatim>\<open>%w\<close> (\<open>Wrap\<close>), an \<^verbatim>\<open>*fs.PathError\<close> of the os package
  (\<open>PathErr\<close>), the sentinel \<^verbatim>\<open>common.ErrIntegrityMismatch\<close> wrapped together with \<open>EBADMSG\<close>
  (\<open>IntegrityMismatch\<close>, storage/integrity.go) or alone (\<open>ChecksumMismatch\<close>,
  common/checksum.go), or an error that carries no errno (\<open>Plain\<close>).
\<close>

datatype errno = EPERM | ENOENT | EIO | EACCES | EEXIST | EINVAL | EFBIG | ENOSPC
  | ENAMETOOLONG | ENOSYS | EBADMSG | ENOTSUP | EHOSTUNREACH | ETIMEDOUT | ECANCELED | EOVERFLOW
  | EPIPE | ENOTCONN | ECONNREFUSED | ECONNRESET | ENOBUFS | EAGAIN | E2BIG | ENOTEMPTY | EISDIR

datatype err = Bare errno | Wrap errno | PathErr errno | IntegrityMismatch | ChecksumMismatch
  | Plain string

type_synonym 'a res = "err + 'a"

definition err_is :: "err \<Rightarrow> errno \<Rightarrow> bool" where
  "err_is e n \<longleftrightarrow> e = Bare n \<or> e = Wrap n \<or> e = PathErr n
     \<or> (e = IntegrityMismatch \<and> n = EBADMSG)"

definition is_not_exist :: "err \<Rightarrow> bool" where
  "is_not_exist e \<longleftrightarrow> e = Bare ENOENT \<or> e = PathErr ENOENT"

text \<open>\<^verbatim>\<open>fmt.Errorf\<close> with \<^verbatim>\<open>%w\<close>: the errno survives, the identity of the error does not.\<close>

fun wrap :: "err \<Rightarrow> err" where
  "wrap (Bare n) = Wrap n"
| "wrap (PathErr n) = Wrap n"
| "wrap e = e"

definition res_bind :: "'a res \<Rightarrow> ('a \<Rightarrow> 'b res) \<Rightarrow> 'b res" where
  "res_bind r f = (case r of Inl e \<Rightarrow> Inl e | Inr x \<Rightarrow> f x)"

definition isOk :: "'a res \<Rightarrow> bool" where
  "isOk r \<longleftrightarrow> (case r of Inl _ \<Rightarrow> False | Inr _ \<Rightarrow> True)"

lemma res_bind_simps [simp]:
  "res_bind (Inl e) f = Inl e" "res_bind (Inr x) f = f x"
  by (simp_all add: res_bind_def)

lemma res_bind_Inr_conv:
  "res_bind r f = Inr y \<longleftrightarrow> (\<exists>x. r = Inr x \<and> f x = Inr y)"
  by (cases r) simp_all

lemma isOk_simps [simp]: "isOk (Inr x)" "\<not> isOk (Inl e)"
  by (simp_all add: isOk_def)

lemma isOk_conv: "isOk r \<longleftrightarrow> (\<exists>x. r = Inr x)"
  by (cases r) simp_all

text \<open>A sequence of checks with early returns: the first error, if any.\<close>

primrec first_error :: "err option list \<Rightarrow> err option" where
  "first_error [] = None"
| "first_error (x # xs) = (case x of Some e \<Rightarrow> Some e | None \<Rightarrow> first_error xs)"

lemma first_error_None_iff: "first_error xs = None \<longleftrightarrow> (\<forall>x \<in> set xs. x = None)"
  by (induction xs) (auto split: option.splits)

section \<open>Bytes and strings\<close>

type_synonym byte = "8 word"
type_synonym bytes = "byte list"

text \<open>A Go string is a byte sequence; \<open>string\<close> holds one \<open>char\<close> per byte.\<close>

definition str_bytes :: "string \<Rightarrow> bytes" where
  "str_bytes s = map (\<lambda>c. word_of_nat (of_char c)) s"

definition bytes_str :: "bytes \<Rightarrow> string" where
  "bytes_str bs = map (\<lambda>b. char_of (unat b)) bs"

lemma of_char_bound [simp]: "(of_char c :: nat) < 256"
  by (metis of_char_mod_256 mod_less_divisor zero_less_numeral)

lemma unat_byte_of_char [simp]: "unat (word_of_nat (of_char c) :: byte) = of_char c"
  by (simp add: unat_of_nat)

lemma str_bytes_inverse [simp]: "bytes_str (str_bytes s) = s"
  by (simp add: str_bytes_def bytes_str_def comp_def map_idI)

lemma bytes_str_inverse [simp]: "str_bytes (bytes_str bs) = bs"
proof -
  have "word_of_nat (of_char (char_of (unat b) :: char)) = b" for b :: byte
    using unsigned_less [of b, where 'a = nat] by (simp add: mod_less)
  then show ?thesis by (simp add: str_bytes_def bytes_str_def comp_def map_idI)
qed

lemma length_str_bytes [simp, codec]: "length (str_bytes s) = length s"
  by (simp add: str_bytes_def)

lemma length_bytes_str [simp, codec]: "length (bytes_str bs) = length bs"
  by (simp add: bytes_str_def)

lemma str_bytes_inject [simp]: "str_bytes s = str_bytes t \<longleftrightarrow> s = t"
  by (metis str_bytes_inverse)

subsection \<open>Big-endian integers\<close>

primrec put_be :: "nat \<Rightarrow> nat \<Rightarrow> bytes" where
  "put_be 0 v = []"
| "put_be (Suc k) v = put_be k (v div 256) @ [word_of_nat (v mod 256)]"

definition get_be :: "bytes \<Rightarrow> nat" where
  "get_be bs = foldl (\<lambda>a b. a * 256 + unat b) 0 bs"

lemma length_put_be [simp, codec]: "length (put_be k v) = k"
  by (induction k arbitrary: v) simp_all

lemma get_be_Nil [simp]: "get_be [] = 0"
  by (simp add: get_be_def)

lemma get_be_snoc [simp]: "get_be (bs @ [b]) = get_be bs * 256 + unat b"
  by (simp add: get_be_def)

lemma unat_byte_mod: "unat (word_of_nat (v mod 256) :: byte) = v mod 256"
  by (simp add: unat_of_nat)

lemma get_put_be [codec]: "get_be (put_be k v) = v mod 256 ^ k"
proof (induction k arbitrary: v)
  case 0
  then show ?case by simp
next
  case (Suc k)
  have "v mod (256 * 256 ^ k) = 256 * (v div 256 mod 256 ^ k) + v mod 256"
    by (rule mod_mult2_eq)
  then show ?case by (simp add: Suc.IH unat_byte_mod del: of_nat_mod)
qed

lemma get_be_bound: "get_be bs < 256 ^ length bs"
proof (induction bs rule: rev_induct)
  case Nil
  then show ?case by simp
next
  case (snoc b bs)
  have "unat b < 256" using unsigned_less [of b, where 'a = nat] by simp
  with snoc show ?case by simp
qed

lemma put_get_be [codec]: "length bs = k \<Longrightarrow> put_be k (get_be bs) = bs"
proof (induction bs arbitrary: k rule: rev_induct)
  case Nil
  then show ?case by simp
next
  case (snoc b bs)
  have b: "unat b < 256" using unsigned_less [of b, where 'a = nat] by simp
  from snoc.prems obtain k' where k: "k = Suc k'" "length bs = k'" by auto
  from b have "(get_be bs * 256 + unat b) div 256 = get_be bs"
    and "(get_be bs * 256 + unat b) mod 256 = unat b" by simp_all
  with k snoc.IH [OF k(2)] show ?case by (simp del: of_nat_mod)
qed

definition PutUint16 :: "16 word \<Rightarrow> bytes" where "PutUint16 w = put_be 2 (unat w)"
definition PutUint32 :: "32 word \<Rightarrow> bytes" where "PutUint32 w = put_be 4 (unat w)"
definition PutUint64 :: "64 word \<Rightarrow> bytes" where "PutUint64 w = put_be 8 (unat w)"
definition Uint16 :: "bytes \<Rightarrow> 16 word" where "Uint16 bs = word_of_nat (get_be bs)"
definition Uint32 :: "bytes \<Rightarrow> 32 word" where "Uint32 bs = word_of_nat (get_be bs)"
definition Uint64 :: "bytes \<Rightarrow> 64 word" where "Uint64 bs = word_of_nat (get_be bs)"

lemma length_PutUint [simp, codec]:
  "length (PutUint16 a) = 2" "length (PutUint32 b) = 4" "length (PutUint64 c) = 8"
  by (simp_all add: PutUint16_def PutUint32_def PutUint64_def)

lemma Uint_PutUint [simp, codec]:
  "Uint16 (PutUint16 a) = a" "Uint32 (PutUint32 b) = b" "Uint64 (PutUint64 c) = c"
  using unsigned_less [of a, where 'a = nat] unsigned_less [of b, where 'a = nat]
    unsigned_less [of c, where 'a = nat]
  by (simp_all add: PutUint16_def PutUint32_def PutUint64_def Uint16_def Uint32_def Uint64_def
      get_put_be mod_less)

lemma PutUint_Uint [simp, codec]:
  "length as = 2 \<Longrightarrow> PutUint16 (Uint16 as) = as"
  "length bs = 4 \<Longrightarrow> PutUint32 (Uint32 bs) = bs"
  "length cs = 8 \<Longrightarrow> PutUint64 (Uint64 cs) = cs"
  using get_be_bound [of as] get_be_bound [of bs] get_be_bound [of cs]
  by (simp_all add: PutUint16_def PutUint32_def PutUint64_def Uint16_def Uint32_def Uint64_def
      unat_of_nat put_get_be)

text \<open>Go's \<^verbatim>\<open>xs[a:b]\<close> on an index range the caller has checked.\<close>

definition sub_slice :: "nat \<Rightarrow> nat \<Rightarrow> 'a list \<Rightarrow> 'a list" where
  "sub_slice a b xs = take (b - a) (drop a xs)"

lemma length_sub_slice [simp]: "b \<le> length xs \<Longrightarrow> length (sub_slice a b xs) = b - a"
  by (simp add: sub_slice_def)

lemma sub_slice_append_left [simp]:
  "length xs = b \<Longrightarrow> sub_slice 0 b (xs @ ys) = xs"
  by (simp add: sub_slice_def)

lemma sub_slice_append_skip:
  "length xs \<le> a \<Longrightarrow> sub_slice a b (xs @ ys) = sub_slice (a - length xs) (b - length xs) ys"
  by (simp add: sub_slice_def diff_diff_add)

section \<open>Strings\<close>

text \<open>\<^verbatim>\<open>strings.IndexByte\<close> / \<^verbatim>\<open>bytes.IndexByte\<close>; \<open>None\<close> is Go's \<open>-1\<close>.\<close>

fun IndexByte :: "'a list \<Rightarrow> 'a \<Rightarrow> nat option" where
  "IndexByte [] c = None"
| "IndexByte (x # xs) c = (if x = c then Some 0 else map_option Suc (IndexByte xs c))"

lemma IndexByte_None_iff: "IndexByte s c = None \<longleftrightarrow> c \<notin> set s"
  by (induction s) auto

lemma IndexByte_SomeD:
  "IndexByte s c = Some i \<Longrightarrow>
     i < length s \<and> s ! i = c \<and> c \<notin> set (take i s) \<and> s = take i s @ c # drop (Suc i) s"
proof (induction s arbitrary: i)
  case Nil
  then show ?case by simp
next
  case (Cons x xs)
  then show ?case by (cases "x = c") auto
qed

lemma IndexByte_append: "c \<notin> set xs \<Longrightarrow> IndexByte (xs @ c # ys) c = Some (length xs)"
  by (induction xs) auto

lemma take_IndexByte:
  "take (case IndexByte b c of None \<Rightarrow> length b | Some i \<Rightarrow> i) b = takeWhile (\<lambda>x. x \<noteq> c) b"
  by (induction b) (auto split: option.splits)

text \<open>Splitting at a separator and joining again (\<^verbatim>\<open>strings.Join\<close>).\<close>

fun split_on :: "'a \<Rightarrow> 'a list \<Rightarrow> 'a list list" where
  "split_on c [] = [[]]"
| "split_on c (x # xs) =
     (if x = c then [] # split_on c xs
      else (case split_on c xs of [] \<Rightarrow> [[x]] | y # ys \<Rightarrow> (x # y) # ys))"

fun Join :: "'a list list \<Rightarrow> 'a list \<Rightarrow> 'a list" where
  "Join [] sep = []"
| "Join [x] sep = x"
| "Join (x # y # ys) sep = x @ sep @ Join (y # ys) sep"

lemma split_on_nonempty [simp]: "split_on c xs \<noteq> []"
  by (induction xs) (auto split: list.splits)

lemma split_on_no_sep: "\<forall>seg \<in> set (split_on c xs). c \<notin> set seg"
  by (induction xs) (auto split: list.splits)

lemma split_on_append_sep:
  "c \<notin> set xs \<Longrightarrow> split_on c (xs @ c # ys) = xs # split_on c ys"
  by (induction xs) auto

lemma split_on_single: "c \<notin> set xs \<Longrightarrow> split_on c xs = [xs]"
  by (induction xs) auto

lemma split_on_Join:
  "segs \<noteq> [] \<Longrightarrow> (\<forall>seg \<in> set segs. c \<notin> set seg) \<Longrightarrow> split_on c (Join segs [c]) = segs"
  by (induction segs "[c]" rule: Join.induct) (auto simp: split_on_single split_on_append_sep)

lemma Join_split_on: "Join (split_on c xs) [c] = xs"
proof (induction xs)
  case Nil
  then show ?case by simp
next
  case (Cons x xs)
  then show ?case by (cases "split_on c xs"; cases "tl (split_on c xs)") auto
qed

section \<open>Stable sorting\<close>

text \<open>
  Go's \<^verbatim>\<open>sort.SliceStable\<close> for a comparison \<open>lt\<close>. On a strict weak order there is
  exactly one stable arrangement, so insertion sort is a faithful reference.
\<close>

fun ins_stable :: "('a \<Rightarrow> 'a \<Rightarrow> bool) \<Rightarrow> 'a \<Rightarrow> 'a list \<Rightarrow> 'a list" where
  "ins_stable lt x [] = [x]"
| "ins_stable lt x (y # ys) = (if lt y x then y # ins_stable lt x ys else x # y # ys)"

definition SliceStable :: "('a \<Rightarrow> 'a \<Rightarrow> bool) \<Rightarrow> 'a list \<Rightarrow> 'a list" where
  "SliceStable lt xs = foldr (ins_stable lt) xs []"

lemma SliceStable_simps [simp]:
  "SliceStable lt [] = []"
  "SliceStable lt (x # xs) = ins_stable lt x (SliceStable lt xs)"
  by (simp_all add: SliceStable_def)

lemma mset_ins_stable [simp]: "mset (ins_stable lt x ys) = add_mset x (mset ys)"
  by (induction ys) auto

lemma mset_SliceStable [simp]: "mset (SliceStable lt xs) = mset xs"
  by (induction xs) auto

lemma set_ins_stable [simp]: "set (ins_stable lt x ys) = insert x (set ys)"
  by (induction ys) auto

lemma set_SliceStable [simp]: "set (SliceStable lt xs) = set xs"
  by (induction xs) auto

lemma length_SliceStable [simp]: "length (SliceStable lt xs) = length xs"
  using mset_SliceStable [of lt xs] by (metis size_mset)

lemma distinct_SliceStable [simp]: "distinct (SliceStable lt xs) = distinct xs"
  using mset_SliceStable [of lt xs] by (metis mset_eq_imp_distinct_iff)

locale strict_weak_order =
  fixes lt :: "'a \<Rightarrow> 'a \<Rightarrow> bool"
  assumes asym: "lt x y \<Longrightarrow> \<not> lt y x"
    and neg_trans: "\<not> lt x y \<Longrightarrow> \<not> lt y z \<Longrightarrow> \<not> lt x z"
begin

lemma sorted_ins_stable:
  "sorted_wrt (\<lambda>a b. \<not> lt b a) ys \<Longrightarrow> sorted_wrt (\<lambda>a b. \<not> lt b a) (ins_stable lt x ys)"
proof (induction ys)
  case Nil
  then show ?case by simp
next
  case (Cons y ys)
  show ?case
  proof (cases "lt y x")
    case True
    with Cons asym [of y x] show ?thesis by auto
  next
    case False
    with Cons.prems have "\<forall>z \<in> set ys. \<not> lt z x" by (auto dest: neg_trans [of _ y x])
    with False Cons.prems show ?thesis by auto
  qed
qed

lemma sorted_SliceStable: "sorted_wrt (\<lambda>a b. \<not> lt b a) (SliceStable lt xs)"
  by (induction xs) (auto intro: sorted_ins_stable)

lemma filter_ins_stable:
  "filter P (ins_stable lt x ys) = (if P x then ins_stable lt x (filter P ys) else filter P ys)"
  if "sorted_wrt (\<lambda>a b. \<not> lt b a) ys"
  using that
proof (induction ys)
  case Nil
  then show ?case by simp
next
  case (Cons y ys)
  have head: "ins_stable lt x (filter P ys) = x # filter P ys" if "\<not> lt y x"
  proof -
    have "\<forall>z \<in> set (filter P ys). \<not> lt z x"
      using Cons.prems that by (auto dest: neg_trans [of _ y x])
    then show ?thesis by (cases "filter P ys") auto
  qed
  show ?case using Cons head by auto
qed

lemma filter_SliceStable: "filter P (SliceStable lt xs) = SliceStable lt (filter P xs)"
  by (induction xs) (auto simp: filter_ins_stable sorted_SliceStable)

lemma SliceStable_sorted_id:
  "sorted_wrt (\<lambda>a b. \<not> lt b a) xs \<Longrightarrow> SliceStable lt xs = xs"
proof (induction xs)
  case Nil
  then show ?case by simp
next
  case (Cons x xs)
  then show ?case by (cases xs) auto
qed

end

section \<open>Buckets\<close>

text \<open>
  A bucket of the embedded bbolt database: key/value pairs iterated by its cursor in
  byte order of the keys. \<open>b_get\<close> is \<^verbatim>\<open>Bucket.Get\<close>, \<open>b_put\<close> is \<^verbatim>\<open>Bucket.Put\<close> with its
  refusal of empty and of oversized keys, \<open>b_del\<close> is \<^verbatim>\<open>Bucket.Delete\<close>, which ignores a
  missing key; the list itself is what a cursor walks from \<^verbatim>\<open>First\<close> to the end.
\<close>

type_synonym 'v bucket = "(string \<times> 'v) list"

definition b_get :: "'v bucket \<Rightarrow> string \<Rightarrow> 'v option" where
  "b_get b k = map_of b k"

fun b_upd :: "string \<Rightarrow> 'v \<Rightarrow> 'v bucket \<Rightarrow> 'v bucket" where
  "b_upd k v [] = [(k, v)]"
| "b_upd k v ((k', v') # b) =
     (if k < k' then (k, v) # (k', v') # b
      else if k = k' then (k, v) # b
      else (k', v') # b_upd k v b)"

definition b_del :: "string \<Rightarrow> 'v bucket \<Rightarrow> 'v bucket" where
  "b_del k b = filter (\<lambda>(k', v). k' \<noteq> k) b"

definition b_inv :: "'v bucket \<Rightarrow> bool" where
  "b_inv b \<longleftrightarrow> sorted_wrt (<) (map fst b)"

definition MaxKeySize :: nat where "MaxKeySize = 32768"

definition b_put :: "string \<Rightarrow> 'v \<Rightarrow> 'v bucket \<Rightarrow> 'v bucket res" where
  "b_put k v b =
     (if k = [] then Inl (Plain ''key required'')
      else if length k > MaxKeySize then Inl (Plain ''key too large'')
      else Inr (b_upd k v b))"

locale ordered_bucket =
  fixes get :: "'m \<Rightarrow> string \<Rightarrow> 'v option"
    and upd :: "string \<Rightarrow> 'v \<Rightarrow> 'm \<Rightarrow> 'm"
    and del :: "string \<Rightarrow> 'm \<Rightarrow> 'm"
    and entries :: "'m \<Rightarrow> (string \<times> 'v) list"
    and invar :: "'m \<Rightarrow> bool"
  assumes get_upd: "invar m \<Longrightarrow> get (upd k v m) = (get m)(k \<mapsto> v)"
    and get_del: "invar m \<Longrightarrow> get (del k m) = (get m)(k := None)"
    and entries_get: "invar m \<Longrightarrow> get m = map_of (entries m)"
    and entries_sorted: "invar m \<Longrightarrow> sorted_wrt (<) (map fst (entries m))"
    and invar_upd: "invar m \<Longrightarrow> invar (upd k v m)"
    and invar_del: "invar m \<Longrightarrow> invar (del k m)"
begin

lemma entries_distinct: "invar m \<Longrightarrow> distinct (map fst (entries m))"
  using entries_sorted [of m] strict_sorted_iff [of "map fst (entries m)"] by simp

lemma in_entries_iff: "invar m \<Longrightarrow> (k, v) \<in> set (entries m) \<longleftrightarrow> get m k = Some v"
  by (simp add: entries_get entries_distinct)

lemma upd_other: "invar m \<Longrightarrow> k' \<noteq> k \<Longrightarrow> get (upd k v m) k' = get m k'"
  by (simp add: get_upd)

lemma entries_ext: "invar m \<Longrightarrow> invar m' \<Longrightarrow> get m = get m' \<Longrightarrow> entries m = entries m'"
  by (rule map_sorted_distinct_set_unique [of fst])
    (auto simp: entries_distinct strict_sorted_iff [symmetric] entries_sorted in_entries_iff
      intro: strict_sorted_imp_sorted inj_onI)

end

lemma keys_b_upd: "set (map fst (b_upd k v b)) = insert k (set (map fst b))"
  by (induction k v b rule: b_upd.induct) auto

lemma b_inv_b_upd: "b_inv b \<Longrightarrow> b_inv (b_upd k v b)"
proof (induction k v b rule: b_upd.induct)
  case (1 k v)
  then show ?case by (simp add: b_inv_def)
next
  case (2 k v k' v' b)
  have keys: "set (map fst (b_upd k v b)) = insert k (set (map fst b))" by (rule keys_b_upd)
  from "2.prems" have tail: "b_inv b" by (simp add: b_inv_def)
  consider "k < k'" | "k = k'" | "k' < k" by fastforce
  then show ?case
  proof cases
    case 1
    with "2.prems" show ?thesis by (auto simp: b_inv_def)
  next
    case 2
    with "2.prems" show ?thesis by (auto simp: b_inv_def)
  next
    case 3
    with "2.IH" tail have "b_inv (b_upd k v b)" by auto
    with 3 "2.prems" keys show ?thesis by (auto simp: b_inv_def)
  qed
qed

lemma map_of_b_upd: "b_inv b \<Longrightarrow> map_of (b_upd k v b) = (map_of b)(k \<mapsto> v)"
proof (induction k v b rule: b_upd.induct)
  case (1 k v)
  then show ?case by simp
next
  case (2 k v k' v' b)
  from "2.prems" have tail: "b_inv b" by (simp add: b_inv_def)
  consider "k < k'" | "k = k'" | "k' < k" by fastforce
  then show ?case using "2.IH" tail by cases (auto simp: fun_eq_iff)
qed

lemma b_inv_filter: "b_inv b \<Longrightarrow> b_inv (filter P b)"
  unfolding b_inv_def by (induction b) auto

lemma map_of_b_del: "map_of (b_del k b) = (map_of b)(k := None)"
  by (induction b) (auto simp: b_del_def fun_eq_iff)

interpretation bolt: ordered_bucket b_get b_upd b_del "\<lambda>b. b" b_inv
proof unfold_locales
  fix m :: "'a bucket" and k v assume "b_inv m"
  then show "b_get (b_upd k v m) = (b_get m)(k \<mapsto> v)"
    by (simp add: b_get_def map_of_b_upd fun_eq_iff)
next
  fix m :: "'a bucket" and k
  show "b_get (b_del k m) = (b_get m)(k := None)"
    by (simp add: b_get_def map_of_b_del fun_eq_iff)
next
  fix m :: "'a bucket" show "b_get m = map_of m" by (simp add: b_get_def fun_eq_iff)
next
  fix m :: "'a bucket" assume "b_inv m" then show "sorted_wrt (<) (map fst m)"
    by (simp add: b_inv_def)
next
  fix m :: "'a bucket" and k v assume "b_inv m" then show "b_inv (b_upd k v m)"
    by (rule b_inv_b_upd)
next
  fix m :: "'a bucket" and k assume "b_inv m" then show "b_inv (b_del k m)"
    unfolding b_del_def by (rule b_inv_filter)
qed

lemmas [bucket_law] = bolt.get_upd bolt.get_del
lemmas [intro] = bolt.invar_upd bolt.invar_del

lemma b_inv_Nil [simp]: "b_inv []"
  by (simp add: b_inv_def)

lemma b_get_Nil [simp]: "b_get [] k = None"
  by (simp add: b_get_def)

lemma b_put_ok_iff:
  "b_put k v b = Inr b' \<longleftrightarrow> k \<noteq> [] \<and> length k \<le> MaxKeySize \<and> b' = b_upd k v b"
  by (auto simp: b_put_def)

text \<open>
  JSON documents in a bucket: the encoding of a value, or bytes that do not decode. Values
  written by \<^verbatim>\<open>json.Marshal\<close> decode to themselves; \<open>BadJson\<close> keeps the error branches.
\<close>

datatype 'a json = Json 'a | BadJson

definition Unmarshal :: "'a json \<Rightarrow> 'a option" where
  "Unmarshal j = (case j of Json x \<Rightarrow> Some x | BadJson \<Rightarrow> None)"

lemma Unmarshal_simps [simp]: "Unmarshal (Json x) = Some x" "Unmarshal BadJson = None"
  by (simp_all add: Unmarshal_def)

lemma sint_int64: "- (2 ^ 63) \<le> k \<Longrightarrow> k < 2 ^ 63 \<Longrightarrow> sint (word_of_int k :: 64 word) = k"
  by (simp add: signed_of_int signed_take_bit_int_eq_self)

section \<open>Prefixes and suffixes\<close>

definition HasPrefix :: "string \<Rightarrow> string \<Rightarrow> bool" where
  "HasPrefix s pre \<longleftrightarrow> take (length pre) s = pre"

definition HasSuffix :: "string \<Rightarrow> string \<Rightarrow> bool" where
  "HasSuffix s suf \<longleftrightarrow> length suf \<le> length s \<and> drop (length s - length suf) s = suf"

definition TrimPrefix :: "string \<Rightarrow> string \<Rightarrow> string" where
  "TrimPrefix s pre = (if HasPrefix s pre then drop (length pre) s else s)"

definition TrimSuffix :: "string \<Rightarrow> string \<Rightarrow> string" where
  "TrimSuffix s suf = (if HasSuffix s suf then take (length s - length suf) s else s)"

lemma HasPrefix_append [simp]: "HasPrefix (pre @ s) pre"
  by (simp add: HasPrefix_def)

lemma HasPrefixD: "HasPrefix s pre \<Longrightarrow> \<exists>r. s = pre @ r"
  unfolding HasPrefix_def by (metis append_take_drop_id)

lemma HasSuffix_append [simp]: "HasSuffix (s @ suf) suf"
  by (simp add: HasSuffix_def)

lemma HasSuffixD: "HasSuffix s suf \<Longrightarrow> \<exists>r. s = r @ suf"
  unfolding HasSuffix_def by (metis append_take_drop_id)

lemma TrimPrefix_append [simp]: "TrimPrefix (pre @ s) pre = s"
  by (simp add: TrimPrefix_def)

lemma TrimSuffix_append [simp]: "TrimSuffix (s @ suf) suf = s"
  by (simp add: TrimSuffix_def)

section \<open>Slices\<close>

lemma sub_slice_join: "a \<le> b \<Longrightarrow> b \<le> c \<Longrightarrow> sub_slice a b xs @ sub_slice b c xs = sub_slice a c xs"
proof -
  assume "a \<le> b" "b \<le> c"
  then have "c - a = (b - a) + (c - b)" "drop b xs = drop (b - a) (drop a xs)" by simp_all
  then show ?thesis unfolding sub_slice_def by (simp only: take_add)
qed

lemma sub_slice_join_rest:
  "a \<le> b \<Longrightarrow> b \<le> c \<Longrightarrow> sub_slice a b xs @ sub_slice b c xs @ ys = sub_slice a c xs @ ys"
  using sub_slice_join [of a b c xs] by simp

lemma sub_slice_all: "sub_slice 0 c xs @ drop c xs = xs"
  by (simp add: sub_slice_def)

lemma sub_slice_one: "a < length xs \<Longrightarrow> [xs ! a] = sub_slice a (Suc a) xs"
  by (simp add: sub_slice_def take_Suc_conv_app_nth hd_drop_conv_nth take_Suc)

lemma PutUint_slice:
  "a + 2 \<le> length xs \<Longrightarrow> PutUint16 (Uint16 (sub_slice a (a + 2) xs)) = sub_slice a (a + 2) xs"
  "a + 4 \<le> length xs \<Longrightarrow> PutUint32 (Uint32 (sub_slice a (a + 4) xs)) = sub_slice a (a + 4) xs"
  "a + 8 \<le> length xs \<Longrightarrow> PutUint64 (Uint64 (sub_slice a (a + 8) xs)) = sub_slice a (a + 8) xs"
  by simp_all

lemma unat_word_of_length:
  "n < 2 ^ 16 \<Longrightarrow> unat (word_of_nat n :: 16 word) = n"
  "n < 2 ^ 32 \<Longrightarrow> unat (word_of_nat n :: 32 word) = n"
  by (simp_all add: unat_of_nat mod_less)

lemma unat_16_less: "unat (w :: 16 word) < 2 ^ 16"
  using unsigned_less [of w, where 'a = nat] by simp

lemma sub_slice_mid: "sub_slice a b (p @ q @ r) = q" if "length p = a" "a + length q = b"
  using that by (auto simp: sub_slice_def)

end
