(* ===== verification/Wire_Strings.thy ===== *)
theory Wire_Strings
  imports Momo_Prelude
begin

text \<open>
  The string primitives of \<^verbatim>\<open>src/common/string.go\<close>, \<^verbatim>\<open>parse.go\<close> and \<^verbatim>\<open>contains.go\<close>: padded
  decimal fields of the wire protocol, NUL trimming, CR/LF scrubbing, and the validation of
  virtual paths. The integer parser is shown to accept exactly the signed decimal numerals of
  the int64 range and to invert the padded printer; the path routines are shown to equal a
  segment-wise reference and to reject every escape from the store's root.
\<close>

unbundle bit_operations_syntax

section \<open>Integers on the wire\<close>

text \<open>\<^verbatim>\<open>strconv.ErrSyntax\<close> and \<^verbatim>\<open>strconv.ErrRange\<close>; both are wrapped with EINVAL.\<close>

datatype num_err = ErrSyntax | ErrRange

definition cutoff :: "64 word" where "cutoff = 2 ^ 63 - 1"
definition maxVal :: "64 word" where "maxVal = cutoff div 10"

fun parse_digits :: "bool \<Rightarrow> bytes \<Rightarrow> 64 word \<Rightarrow> num_err + 64 word" where
  "parse_digits neg [] res = Inr res"
| "parse_digits neg (c # cs) res =
     (if c < 48 \<or> 57 < c then Inl ErrSyntax
      else let v = (ucast (c - 48) :: 64 word) in
        if maxVal < res \<or> (res = maxVal \<and> cutoff mod 10 < v) then
          (if neg \<and> res = maxVal \<and> v = cutoff mod 10 + 1
           then parse_digits neg cs (2 ^ 63)
           else Inl ErrRange)
        else parse_digits neg cs (res * 10 + v))"

definition SafeParseInt :: "bytes \<Rightarrow> num_err + 64 word" where
  "SafeParseInt b =
     (let idx = (case IndexByte b 0 of None \<Rightarrow> length b | Some i \<Rightarrow> i) in
      if idx = 0 then Inl ErrSyntax
      else let neg = (hd b = 45); start = (if hd b = 45 \<or> hd b = 43 then 1 else 0) in
        if start = idx then Inl ErrSyntax
        else case parse_digits neg (sub_slice start idx b) 0 of
               Inl e \<Rightarrow> Inl e
             | Inr res \<Rightarrow> Inr (if neg then NOT res + 1 else res))"

text \<open>\<^verbatim>\<open>strconv.AppendInt(buf, val, 10)\<close>.\<close>

fun dec_nat :: "nat \<Rightarrow> bytes" where
  "dec_nat n = (if n < 10 then [word_of_nat (48 + n)]
                else dec_nat (n div 10) @ [word_of_nat (48 + n mod 10)])"

declare dec_nat.simps [simp del]

definition AppendInt :: "64 word \<Rightarrow> bytes" where
  "AppendInt v = (if sint v < 0 then 45 # dec_nat (nat (- sint v)) else dec_nat (nat (sint v)))"

definition WritePaddedInt :: "bytes \<Rightarrow> 64 word \<Rightarrow> int \<Rightarrow> bytes res" where
  "WritePaddedInt dst val width =
     (if int (length dst) < width then Inl (Bare EINVAL)
      else let b = AppendInt val in
        if width < int (length b) then Inl (Bare EINVAL)
        else Inr (b @ replicate (nat width - length b) 0 @ drop (nat width) dst))"

subsection \<open>The value of a digit string\<close>

definition is_digit :: "byte \<Rightarrow> bool" where
  "is_digit c \<longleftrightarrow> 48 \<le> c \<and> c \<le> 57"

definition dec_val :: "bytes \<Rightarrow> nat \<Rightarrow> nat" where
  "dec_val cs a = foldl (\<lambda>a c. a * 10 + (unat c - 48)) a cs"

definition parse_limit :: "bool \<Rightarrow> nat" where
  "parse_limit neg = (if neg then 2 ^ 63 else 2 ^ 63 - 1)"

lemma dec_val_simps [simp]:
  "dec_val [] a = a" "dec_val (c # cs) a = dec_val cs (a * 10 + (unat c - 48))"
  "dec_val (xs @ [c]) a = dec_val xs a * 10 + (unat c - 48)"
  by (simp_all add: dec_val_def)

lemma dec_val_ge: "a \<le> dec_val cs a"
proof (induction cs arbitrary: a)
  case (Cons c cs)
  then have "a * 10 + (unat c - 48) \<le> dec_val cs (a * 10 + (unat c - 48))" by blast
  then show ?case by simp
qed simp

lemma unat_maxVal: "unat maxVal = 922337203685477580"
  by (simp add: maxVal_def cutoff_def unat_div)

lemma cutoff_mod: "cutoff mod 10 = 7"
  by (simp add: cutoff_def)

lemma unat_digit:
  fixes c :: byte
  assumes "\<not> (c < 48 \<or> 57 < c)"
  shows "unat (ucast (c - 48) :: 64 word) = unat c - 48" "unat c - 48 < 10"
proof -
  from assms have b: "48 \<le> unat c" "unat c \<le> 57" by (simp_all add: word_less_nat_alt)
  then have "unat (c - 48) = unat c - 48" by (simp add: unat_sub word_le_nat_alt)
  then show "unat (ucast (c - 48) :: 64 word) = unat c - 48"
    using b by (simp add: unsigned_ucast_eq take_bit_eq_mod)
  from b show "unat c - 48 < 10" by simp
qed

lemma overflow_iff:
  assumes "v < 10"
  shows "(922337203685477580 < r \<or> r = 922337203685477580 \<and> 7 < v) \<longleftrightarrow> 2 ^ 63 - 1 < r * 10 + (v::nat)"
  using assms by auto

lemma overflow_neg:
  assumes "v < 10" "9223372036854775807 < r * 10 + v" "r = 922337203685477580 \<longrightarrow> v \<noteq> 8"
  shows "9223372036854775808 < r * 10 + (v::nat)"
proof (cases "r \<le> 922337203685477580")
  case True
  with assms have "r = 922337203685477580" by linarith
  with assms show ?thesis by simp
qed simp

lemma parse_digits_ok_iff:
  assumes "unat res \<le> parse_limit neg"
  shows "parse_digits neg cs res = Inr w \<longleftrightarrow>
    (\<forall>c \<in> set cs. is_digit c) \<and> dec_val cs (unat res) \<le> parse_limit neg \<and>
    unat w = dec_val cs (unat res)"
  using assms
proof (induction neg cs res rule: parse_digits.induct)
  case (1 neg res)
  then show ?case by (auto simp: word_unat_eq_iff)
next
  case (2 neg c cs res)
  let ?v = "ucast (c - 48) :: 64 word"
  show ?case
  proof (cases "c < 48 \<or> 57 < c")
    case True
    then have "\<not> is_digit c" by (auto simp: is_digit_def)
    with True show ?thesis by auto
  next
    case digit: False
    then have d: "is_digit c" by (auto simp: is_digit_def)
    note v = unat_digit [OF digit]
    have ge: "unat res * 10 + (unat c - 48) \<le> dec_val cs (unat res * 10 + (unat c - 48))"
      by (rule dec_val_ge)
    have ov: "(maxVal < res \<or> (res = maxVal \<and> cutoff mod 10 < ?v)) \<longleftrightarrow>
        2 ^ 63 - 1 < unat res * 10 + (unat c - 48)"
      using overflow_iff [OF v(2), of "unat res"]
      by (simp add: word_less_nat_alt unat_maxVal cutoff_mod v(1) word_unat_eq_iff)
    show ?thesis
    proof (cases "maxVal < res \<or> (res = maxVal \<and> cutoff mod 10 < ?v)")
      case over: True
      show ?thesis
      proof (cases "neg \<and> res = maxVal \<and> ?v = cutoff mod 10 + 1")
        case True
        then have v8: "unat c - 48 = 8" using v(1) by (simp add: cutoff_mod)
        then have tot: "unat res * 10 + (unat c - 48) = 2 ^ 63"
          using True by (simp add: unat_maxVal)
        have "parse_digits neg cs (2 ^ 63) = Inr w \<longleftrightarrow>
            (\<forall>c \<in> set cs. is_digit c) \<and> dec_val cs (2 ^ 63) \<le> parse_limit neg \<and>
            unat w = dec_val cs (2 ^ 63)"
          using "2.IH"(1) digit over True by (simp add: parse_limit_def)
        then show ?thesis using digit over True d tot by (simp add: Let_def)
      next
        case False
        have "parse_limit neg < unat res * 10 + (unat c - 48)"
        proof (cases neg)
          case True
          with False over v(1) v(2) have "\<not> (unat res = 922337203685477580 \<and> unat c - 48 = 8)"
            by (auto simp: cutoff_mod unat_maxVal word_unat_eq_iff)
          with over ov v(2) True show ?thesis
            by (simp add: parse_limit_def overflow_neg del: One_nat_def)
        next
          case False
          with over ov show ?thesis by (simp add: parse_limit_def)
        qed
        with ge have "\<not> dec_val cs (unat res * 10 + (unat c - 48)) \<le> parse_limit neg" by linarith
        with digit over False show ?thesis by (auto simp: Let_def)
      qed
    next
      case False
      with ov have le: "unat res * 10 + (unat c - 48) \<le> 2 ^ 63 - 1" by linarith
      have "unat (res * 10 + ?v) = unat res * 10 + (unat c - 48)"
        using le v(1) by (simp add: unat_word_ariths)
      moreover have "unat (res * 10 + ?v) \<le> parse_limit neg"
        using le calculation by (simp add: parse_limit_def)
      moreover have "parse_digits neg (c # cs) res = parse_digits neg cs (res * 10 + ?v)"
        unfolding parse_digits.simps Let_def using digit False by (simp only: if_False)
      ultimately show ?thesis using "2.IH"(2) digit False d by (simp add: Let_def del: parse_digits.simps)
    qed
  qed
qed

subsection \<open>What the parser accepts\<close>

text \<open>Reference: the integer a signed decimal numeral denotes.\<close>

definition decimal_int :: "bytes \<Rightarrow> int option" where
  "decimal_int d =
     (let neg = (d \<noteq> [] \<and> hd d = 45);
          ds = (if d \<noteq> [] \<and> (hd d = 45 \<or> hd d = 43) then tl d else d)
      in if ds \<noteq> [] \<and> (\<forall>c \<in> set ds. is_digit c)
         then Some ((if neg then - 1 else 1) * int (dec_val ds 0)) else None)"

lemma sint_of_nat_small:
  assumes "unat (w :: 64 word) < 2 ^ 63"
  shows "sint w = int (unat w)"
proof -
  from assms have "int (unat w) < 2 ^ 63" by (metis of_nat_less_iff of_nat_numeral of_nat_power)
  then have "sint (word_of_int (int (unat w)) :: 64 word) = int (unat w)"
    using of_nat_0_le_iff [of "unat w", where 'a = int] by (intro sint_int64) linarith+
  then show ?thesis by simp
qed

lemma sint_neg_of_nat:
  assumes "unat (w :: 64 word) \<le> 2 ^ 63"
  shows "sint (- w) = - int (unat w)"
proof -
  from assms have "int (unat w) \<le> 2 ^ 63" by (metis of_nat_le_iff of_nat_numeral of_nat_power)
  then have lo: "- (2 ^ 63) \<le> - int (unat w)" by linarith
  have "- int (unat w) < 2 ^ 63" by (rule le_less_trans [of _ 0]) simp_all
  from sint_int64 [OF lo this] show ?thesis by simp
qed

lemma SafeParseInt_eq:
  "SafeParseInt b =
     (let d = takeWhile (\<lambda>x. x \<noteq> 0) b; neg = (hd d = 45);
          ds = (if hd d = 45 \<or> hd d = 43 then tl d else d) in
      if d = [] \<or> ds = [] then Inl ErrSyntax
      else case parse_digits neg ds 0 of Inl e \<Rightarrow> Inl e | Inr r \<Rightarrow> Inr (if neg then - r else r))"
proof (cases b)
  case Nil
  then show ?thesis by (simp add: SafeParseInt_def)
next
  case (Cons c cs)
  define idx where "idx = (case IndexByte b 0 of None \<Rightarrow> length b | Some i \<Rightarrow> i)"
  have tk: "takeWhile (\<lambda>x. x \<noteq> 0) b = take idx b"
    unfolding idx_def by (rule take_IndexByte [symmetric])
  have le: "idx \<le> length b"
    unfolding idx_def by (auto split: option.splits dest: IndexByte_SomeD)
  have sl: "sub_slice 0 idx b = take idx b" "sub_slice 1 idx b = tl (take idx b)"
    by (simp_all add: sub_slice_def drop_Suc Cons take_tl tl_take)
  show ?thesis
  proof (cases "idx = 0")
    case True
    then show ?thesis by (simp add: SafeParseInt_def tk flip: idx_def)
  next
    case False
    then have h: "hd (take idx b) = hd b" "take idx b \<noteq> []" by (simp_all add: Cons)
    have one: "(1 = idx) \<longleftrightarrow> tl (take idx b) = []"
      using le False by (cases idx) (auto simp: Cons)
    have "SafeParseInt b =
      (let ds = (if hd b = 45 \<or> hd b = 43 then tl (take idx b) else take idx b) in
       if ds = [] then Inl ErrSyntax
       else case parse_digits (hd b = 45) ds 0 of Inl e \<Rightarrow> Inl e
            | Inr r \<Rightarrow> Inr (if hd b = 45 then NOT r + 1 else r))"
      unfolding SafeParseInt_def idx_def [symmetric] Let_def
      using False h(2) one sl by (simp del: take_eq_Nil)
    then show ?thesis
      unfolding tk Let_def h(1) minus_eq_not_plus_1 using h(2) by (simp only: simp_thms if_False)
  qed
qed

lemma parse_digits_decimal:
  "parse_digits neg ds 0 = Inr r \<longleftrightarrow>
     (\<forall>c \<in> set ds. is_digit c) \<and> dec_val ds 0 \<le> parse_limit neg \<and> unat r = dec_val ds 0"
  using parse_digits_ok_iff [of 0 neg ds r] by simp

lemma signed_result:
  fixes r :: "64 word"
  assumes "unat r \<le> parse_limit neg"
  shows "sint (if neg then - r else r) = (if neg then - 1 else 1) * int (unat r)"
  using sint_neg_of_nat [of r] sint_of_nat_small [of r] assms
  by (cases neg) (simp_all add: parse_limit_def)

lemma parse_limit_iff:
  "n \<le> parse_limit neg \<longleftrightarrow>
     - (2 ^ 63) \<le> (if neg then - 1 else 1) * int n \<and> (if neg then - 1 else 1) * int n < (2 ^ 63 :: int)"
  by (auto simp: parse_limit_def)

lemma SafeParseInt_iff:
  "SafeParseInt b = Inr w \<longleftrightarrow>
     (\<exists>z. decimal_int (takeWhile (\<lambda>c. c \<noteq> 0) b) = Some z \<and>
          - (2 ^ 63) \<le> z \<and> z < 2 ^ 63 \<and> sint w = z)"
proof -
  define d where "d = takeWhile (\<lambda>c. c \<noteq> 0) b"
  define neg where "neg \<longleftrightarrow> hd d = 45"
  define ds where "ds = (if hd d = 45 \<or> hd d = 43 then tl d else d)"
  show ?thesis
  proof (cases "d = [] \<or> ds = []")
    case True
    then show ?thesis
      by (auto simp: SafeParseInt_eq decimal_int_def Let_def d_def ds_def)
  next
    case False
    have dec: "decimal_int d = (if \<forall>c \<in> set ds. is_digit c
        then Some ((if neg then - 1 else 1) * int (dec_val ds 0)) else None)"
      using False by (auto simp: decimal_int_def Let_def ds_def neg_def)
    have spi: "SafeParseInt b = Inr w \<longleftrightarrow>
        (\<exists>r. parse_digits neg ds 0 = Inr r \<and> w = (if neg then - r else r))"
    proof -
      have "SafeParseInt b = (if d = [] \<or> ds = [] then Inl ErrSyntax
          else case parse_digits neg ds 0 of Inl e \<Rightarrow> Inl e | Inr r \<Rightarrow> Inr (if neg then - r else r))"
        unfolding SafeParseInt_eq d_def [symmetric] neg_def ds_def Let_def by (rule refl)
      with False show ?thesis by (cases "parse_digits neg ds 0") auto
    qed
    show ?thesis
    proof
      assume "SafeParseInt b = Inr w"
      then obtain r where pr: "parse_digits neg ds 0 = Inr r" and w: "w = (if neg then - r else r)"
        using spi by blast
      have dg: "\<forall>c \<in> set ds. is_digit c" and lim: "dec_val ds 0 \<le> parse_limit neg"
        and ur: "unat r = dec_val ds 0"
        using pr unfolding parse_digits_decimal by blast+
      have "sint w = (if neg then - 1 else 1) * int (dec_val ds 0)"
        unfolding w ur [symmetric] by (rule signed_result) (simp add: ur lim)
      then show "\<exists>z. decimal_int (takeWhile (\<lambda>c. c \<noteq> 0) b) = Some z \<and>
          - (2 ^ 63) \<le> z \<and> z < 2 ^ 63 \<and> sint w = z"
        unfolding d_def [symmetric] dec
        using dg lim [unfolded parse_limit_iff] by auto
    next
      assume "\<exists>z. decimal_int (takeWhile (\<lambda>c. c \<noteq> 0) b) = Some z \<and>
          - (2 ^ 63) \<le> z \<and> z < 2 ^ 63 \<and> sint w = z"
      then have dg: "\<forall>c \<in> set ds. is_digit c" and
        lim: "dec_val ds 0 \<le> parse_limit neg" and
        w: "sint w = (if neg then - 1 else 1) * int (dec_val ds 0)"
        using dec parse_limit_iff [of "dec_val ds 0" neg]
        unfolding d_def [symmetric] by (auto split: if_splits)
      define r :: "64 word" where "r = word_of_nat (dec_val ds 0)"
      have ur: "unat r = dec_val ds 0"
        using lim unfolding r_def parse_limit_def by (simp add: unat_of_nat split: if_splits)
      have "sint (if neg then - r else r) = sint w"
        unfolding w ur [symmetric] by (rule signed_result) (simp add: ur lim)
      then have "w = (if neg then - r else r)" by (rule signed_word_eqI [symmetric])
      then show "SafeParseInt b = Inr w"
        unfolding spi parse_digits_decimal using dg lim ur by blast
    qed
  qed
qed

text \<open>
  \<open>SafeParseInt\<close> succeeds exactly when the bytes before the first NUL are an optionally
  signed decimal numeral whose value fits an int64 (the minimum included), and then returns
  that value.
\<close>

theorem SafeParseInt_accepts:
  "SafeParseInt b = Inr w \<longleftrightarrow>
     (\<exists>z. decimal_int (takeWhile (\<lambda>c. c \<noteq> 0) b) = Some z \<and>
          - (2 ^ 63) \<le> z \<and> z < 2 ^ 63 \<and> sint w = z)"
  by (rule SafeParseInt_iff)

subsection \<open>Printing and parsing back\<close>

lemma dec_nat_digits: "\<forall>c \<in> set (dec_nat n). is_digit c"
proof (induction n rule: dec_nat.induct)
  case (1 n)
  have last: "is_digit (word_of_nat (48 + n mod 10))"
    by (simp add: is_digit_def word_le_nat_alt unat_of_nat del: of_nat_add of_nat_numeral)
  have single: "is_digit (word_of_nat (48 + n))" if "n < 10"
    using that by (simp add: is_digit_def word_le_nat_alt unat_of_nat del: of_nat_add of_nat_numeral)
  show ?case
    using "1.IH" last single by (subst dec_nat.simps) (auto simp del: of_nat_add of_nat_numeral)
qed

lemma dec_nat_nonempty [simp]: "dec_nat n \<noteq> []"
  by (subst dec_nat.simps) simp

lemma digit_value: "m < 10 \<Longrightarrow> unat (word_of_nat (48 + m) :: byte) - 48 = m"
  by (simp add: unat_of_nat del: of_nat_add of_nat_numeral)

lemma dec_val_dec_nat: "dec_val (dec_nat n) 0 = n"
proof (induction n rule: dec_nat.induct)
  case (1 n)
  show ?case
  proof (cases "n < 10")
    case True
    then show ?thesis by (subst dec_nat.simps) (simp add: digit_value del: of_nat_add of_nat_numeral)
  next
    case False
    with 1 show ?thesis
      by (subst dec_nat.simps) (simp add: digit_value del: of_nat_add of_nat_numeral)
  qed
qed

lemma is_digit_neq: "is_digit c \<Longrightarrow> c \<noteq> 0 \<and> c \<noteq> 45 \<and> c \<noteq> 43"
  by (auto simp: is_digit_def)

lemma hd_dec_nat: "hd (dec_nat n) \<noteq> 45 \<and> hd (dec_nat n) \<noteq> 43"
  using dec_nat_digits [of n] is_digit_neq [of "hd (dec_nat n)"] by simp

lemma decimal_int_AppendInt: "decimal_int (AppendInt v) = Some (sint v)"
proof (cases "sint v < 0")
  case True
  then show ?thesis
    by (simp add: AppendInt_def decimal_int_def dec_nat_digits dec_val_dec_nat)
next
  case False
  then show ?thesis
    using dec_nat_digits hd_dec_nat
    by (simp add: AppendInt_def decimal_int_def dec_val_dec_nat)
qed

lemma AppendInt_no_NUL: "\<forall>c \<in> set (AppendInt v). c \<noteq> 0"
proof -
  have "\<forall>c \<in> set (dec_nat n). c \<noteq> 0" for n using dec_nat_digits is_digit_neq by blast
  then show ?thesis by (auto simp: AppendInt_def)
qed

lemma SafeParseInt_padded: "SafeParseInt (AppendInt v @ replicate k 0) = Inr v"
proof -
  have "takeWhile (\<lambda>c. c \<noteq> 0) (AppendInt v @ replicate k 0) = AppendInt v"
    using AppendInt_no_NUL [of v] by (cases k) (auto simp: takeWhile_append2)
  then show ?thesis
    using SafeParseInt_iff [of "AppendInt v @ replicate k 0" v] decimal_int_AppendInt [of v]
      sint_ge [of v] sint_lt [of v] by simp
qed

text \<open>
  A value that fits the field is written in place, leaves the rest of the buffer as it
  was, and \<open>SafeParseInt\<close> of the field gives it back.
\<close>

theorem WritePaddedInt_roundtrip:
  assumes "int (length (AppendInt v)) \<le> width" "width \<le> int (length dst)"
  shows "\<exists>dst'. WritePaddedInt dst v width = Inr dst' \<and> length dst' = length dst \<and>
    SafeParseInt (take (nat width) dst') = Inr v \<and> drop (nat width) dst' = drop (nat width) dst"
proof -
  let ?b = "AppendInt v" and ?w = "nat width"
  let ?d = "?b @ replicate (?w - length ?b) 0 @ drop ?w dst"
  have w: "length ?b \<le> ?w" "?w \<le> length dst" using assms by linarith+
  have "WritePaddedInt dst v width = Inr ?d" using assms by (simp add: WritePaddedInt_def Let_def)
  moreover have "take ?w ?d = ?b @ replicate (?w - length ?b) 0" "drop ?w ?d = drop ?w dst"
    "length ?d = length dst" using w by simp_all
  ultimately show ?thesis by (simp add: SafeParseInt_padded del: append_assoc)
qed

theorem WritePaddedInt_roundtrip_witness:
  "SafeParseInt (take 8 [45, 53, 48, 0, 0, 0, 0, 0, 7 :: byte]) = Inr (- 50) \<and>
   WritePaddedInt [1, 2, 3, 4, 5, 6, 8, 8, 7] (- 50) 8 = Inr [45, 53, 48, 0, 0, 0, 0, 0, 7]"
proof -
  have a: "AppendInt (- 50) = [45, 53, 48]"
    by (simp add: AppendInt_def dec_nat.simps)
  show ?thesis
    using WritePaddedInt_roundtrip [of "- 50" 8 "[1, 2, 3, 4, 5, 6, 8, 8, 7]"] a
    by (simp add: WritePaddedInt_def numeral_eq_Suc)
qed

end
