(* ===== verification/Virtual_Path.thy ===== *)
theory Virtual_Path
  imports Momo_Prelude
begin

text \<open>
  Text fields and virtual paths of \<^verbatim>\<open>src/src/common/string.go\<close> and
  \<^verbatim>\<open>src/src/common/contains.go\<close>: the NUL-padded fields of the wire protocol, the cleaning of
  virtual paths, and the check that keeps a name below its base directory.
\<close>

section \<open>Fixed-width text fields\<close>

definition PadString :: "string \<Rightarrow> int \<Rightarrow> string res" where
  "PadString input len =
     (if len < 0 then Inl (Plain ''PadString: negative length'')
      else if int (length input) > len then Inl (Plain ''PadString: input exceeds length'')
      else if int (length input) = len then Inr input
      else Inr (input @ replicate (nat len - length input) (CHR 0x00)))"

definition TrimNullBytesString :: "bytes \<Rightarrow> string" where
  "TrimNullBytesString b =
     (case IndexByte b 0 of Some idx \<Rightarrow> bytes_str (take idx b) | None \<Rightarrow> bytes_str b)"

definition TrimNullBytesFromString :: "string \<Rightarrow> string" where
  "TrimNullBytesFromString s = (case IndexByte s (CHR 0x00) of Some idx \<Rightarrow> take idx s | None \<Rightarrow> s)"

definition ReplaceCRLF :: "string \<Rightarrow> string" where
  "ReplaceCRLF s =
     (if \<not> list_ex (\<lambda>c. c = CHR 0x0D \<or> c = CHR 0x0A) s then s
      else map (\<lambda>c. if c = CHR 0x0D \<or> c = CHR 0x0A then CHR '' '' else c) s)"

definition FindStringIndex :: "string list \<Rightarrow> string \<Rightarrow> int" where
  "FindStringIndex xs v = (case IndexByte xs v of Some i \<Rightarrow> int i | None \<Rightarrow> - 1)"

section \<open>Standard library: white space and path cleaning\<close>

text \<open>
  \<^verbatim>\<open>strings.TrimSpace\<close> removes Unicode white space at both ends. The list holds the UTF-8
  encodings of the code points for which \<^verbatim>\<open>unicode.IsSpace\<close> holds; bytes that are no valid
  encoding decode to the replacement character, which is not white space.
\<close>

definition space_runes :: "string list" where
  "space_runes = [
     [CHR 0x09], [CHR 0x0A], [CHR 0x0B], [CHR 0x0C], [CHR 0x0D], [CHR 0x20],
     [CHR 0xC2, CHR 0x85], [CHR 0xC2, CHR 0xA0], [CHR 0xE1, CHR 0x9A, CHR 0x80],
     [CHR 0xE2, CHR 0x80, CHR 0x80], [CHR 0xE2, CHR 0x80, CHR 0x81],
     [CHR 0xE2, CHR 0x80, CHR 0x82], [CHR 0xE2, CHR 0x80, CHR 0x83],
     [CHR 0xE2, CHR 0x80, CHR 0x84], [CHR 0xE2, CHR 0x80, CHR 0x85],
     [CHR 0xE2, CHR 0x80, CHR 0x86], [CHR 0xE2, CHR 0x80, CHR 0x87],
     [CHR 0xE2, CHR 0x80, CHR 0x88], [CHR 0xE2, CHR 0x80, CHR 0x89],
     [CHR 0xE2, CHR 0x80, CHR 0x8A], [CHR 0xE2, CHR 0x80, CHR 0xA8],
     [CHR 0xE2, CHR 0x80, CHR 0xA9], [CHR 0xE2, CHR 0x80, CHR 0xAF],
     [CHR 0xE2, CHR 0x81, CHR 0x9F], [CHR 0xE3, CHR 0x80, CHR 0x80]]"

function strip_left :: "string list \<Rightarrow> string \<Rightarrow> string" where
  "strip_left sps s =
     (case find (\<lambda>sp. sp \<noteq> [] \<and> prefix sp s) sps of
        None \<Rightarrow> s | Some sp \<Rightarrow> strip_left sps (drop (length sp) s))"
  by pat_completeness auto
termination
proof (relation "measure (\<lambda>(sps, s). length s)")
  fix sps s sp
  assume "find (\<lambda>sp. sp \<noteq> [] \<and> prefix sp s) sps = Some sp"
  then have "sp \<noteq> []" "prefix sp s" by (auto simp: find_Some_iff)
  then show "((sps, drop (length sp) s), (sps, s)) \<in> measure (\<lambda>(sps, s). length s)"
    by (auto simp: prefix_def)
qed simp

declare strip_left.simps [simp del]

definition TrimSpace :: "string \<Rightarrow> string" where
  "TrimSpace s = rev (strip_left (map rev space_runes) (rev (strip_left space_runes s)))"

text \<open>\<^verbatim>\<open>path.Clean\<close>: lexical elimination of empty, dot and dot-dot elements.\<close>

fun clean_comps :: "bool \<Rightarrow> string list \<Rightarrow> string list \<Rightarrow> string list" where
  "clean_comps rooted [] stack = rev stack"
| "clean_comps rooted (c # cs) stack =
     (if c = [] \<or> c = ''.'' then clean_comps rooted cs stack
      else if c = ''..'' then
        (case stack of
           [] \<Rightarrow> clean_comps rooted cs (if rooted then [] else [''..''])
         | t # ts \<Rightarrow> if t = ''..'' then clean_comps rooted cs (''..'' # stack)
                    else clean_comps rooted cs ts)
      else clean_comps rooted cs (c # stack))"

definition path_Clean :: "string \<Rightarrow> string" where
  "path_Clean p =
     (let rooted = (p \<noteq> [] \<and> hd p = CHR ''/'');
          out = (if rooted then ''/'' else []) @ Join (clean_comps rooted (split_on (CHR ''/'') p) []) ''/''
      in if out = [] then ''.'' else out)"

section \<open>Path routines\<close>

definition HasPathTraversalChars :: "string \<Rightarrow> bool" where
  "HasPathTraversalChars s \<longleftrightarrow>
     list_ex (\<lambda>c. c = CHR ''/'' \<or> c = CHR 0x5C) s \<or> s = ''..''"

function dotdot_scan :: "string \<Rightarrow> bool" where
  "dotdot_scan rem =
     (case IndexByte rem (CHR ''/'') of
        None \<Rightarrow> rem = ''..''
      | Some i \<Rightarrow> if take i rem = ''..'' then True else dotdot_scan (drop (i + 1) rem))"
  by pat_completeness auto
termination
  by (relation "measure length") (auto dest: IndexByte_SomeD)

declare dotdot_scan.simps [simp del]

definition rejectPathHazards :: "string \<Rightarrow> err option" where
  "rejectPathHazards p =
     (if CHR 0x00 \<in> set p then Some (Bare EINVAL)
      else if CHR 0x5C \<in> set p then Some (Bare EINVAL)
      else if dotdot_scan p then Some (Bare EINVAL)
      else None)"

function meaningfulSegments :: "string \<Rightarrow> string list" where
  "meaningfulSegments rem =
     (let i = IndexByte rem (CHR ''/'');
          seg = (case i of None \<Rightarrow> rem | Some n \<Rightarrow> take n rem);
          kept = (if seg \<noteq> [] \<and> seg \<noteq> ''.'' \<and> seg \<noteq> ''..'' \<and> TrimSpace seg \<noteq> [] then [seg] else [])
      in case i of None \<Rightarrow> kept | Some n \<Rightarrow> kept @ meaningfulSegments (drop (n + 1) rem))"
  by pat_completeness auto
termination
  by (relation "measure length") (auto dest!: IndexByte_SomeD [OF sym])

declare meaningfulSegments.simps [simp del]

definition NormalizeVirtualPath :: "string \<Rightarrow> string res" where
  "NormalizeVirtualPath p0 =
     (let p = TrimSpace p0 in
      if p = [] then Inr []
      else case rejectPathHazards p of
             Some e \<Rightarrow> Inl e
           | None \<Rightarrow>
               let segs = meaningfulSegments (path_Clean p) in
               if segs = [] then Inl (Bare EINVAL) else Inr (Join segs ''/''))"

definition ValidatePath :: "string \<Rightarrow> err option" where
  "ValidatePath name =
     (let cleaned = path_Clean name in
      if cleaned = ''.'' \<or> cleaned = ''..'' \<or> prefix ''../'' cleaned \<or> prefix ''/'' cleaned \<or>
         CHR 0x5C \<in> set cleaned
      then Some (Wrap EBADMSG) else None)"

section \<open>Padded fields read back\<close>

lemma TrimNull_takeWhile: "TrimNullBytesFromString s = takeWhile (\<lambda>c. c \<noteq> CHR 0x00) s"
  using take_IndexByte [of s "CHR 0x00"]
  by (auto simp: TrimNullBytesFromString_def split: option.splits)

lemma takeWhile_pad:
  "c \<notin> set s \<Longrightarrow> takeWhile (\<lambda>x. x \<noteq> c) (s @ replicate k c) = s"
  by (induction s) (auto simp: takeWhile_eq_Nil_iff)

lemma ReplaceCRLF_clean: "CHR 0x0D \<notin> set (ReplaceCRLF s) \<and> CHR 0x0A \<notin> set (ReplaceCRLF s)"
  by (auto simp: ReplaceCRLF_def list_ex_iff)

text \<open>
  A NUL-free value that fits its field is padded to exactly the field's length and
  \<open>TrimNullBytesFromString\<close> gives it back; every other length is refused.
\<close>

theorem PadString_roundtrip:
  assumes "CHR 0x00 \<notin> set s"
  shows "if int (length s) \<le> n
    then \<exists>t. PadString s n = Inr t \<and> int (length t) = n \<and> TrimNullBytesFromString t = s
    else \<exists>m. PadString s n = Inl (Plain m)"
  using assms by (auto simp: PadString_def TrimNull_takeWhile takeWhile_pad takeWhile_eq_all_conv)

theorem PadString_roundtrip_witness:
  "\<exists>t. PadString ''host'' 7 = Inr t \<and> length t = 7 \<and> TrimNullBytesFromString t = ''host''"
  using PadString_roundtrip [of "''host''" 7] by simp

section \<open>Splitting loops as list operations\<close>

lemma split_on_IndexByte_None: "IndexByte s c = None \<Longrightarrow> split_on c s = [s]"
  by (simp add: IndexByte_None_iff split_on_single)

lemma split_on_IndexByte_Some:
  assumes "IndexByte s c = Some i"
  shows "split_on c s = take i s # split_on c (drop (Suc i) s)"
proof -
  from IndexByte_SomeD [OF assms] have "s = take i s @ c # drop (Suc i) s" "c \<notin> set (take i s)"
    by auto
  then show ?thesis using split_on_append_sep [of c "take i s" "drop (Suc i) s"] by metis
qed

lemma dotdot_scan_split: "dotdot_scan s \<longleftrightarrow> ''..'' \<in> set (split_on (CHR ''/'') s)"
proof (induction s rule: dotdot_scan.induct)
  case (1 s)
  then show ?case
    by (subst dotdot_scan.simps)
      (auto simp: split_on_IndexByte_None split_on_IndexByte_Some split: option.splits)
qed

definition meaningful :: "string \<Rightarrow> bool" where
  "meaningful seg \<longleftrightarrow> seg \<noteq> [] \<and> seg \<noteq> ''.'' \<and> seg \<noteq> ''..'' \<and> TrimSpace seg \<noteq> []"

lemma meaningfulSegments_split:
  "meaningfulSegments s = filter meaningful (split_on (CHR ''/'') s)"
proof (induction s rule: meaningfulSegments.induct)
  case (1 s)
  show ?case
  proof (cases "IndexByte s (CHR ''/'')")
    case None
    then show ?thesis
      by (subst meaningfulSegments.simps) (simp add: split_on_IndexByte_None meaningful_def)
  next
    case (Some i)
    have IH: "meaningfulSegments (drop (i + 1) s) = filter meaningful (split_on (CHR ''/'') (drop (i + 1) s))"
      by (rule 1 [OF refl refl refl Some])
    show ?thesis
      by (subst meaningfulSegments.simps)
        (use IH Some in \<open>auto simp: split_on_IndexByte_Some meaningful_def Let_def\<close>)
  qed
qed

subsection \<open>Cleaning\<close>

lemma clean_comps_no_dotdot:
  "''..'' \<notin> set cs \<Longrightarrow>
     clean_comps r cs stack = rev stack @ filter (\<lambda>c. c \<noteq> [] \<and> c \<noteq> ''.'') cs"
  by (induction cs arbitrary: stack) auto

lemma split_on_path_Clean:
  assumes "''..'' \<notin> set (split_on (CHR ''/'') p)"
  shows "filter meaningful (split_on (CHR ''/'') (path_Clean p)) =
    filter meaningful (split_on (CHR ''/'') p)"
proof -
  let ?sp = "split_on (CHR ''/'')" and ?keep = "\<lambda>c :: string. c \<noteq> [] \<and> c \<noteq> ''.''"
  define cs where "cs = filter ?keep (?sp p)"
  have cc: "clean_comps r (?sp p) [] = cs" for r
    using assms by (simp add: clean_comps_no_dotdot cs_def)
  have no: "\<forall>c \<in> set cs. CHR ''/'' \<notin> set c" using split_on_no_sep [of "CHR ''/''" p]
    by (auto simp: cs_def)
  have keep: "filter meaningful cs = filter meaningful (?sp p)"
    unfolding cs_def filter_filter by (rule filter_cong) (auto simp: meaningful_def)
  have sj: "cs \<noteq> [] \<Longrightarrow> ?sp (Join cs ''/'') = cs" using split_on_Join [of cs "CHR ''/''"] no by simp
  have ne: "Join cs ''/'' = [] \<longleftrightarrow> cs = []"
  proof -
    have "Join xs ''/'' = [] \<Longrightarrow> (\<forall>x \<in> set xs. x \<noteq> []) \<Longrightarrow> xs = []" for xs :: "string list"
      by (induction xs "''/''" rule: Join.induct) auto
    then show ?thesis by (auto simp: cs_def)
  qed
  show ?thesis
    unfolding keep [symmetric]
    by (cases "cs = []") (auto simp: path_Clean_def Let_def cc ne sj meaningful_def)
qed

section \<open>Normalisation\<close>

text \<open>What \<open>NormalizeVirtualPath\<close> promises, segment by segment.\<close>

definition normalize_spec :: "string \<Rightarrow> string res" where
  "normalize_spec p =
     (let t = TrimSpace p; segs = split_on (CHR ''/'') t; kept = filter meaningful segs in
      if t = [] then Inr []
      else if CHR 0x00 \<in> set t \<or> CHR 0x5C \<in> set t \<or> ''..'' \<in> set segs \<or> kept = []
      then Inl (Bare EINVAL) else Inr (Join kept ''/''))"

lemma NormalizeVirtualPath_eq: "NormalizeVirtualPath p = normalize_spec p"
  by (simp add: NormalizeVirtualPath_def normalize_spec_def Let_def rejectPathHazards_def
      dotdot_scan_split meaningfulSegments_split split_on_path_Clean)

text \<open>
  \<open>NormalizeVirtualPath\<close> (byte scans over the cleaned path) computes the segment-wise
  specification: white space trimmed, the empty path kept, every path with a NUL, a
  backslash, a dot-dot segment or no meaningful segment refused with \<open>EINVAL\<close>, and otherwise
  exactly the meaningful segments in order, joined by slashes.
\<close>

theorem NormalizeVirtualPath_spec: "NormalizeVirtualPath p = normalize_spec p"
  by (rule NormalizeVirtualPath_eq)

lemma normalize_spec_ok:
  assumes "normalize_spec p = Inr q" "q \<noteq> []"
  obtains segs where "segs \<noteq> []" "q = Join segs ''/''" "\<forall>s \<in> set segs. meaningful s"
    "\<forall>s \<in> set segs. CHR ''/'' \<notin> set s \<and> CHR 0x00 \<notin> set s \<and> CHR 0x5C \<notin> set s"
proof -
  let ?t = "TrimSpace p" and ?sp = "split_on (CHR ''/'') (TrimSpace p)"
  have chars: "\<forall>s \<in> set (split_on c t). set s \<subseteq> set t" for c :: char and t
    by (induction t) (auto split: list.splits)
  from assms have "CHR 0x00 \<notin> set ?t" "CHR 0x5C \<notin> set ?t" "filter meaningful ?sp \<noteq> []"
    "q = Join (filter meaningful ?sp) ''/''"
    by (auto simp: normalize_spec_def Let_def split: if_splits)
  then show thesis
    using that [of "filter meaningful ?sp"] chars [of "CHR ''/''" ?t]
      split_on_no_sep [of "CHR ''/''" ?t] by fastforce
qed

lemma set_Join: "set (Join xs sep) \<subseteq> \<Union> (set ` set xs) \<union> set sep"
  by (induction xs sep rule: Join.induct) auto

lemma hd_Join: "xs \<noteq> [] \<Longrightarrow> hd xs \<noteq> [] \<Longrightarrow> hd (Join xs sep) = hd (hd xs)"
  by (induction xs sep rule: Join.induct) auto

lemma Join_nonempty: "xs \<noteq> [] \<Longrightarrow> hd xs \<noteq> [] \<Longrightarrow> Join xs sep \<noteq> []"
  by (induction xs sep rule: Join.induct) auto

lemma path_Clean_Join:
  assumes "segs \<noteq> []" "\<forall>s \<in> set segs. s \<noteq> [] \<and> s \<noteq> ''.'' \<and> s \<noteq> ''..'' \<and> CHR ''/'' \<notin> set s"
  shows "path_Clean (Join segs ''/'') = Join segs ''/''"
proof -
  have hd: "hd segs \<noteq> []" "hd (hd segs) \<noteq> CHR ''/''"
    using assms hd_in_set [of segs] hd_in_set [of "hd segs"] by metis+
  have sp: "split_on (CHR ''/'') (Join segs ''/'') = segs"
    by (rule split_on_Join) (use assms in simp_all)
  have "clean_comps r segs [] = segs" for r
    using assms by (subst clean_comps_no_dotdot) (auto simp: filter_id_conv)
  moreover have "Join segs ''/'' \<noteq> []" "hd (Join segs ''/'') \<noteq> CHR ''/''"
    using assms(1) hd by (simp_all add: Join_nonempty hd_Join)
  ultimately show ?thesis by (simp add: path_Clean_def sp)
qed

lemma ValidatePath_Join:
  assumes "segs \<noteq> []" "\<forall>s \<in> set segs. s \<noteq> [] \<and> s \<noteq> ''.'' \<and> s \<noteq> ''..'' \<and> CHR ''/'' \<notin> set s"
    "\<forall>s \<in> set segs. CHR 0x5C \<notin> set s"
  shows "ValidatePath (Join segs ''/'') = None"
proof -
  let ?q = "Join segs ''/''"
  have sp: "split_on (CHR ''/'') ?q = segs" using split_on_Join [of segs "CHR ''/''"] assms by simp
  have "hd segs \<noteq> []" "hd (hd segs) \<noteq> CHR ''/''"
    using assms hd_in_set [of segs] hd_in_set [of "hd segs"] by metis+
  then have "?q \<noteq> []" "hd ?q \<noteq> CHR ''/''" using assms(1) by (simp_all add: Join_nonempty hd_Join)
  then have "\<not> prefix ''/'' ?q" by (cases ?q) auto
  moreover have "?q \<noteq> ''.''" "?q \<noteq> ''..''"
  proof -
    have "split_on (CHR ''/'') ''.'' = [''.'']" "split_on (CHR ''/'') ''..'' = [''..'']" by simp_all
    then show "?q \<noteq> ''.''" "?q \<noteq> ''..''" using sp assms(2) by (metis list.set_intros(1))+
  qed
  moreover have "\<not> prefix ''../'' ?q"
  proof
    assume "prefix ''../'' ?q"
    then obtain r where "?q = ''..'' @ CHR ''/'' # r" by (auto simp: prefix_def)
    then have "split_on (CHR ''/'') ?q = ''..'' # split_on (CHR ''/'') r"
      using split_on_append_sep [of "CHR ''/''" "''..''" r] by simp
    with sp have "''..'' \<in> set segs" by (metis list.set_intros(1))
    with assms(2) show False by blast
  qed
  moreover have "CHR 0x5C \<notin> set ?q" using set_Join [of segs "''/''"] assms(3) by auto
  ultimately show ?thesis using path_Clean_Join [OF assms(1,2)] by (simp add: ValidatePath_def)
qed

text \<open>
  A non-empty result of \<open>NormalizeVirtualPath\<close> is a relative path already in clean form:
  it is the join of segments none of which is empty, dot, dot-dot or blank, it has no NUL and
  no backslash, \<open>path.Clean\<close> leaves it alone, and \<open>ValidatePath\<close> accepts it.
\<close>

theorem NormalizeVirtualPath_safe:
  assumes "NormalizeVirtualPath p = Inr q" "q \<noteq> []"
  shows "list_all meaningful (split_on (CHR ''/'') q) \<and> CHR 0x00 \<notin> set q \<and> CHR 0x5C \<notin> set q \<and>
    path_Clean q = q \<and> ValidatePath q = None"
proof -
  from assms obtain segs where segs: "segs \<noteq> []" "q = Join segs ''/''" "\<forall>s \<in> set segs. meaningful s"
    "\<forall>s \<in> set segs. CHR ''/'' \<notin> set s \<and> CHR 0x00 \<notin> set s \<and> CHR 0x5C \<notin> set s"
    unfolding NormalizeVirtualPath_eq by (rule normalize_spec_ok)
  have cl: "\<forall>s \<in> set segs. s \<noteq> [] \<and> s \<noteq> ''.'' \<and> s \<noteq> ''..'' \<and> CHR ''/'' \<notin> set s"
    using segs by (auto simp: meaningful_def)
  have "split_on (CHR ''/'') q = segs" using segs split_on_Join [of segs "CHR ''/''"] by simp
  moreover have "CHR 0x00 \<notin> set q" "CHR 0x5C \<notin> set q"
    using set_Join [of segs "''/''"] segs(2,4) by auto
  ultimately show ?thesis
    using segs path_Clean_Join [OF segs(1) cl] ValidatePath_Join [OF segs(1) cl]
    by (auto simp: list_all_iff)
qed

section \<open>Names that stay below their directory\<close>

text \<open>
  Where a name leads: \<open>walk\<close> follows its components from a directory, given innermost
  component first, as the file system does for names without symbolic links.
\<close>

fun walk :: "string list \<Rightarrow> string list \<Rightarrow> string list" where
  "walk dir [] = dir"
| "walk dir (c # cs) =
     (if c = [] \<or> c = ''.'' then walk dir cs
      else if c = ''..'' then walk (tl dir) cs
      else walk (c # dir) cs)"

lemma clean_comps_bottom:
  "stack \<noteq> [] \<Longrightarrow> last stack = ''..'' \<Longrightarrow> clean_comps False cs stack \<noteq> [] \<and>
     hd (clean_comps False cs stack) = ''..''"
proof (induction cs arbitrary: stack)
  case Nil
  then show ?case by (simp add: hd_rev)
next
  case (Cons c cs)
  obtain t ts where st: "stack = t # ts" using Cons.prems by (cases stack) auto
  show ?case
  proof (cases "c = ''..'' \<and> t \<noteq> ''..''")
    case True
    with Cons.prems st have "ts \<noteq> []" by auto
    with True Cons.prems st show ?thesis by (simp add: Cons.IH)
  next
    case False
    with Cons.prems st show ?thesis by (auto intro!: Cons.IH)
  qed
qed

lemma clean_comps_walk:
  assumes "''..'' \<notin> set stack" "clean_comps False cs stack = [] \<or> hd (clean_comps False cs stack) \<noteq> ''..''"
  shows "(\<forall>k. \<exists>below. walk (stack @ dir) (take k cs) = below @ dir) \<and>
    walk (stack @ dir) cs = rev (clean_comps False cs stack) @ dir"
  using assms
proof (induction cs arbitrary: stack)
  case Nil
  then show ?case by simp
next
  case (Cons c cs)
  have step: ?case if "''..'' \<notin> set st'" "clean_comps False (c # cs) stack = clean_comps False cs st'"
      "\<And>xs. walk (stack @ dir) (c # xs) = walk (st' @ dir) xs" for st'
  proof -
    note IH = Cons.IH [OF that(1) Cons.prems(2) [unfolded that(2)]]
    have "\<exists>below. walk (stack @ dir) (take k (c # cs)) = below @ dir" for k
      by (cases k) (auto simp: that(3) IH simp del: walk.simps(2))
    with IH show ?thesis unfolding that(2,3) by blast
  qed
  consider "c = [] \<or> c = ''.''" | t ts where "c = ''..''" "stack = t # ts" "t \<noteq> ''..''"
    | "c = ''..''" "stack = []" | "c \<noteq> []" "c \<noteq> ''.''" "c \<noteq> ''..''"
    using Cons.prems(1) by (cases stack) auto
  then show ?case
  proof cases
    case 1
    then show ?thesis by (intro step [of stack] Cons.prems) auto
  next
    case 2
    then show ?thesis using Cons.prems(1) by (intro step [of ts]) auto
  next
    case 3
    then show ?thesis using Cons.prems(2) clean_comps_bottom [of "[''..'']" cs] by auto
  next
    case 4
    then show ?thesis using Cons.prems(1) by (intro step [of "c # stack"]) auto
  qed
qed

lemma ValidatePath_comps:
  assumes "ValidatePath name = None"
  defines "cs \<equiv> clean_comps False (split_on (CHR ''/'') name) []"
  shows "cs \<noteq> [] \<and> hd cs \<noteq> ''..''"
proof -
  let ?c = "path_Clean name"
  from assms(1) have v: "?c \<noteq> ''.''" "?c \<noteq> ''..''" "\<not> prefix ''../'' ?c" "\<not> prefix ''/'' ?c"
    by (auto simp: ValidatePath_def Let_def split: if_splits)
  have rel: "name = [] \<or> hd name \<noteq> CHR ''/''" using v(4) by (auto simp: path_Clean_def Let_def)
  then have c: "?c = (if Join cs ''/'' = [] then ''.'' else Join cs ''/'')"
    by (auto simp: path_Clean_def Let_def cs_def)
  with v(1) have "cs \<noteq> []" by (auto split: if_splits)
  moreover have "hd cs \<noteq> ''..''"
  proof
    assume "hd cs = ''..''"
    with \<open>cs \<noteq> []\<close> obtain xs where "cs = ''..'' # xs" by (cases cs) auto
    with c v(2,3) show False by (cases xs) (auto simp: prefix_def)
  qed
  ultimately show ?thesis by simp
qed

text \<open>
  C35: a name \<open>ValidatePath\<close> accepts never leaves the directory it is used in: after every
  prefix of its components the walk is still at or below that directory, and it ends strictly
  below it.
\<close>

theorem ValidatePath_confined:
  assumes "ValidatePath name = None"
  shows "(\<forall>k. \<exists>below. walk dir (take k (split_on (CHR ''/'') name)) = below @ dir) \<and>
    (\<exists>below. below \<noteq> [] \<and> walk dir (split_on (CHR ''/'') name) = below @ dir)"
  using clean_comps_walk [of "[]" "split_on (CHR ''/'') name" dir] ValidatePath_comps [OF assms]
  by auto

theorem ValidatePath_confined_witness:
  "ValidatePath ''a/../b'' = None \<and>
   (\<exists>below. below \<noteq> [] \<and> walk [''momo'', ''srv''] (split_on (CHR ''/'') ''a/../b'') = below @ [''momo'', ''srv''])"
proof -
  have "ValidatePath ''a/../b'' = None" by (simp add: ValidatePath_def path_Clean_def Let_def)
  then show ?thesis using ValidatePath_confined [of "''a/../b''" "[''momo'', ''srv'']"] by blast
qed

lemma strip_left_stop: "\<forall>sp \<in> set sps. \<not> prefix sp s \<Longrightarrow> strip_left sps s = s"
  by (subst strip_left.simps) (auto simp: find_Some_iff split: option.splits)

lemma TrimSpace_id:
  "list_all (\<lambda>sp. \<not> prefix sp s \<and> \<not> prefix (rev sp) (rev s)) space_runes \<Longrightarrow> TrimSpace s = s"
  by (simp add: TrimSpace_def strip_left_stop list_all_iff)

theorem NormalizeVirtualPath_safe_witness:
  "NormalizeVirtualPath ''/a/./b'' = Inr ''a/b'' \<and> ValidatePath ''a/b'' = None"
proof -
  have "TrimSpace ''/a/./b'' = ''/a/./b''" "TrimSpace ''a'' = ''a''" "TrimSpace ''b'' = ''b''"
    by (rule TrimSpace_id; simp add: space_runes_def)+
  then have "NormalizeVirtualPath ''/a/./b'' = Inr ''a/b''"
    by (simp add: NormalizeVirtualPath_eq normalize_spec_def meaningful_def)
  then show ?thesis using NormalizeVirtualPath_safe [of "''/a/./b''" "''a/b''"] by simp
qed

end
