(* ===== verification/Hashing.thy ===== *)
theory Hashing
  imports Momo_Prelude
begin

text \<open>
  The digests the sources use: SHA-256 and CRC-32 of Go's standard library, hexadecimal
  encoding (\<^verbatim>\<open>encoding/hex\<close>), and the helpers of \<^verbatim>\<open>src/src/common/hash.go\<close>. The incremental
  interface (\<^verbatim>\<open>hash.Hash.Write\<close>, then \<^verbatim>\<open>Sum\<close>) is the digest of the bytes written so far.
\<close>

unbundle bit_operations_syntax

section \<open>SHA-256\<close>

type_synonym word32 = "32 word"

definition rotr :: "nat \<Rightarrow> word32 \<Rightarrow> word32" where
  "rotr n w = drop_bit n w OR push_bit (32 - n) w"

definition sha_K :: "word32 list" where
  "sha_K = [
     0x428A2F98, 0x71374491, 0xB5C0FBCF, 0xE9B5DBA5, 0x3956C25B, 0x59F111F1, 0x923F82A4, 0xAB1C5ED5,
     0xD807AA98, 0x12835B01, 0x243185BE, 0x550C7DC3, 0x72BE5D74, 0x80DEB1FE, 0x9BDC06A7, 0xC19BF174,
     0xE49B69C1, 0xEFBE4786, 0x0FC19DC6, 0x240CA1CC, 0x2DE92C6F, 0x4A7484AA, 0x5CB0A9DC, 0x76F988DA,
     0x983E5152, 0xA831C66D, 0xB00327C8, 0xBF597FC7, 0xC6E00BF3, 0xD5A79147, 0x06CA6351, 0x14292967,
     0x27B70A85, 0x2E1B2138, 0x4D2C6DFC, 0x53380D13, 0x650A7354, 0x766A0ABB, 0x81C2C92E, 0x92722C85,
     0xA2BFE8A1, 0xA81A664B, 0xC24B8B70, 0xC76C51A3, 0xD192E819, 0xD6990624, 0xF40E3585, 0x106AA070,
     0x19A4C116, 0x1E376C08, 0x2748774C, 0x34B0BCB5, 0x391C0CB3, 0x4ED8AA4A, 0x5B9CCA4F, 0x682E6FF3,
     0x748F82EE, 0x78A5636F, 0x84C87814, 0x8CC70208, 0x90BEFFFA, 0xA4506CEB, 0xBEF9A3F7, 0xC67178F2]"

type_synonym sha_state = "word32 \<times> word32 \<times> word32 \<times> word32 \<times> word32 \<times> word32 \<times> word32 \<times> word32"

definition sha_init :: sha_state where
  "sha_init = (0x6A09E667, 0xBB67AE85, 0x3C6EF372, 0xA54FF53A,
     0x510E527F, 0x9B05688C, 0x1F83D9AB, 0x5BE0CD19)"

definition sha_pad :: "bytes \<Rightarrow> bytes" where
  "sha_pad m = m @ [0x80] @ replicate ((119 - length m mod 64) mod 64) 0
     @ put_be 8 (8 * length m)"

primrec sha_extend :: "nat \<Rightarrow> word32 list \<Rightarrow> word32 list" where
  "sha_extend 0 ws = ws"
| "sha_extend (Suc n) ws =
     (let t = length ws;
          a = ws ! (t - 15); b = ws ! (t - 2);
          s0 = rotr 7 a XOR rotr 18 a XOR drop_bit 3 a;
          s1 = rotr 17 b XOR rotr 19 b XOR drop_bit 10 b
      in sha_extend n (ws @ [ws ! (t - 16) + s0 + ws ! (t - 7) + s1]))"

fun sha_round :: "sha_state \<Rightarrow> word32 \<times> word32 \<Rightarrow> sha_state" where
  "sha_round (a, b, c, d, e, f, g, h) (k, w) =
     (let s1 = rotr 6 e XOR rotr 11 e XOR rotr 25 e;
          ch = (e AND f) XOR (NOT e AND g);
          t1 = h + s1 + ch + k + w;
          s0 = rotr 2 a XOR rotr 13 a XOR rotr 22 a;
          maj = (a AND b) XOR (a AND c) XOR (b AND c)
      in (t1 + (s0 + maj), a, b, c, d + t1, e, f, g))"

fun chunks :: "nat \<Rightarrow> nat \<Rightarrow> 'a list \<Rightarrow> 'a list list" where
  "chunks 0 k xs = []"
| "chunks (Suc n) k xs = take k xs # chunks n k (drop k xs)"

fun sha_add :: "sha_state \<Rightarrow> sha_state \<Rightarrow> sha_state" where
  "sha_add (a, b, c, d, e, f, g, h) (a', b', c', d', e', f', g', h') =
     (a + a', b + b', c + c', d + d', e + e', f + f', g + g', h + h')"

definition sha_block :: "sha_state \<Rightarrow> bytes \<Rightarrow> sha_state" where
  "sha_block st blk =
     sha_add st (foldl sha_round st (zip sha_K (sha_extend 48 (map Uint32 (chunks 16 4 blk)))))"

fun sha_out :: "sha_state \<Rightarrow> bytes" where
  "sha_out (a, b, c, d, e, f, g, h) =
     PutUint32 a @ PutUint32 b @ PutUint32 c @ PutUint32 d @
     PutUint32 e @ PutUint32 f @ PutUint32 g @ PutUint32 h"

definition Sum256 :: "bytes \<Rightarrow> bytes" where
  "Sum256 m = (let p = sha_pad m in sha_out (foldl sha_block sha_init (chunks (length p div 64) 64 p)))"

lemma length_Sum256 [simp, codec]: "length (Sum256 m) = 32"
proof -
  have "length (sha_out st) = 32" for st by (induction st rule: sha_out.induct) simp
  then show ?thesis by (simp add: Sum256_def Let_def)
qed

section \<open>CRC-32\<close>

text \<open>\<^verbatim>\<open>hash/crc32\<close> with the reflected IEEE polynomial, byte by byte.\<close>

primrec crc_bits :: "nat \<Rightarrow> word32 \<Rightarrow> word32" where
  "crc_bits 0 c = c"
| "crc_bits (Suc n) c =
     crc_bits n (if bit c 0 then drop_bit 1 c XOR 0xEDB88320 else drop_bit 1 c)"

definition ChecksumIEEE :: "bytes \<Rightarrow> word32" where
  "ChecksumIEEE bs = NOT (foldl (\<lambda>c b. crc_bits 8 (c XOR ucast b)) (NOT 0) bs)"

section \<open>Hexadecimal\<close>

definition hextable :: string where "hextable = ''0123456789abcdef''"

definition hex_byte :: "byte \<Rightarrow> string" where
  "hex_byte b = [hextable ! (unat b div 16), hextable ! (unat b mod 16)]"

definition EncodeToString :: "bytes \<Rightarrow> string" where
  "EncodeToString bs = concat (map hex_byte bs)"

definition fromHexChar :: "char \<Rightarrow> nat option" where
  "fromHexChar c =
     (let n = of_char c :: nat in
      if 48 \<le> n \<and> n \<le> 57 then Some (n - 48)
      else if 97 \<le> n \<and> n \<le> 102 then Some (n - 97 + 10)
      else if 65 \<le> n \<and> n \<le> 70 then Some (n - 65 + 10)
      else None)"

fun DecodeString :: "string \<Rightarrow> bytes option" where
  "DecodeString [] = Some []"
| "DecodeString [c] = None"
| "DecodeString (c # d # s) =
     (case (fromHexChar c, fromHexChar d) of
        (Some h, Some l) \<Rightarrow> map_option ((#) (word_of_nat (16 * h + l))) (DecodeString s)
      | _ \<Rightarrow> None)"

lemma fromHexChar_hextable:
  "n < 16 \<Longrightarrow> fromHexChar (hextable ! n) = Some n"
proof -
  have "\<forall>n \<in> {0..<16}. fromHexChar (hextable ! n) = Some n" by code_simp
  then show "n < 16 \<Longrightarrow> fromHexChar (hextable ! n) = Some n" by simp
qed

lemma Decode_Encode [codec]: "DecodeString (EncodeToString bs) = Some bs"
proof (induction bs)
  case Nil
  then show ?case by (simp add: EncodeToString_def)
next
  case (Cons b bs)
  have b: "unat b < 256" using unsigned_less [of b, where 'a = nat] by simp
  have "16 * (unat b div 16) + unat b mod 16 = unat b" by (simp add: mult.commute)
  then have "(word_of_nat (16 * (unat b div 16) + unat b mod 16) :: byte) = b"
    by (simp only: of_nat_unat ucast_id)
  with Cons b show ?case
    by (simp add: EncodeToString_def hex_byte_def fromHexChar_hextable)
qed

lemma length_EncodeToString [simp, codec]: "length (EncodeToString bs) = 2 * length bs"
  by (induction bs) (simp_all add: EncodeToString_def hex_byte_def)

lemma EncodeToString_inject [simp]: "EncodeToString a = EncodeToString b \<longleftrightarrow> a = b"
  by (metis Decode_Encode option.inject)

lemma set_EncodeToString: "set (EncodeToString bs) \<subseteq> set hextable"
proof -
  have "set (hex_byte b) \<subseteq> set hextable" for b
  proof -
    have "length hextable = 16" by (simp add: hextable_def)
    with unsigned_less [of b, where 'a = nat] show ?thesis
      by (simp add: hex_byte_def less_mult_imp_div_less)
  qed
  then show ?thesis by (auto simp: EncodeToString_def)
qed

section \<open>hash.go\<close>

definition HashBytes :: "bytes \<Rightarrow> string" where
  "HashBytes data = EncodeToString (Sum256 data)"

text \<open>
  A stream (\<^verbatim>\<open>io.Reader\<close>) is the chunks its successive reads return, and how it ends: at
  end of file (\<open>None\<close>) or with an error.
\<close>

type_synonym stream = "bytes list \<times> err option"

fun hash_loop :: "bytes list \<Rightarrow> err option \<Rightarrow> bytes \<Rightarrow> bytes res" where
  "hash_loop [] None h = Inr h"
| "hash_loop [] (Some e) h = Inl e"
| "hash_loop (c # cs) e h = hash_loop cs e (if length c > 0 then h @ c else h)"

definition HashReader :: "stream \<Rightarrow> string res" where
  "HashReader r = res_bind (hash_loop (fst r) (snd r) []) (\<lambda>h. Inr (EncodeToString (Sum256 h)))"

definition HashFile :: "(string \<Rightarrow> stream res) \<Rightarrow> string \<Rightarrow> string res" where
  "HashFile open_file filePath =
     res_bind (open_file filePath) (\<lambda>file.
       res_bind (hash_loop (fst file) (snd file) []) (\<lambda>h. Inr (EncodeToString (Sum256 h))))"

lemma hash_loop_eq: "hash_loop cs e h = (case e of None \<Rightarrow> Inr (h @ concat cs) | Some x \<Rightarrow> Inl x)"
  by (induction cs e h rule: hash_loop.induct) (auto split: option.splits)

lemma HashReader_eq:
  "HashReader r = (case snd r of None \<Rightarrow> Inr (HashBytes (concat (fst r))) | Some e \<Rightarrow> Inl e)"
  by (simp add: HashReader_def hash_loop_eq HashBytes_def split: option.splits)

lemma length_HashBytes [simp]: "length (HashBytes d) = 64"
  by (simp add: HashBytes_def)

lemma HashBytes_decode: "DecodeString (HashBytes d) = Some (Sum256 d)"
  by (simp add: HashBytes_def Decode_Encode)

end
