(* ===== verification/Checksum.thy ===== *)
theory Checksum
  imports Hashing
begin

text \<open>
  The additive checksums of \<^verbatim>\<open>src/src/common/checksum.go\<close>: the set of running digests that the
  ingest and retrieval paths feed, and the verification of a stream against the digests a
  client supplied. SHA-1, CRC-32C and base64 are Go's standard library.
\<close>

unbundle bit_operations_syntax

section \<open>Standard library digests\<close>

definition rotl :: "nat \<Rightarrow> word32 \<Rightarrow> word32" where
  "rotl n w = push_bit n w OR drop_bit (32 - n) w"

primrec sha1_extend :: "nat \<Rightarrow> word32 list \<Rightarrow> word32 list" where
  "sha1_extend 0 ws = ws"
| "sha1_extend (Suc n) ws =
     (let t = length ws in
      sha1_extend n (ws @ [rotl 1 (ws ! (t - 3) XOR ws ! (t - 8) XOR ws ! (t - 14) XOR ws ! (t - 16))]))"

fun sha1_round ::
  "word32 \<times> word32 \<times> word32 \<times> word32 \<times> word32 \<Rightarrow> nat \<times> word32 \<Rightarrow>
   word32 \<times> word32 \<times> word32 \<times> word32 \<times> word32" where
  "sha1_round (a, b, c, d, e) (i, w) =
     (let (f, k) =
        (if i < 20 then ((b AND c) OR (NOT b AND d), 0x5A827999)
         else if i < 40 then (b XOR c XOR d, 0x6ED9EBA1)
         else if i < 60 then ((b AND c) OR (b AND d) OR (c AND d), 0x8F1BBCDC)
         else (b XOR c XOR d, 0xCA62C1D6))
      in (rotl 5 a + f + e + k + w, a, rotl 30 b, c, d))"

definition sha1_block ::
  "word32 \<times> word32 \<times> word32 \<times> word32 \<times> word32 \<Rightarrow> bytes \<Rightarrow>
   word32 \<times> word32 \<times> word32 \<times> word32 \<times> word32" where
  "sha1_block st blk =
     (case (st, foldl sha1_round st (enumerate 0 (sha1_extend 64 (map Uint32 (chunks 16 4 blk))))) of
        ((a, b, c, d, e), (a', b', c', d', e')) \<Rightarrow> (a + a', b + b', c + c', d + d', e + e'))"

definition Sum1 :: "bytes \<Rightarrow> bytes" where
  "Sum1 m =
     (let p = sha_pad m in
      case foldl sha1_block (0x67452301, 0xEFCDAB89, 0x98BADCFE, 0x10325476, 0xC3D2E1F0)
        (chunks (length p div 64) 64 p) of
        (a, b, c, d, e) \<Rightarrow> PutUint32 a @ PutUint32 b @ PutUint32 c @ PutUint32 d @ PutUint32 e)"

primrec crcc_bits :: "nat \<Rightarrow> word32 \<Rightarrow> word32" where
  "crcc_bits 0 c = c"
| "crcc_bits (Suc n) c =
     crcc_bits n (if bit c 0 then drop_bit 1 c XOR 0x82F63B78 else drop_bit 1 c)"

definition ChecksumCastagnoli :: "bytes \<Rightarrow> word32" where
  "ChecksumCastagnoli bs = NOT (foldl (\<lambda>c b. crcc_bits 8 (c XOR ucast b)) (NOT 0) bs)"

definition base64_alphabet :: string where
  "base64_alphabet = ''ABCDEFGHIJKLMNOPQRSTUVWXYZabcdefghijklmnopqrstuvwxyz0123456789+/''"

fun base64 :: "bytes \<Rightarrow> string" where
  "base64 [] = []"
| "base64 [a] = (let v = unat a * 16 in
     [base64_alphabet ! (v div 64), base64_alphabet ! (v mod 64), CHR ''='', CHR ''=''])"
| "base64 [a, b] = (let v = (unat a * 256 + unat b) * 4 in
     [base64_alphabet ! (v div 4096), base64_alphabet ! (v div 64 mod 64),
      base64_alphabet ! (v mod 64), CHR ''=''])"
| "base64 (a # b # c # bs) = (let v = (unat a * 256 + unat b) * 256 + unat c in
     [base64_alphabet ! (v div 262144), base64_alphabet ! (v div 4096 mod 64),
      base64_alphabet ! (v div 64 mod 64), base64_alphabet ! (v mod 64)] @ base64 bs)"

section \<open>Checksum sets\<close>

record ChecksumRef =
  Algorithm :: string
  Value :: string

text \<open>A hasher is the digest function of its algorithm applied to what was written to it.\<close>

definition ChecksumHasher :: "string \<Rightarrow> (bytes \<Rightarrow> bytes) option" where
  "ChecksumHasher algo =
     (if algo = ''crc32c'' then Some (\<lambda>d. PutUint32 (ChecksumCastagnoli d))
      else if algo = ''crc32'' then Some (\<lambda>d. PutUint32 (ChecksumIEEE d))
      else if algo = ''sha1'' then Some Sum1
      else if algo = ''sha256'' then Some Sum256
      else None)"

record ChecksumSet =
  hashers :: "string \<rightharpoonup> (bytes \<Rightarrow> bytes) \<times> bytes"
  order :: "string list"

definition NewChecksumSet :: "string list \<Rightarrow> ChecksumSet" where
  "NewChecksumSet algos =
     foldl (\<lambda>s a. case ChecksumHasher a of
                    Some h \<Rightarrow> \<lparr>hashers = (hashers s)(a \<mapsto> (h, [])), order = order s @ [a]\<rparr>
                  | None \<Rightarrow> s)
       \<lparr>hashers = Map.empty, order = []\<rparr> algos"

definition NewChecksumSetFromRefs :: "ChecksumRef list \<Rightarrow> ChecksumSet" where
  "NewChecksumSetFromRefs refs = NewChecksumSet (map Algorithm refs)"

definition ChecksumSet_Write :: "bytes \<Rightarrow> ChecksumSet \<Rightarrow> ChecksumSet" where
  "ChecksumSet_Write p s =
     s\<lparr>hashers := foldl (\<lambda>hs a. case hs a of
                                  Some (h, w) \<Rightarrow> hs(a \<mapsto> (h, w @ p)) | None \<Rightarrow> hs)
        (hashers s) (order s)\<rparr>"

definition Results :: "ChecksumSet \<Rightarrow> (string \<rightharpoonup> string)" where
  "Results s =
     foldl (\<lambda>out a. case hashers s a of
                      Some (h, w) \<Rightarrow> out(a \<mapsto> base64 (h w)) | None \<Rightarrow> out)
       Map.empty (order s)"

fun Verified_loop :: "(string \<rightharpoonup> string) \<Rightarrow> ChecksumRef list \<Rightarrow> bool" where
  "Verified_loop vals [] = True"
| "Verified_loop vals (cs # rest) =
     (case vals (Algorithm cs) of
        None \<Rightarrow> False
      | Some got \<Rightarrow> if got \<noteq> Value cs then False else Verified_loop vals rest)"

definition Verified :: "ChecksumRef list \<Rightarrow> ChecksumSet \<Rightarrow> bool" where
  "Verified expected s = Verified_loop (Results s) expected"

definition VerifyStream :: "stream \<Rightarrow> ChecksumRef list \<Rightarrow> err option" where
  "VerifyStream r expected =
     (if expected = [] then None
      else let s = NewChecksumSetFromRefs expected in
        if order s = [] then None
        else let s' = foldl (\<lambda>s p. ChecksumSet_Write p s) s (fst r) in
          case snd r of
            Some e \<Rightarrow> Some (wrap e)
          | None \<Rightarrow> if Verified expected s' then None else Some ChecksumMismatch)"

section \<open>What verification decides\<close>

lemma NewChecksumSet_snoc:
  "NewChecksumSet (as @ [a]) =
     (case ChecksumHasher a of
        Some h \<Rightarrow> \<lparr>hashers = (hashers (NewChecksumSet as))(a \<mapsto> (h, [])),
                   order = order (NewChecksumSet as) @ [a]\<rparr>
      | None \<Rightarrow> NewChecksumSet as)"
  by (simp add: NewChecksumSet_def split: option.split)

lemma NewChecksumSet_fields:
  "order (NewChecksumSet as) = filter (\<lambda>a. ChecksumHasher a \<noteq> None) as \<and>
   hashers (NewChecksumSet as) =
     (\<lambda>a. if a \<in> set as then map_option (\<lambda>h. (h, [])) (ChecksumHasher a) else None)"
proof (induction as rule: rev_induct)
  case Nil
  then show ?case by (simp add: NewChecksumSet_def)
next
  case (snoc a as)
  then show ?case by (auto simp: NewChecksumSet_snoc fun_eq_iff split: option.splits)
qed

text \<open>After a write, each digest has taken the chunk once per occurrence in the order.\<close>

lemma Write_loop:
  "foldl (\<lambda>hs a. case hs a of Some (h, w) \<Rightarrow> hs(a \<mapsto> (h, w @ p)) | None \<Rightarrow> hs) hs as =
     (\<lambda>a. map_option (\<lambda>(h, w). (h, w @ concat (replicate (count_list as a) p))) (hs a))"
proof (induction as arbitrary: hs)
  case Nil
  then show ?case by (auto simp: fun_eq_iff option.map_ident split_def)
next
  case (Cons b as)
  show ?case by (auto simp: Cons fun_eq_iff split: option.splits)
qed

lemma count_list_distinct: "distinct xs \<Longrightarrow> count_list xs a = (if a \<in> set xs then 1 else 0)"
  by (induction xs) auto

lemma Write_distinct:
  assumes "distinct (order s)"
  shows "hashers (ChecksumSet_Write p s) =
    (\<lambda>a. map_option (\<lambda>(h, w). (h, if a \<in> set (order s) then w @ p else w)) (hashers s a))"
  by (auto simp: ChecksumSet_Write_def Write_loop fun_eq_iff count_list_distinct [OF assms])

lemma Write_order [simp]: "order (ChecksumSet_Write p s) = order s"
  by (simp add: ChecksumSet_Write_def)

lemma Write_all:
  assumes "distinct (order s)" "dom (hashers s) = set (order s)"
  shows "order (foldl (\<lambda>s p. ChecksumSet_Write p s) s ps) = order s \<and>
    hashers (foldl (\<lambda>s p. ChecksumSet_Write p s) s ps) =
      (\<lambda>a. map_option (\<lambda>(h, w). (h, w @ concat ps)) (hashers s a))"
  using assms
proof (induction ps arbitrary: s)
  case Nil
  then show ?case by (auto simp: fun_eq_iff option.map_ident split_def)
next
  case (Cons p ps)
  let ?s = "ChecksumSet_Write p s"
  have h: "hashers ?s = (\<lambda>a. map_option (\<lambda>(h, w). (h, w @ p)) (hashers s a))"
  proof
    fix a
    show "hashers ?s a = map_option (\<lambda>(h, w). (h, w @ p)) (hashers s a)"
      using Cons.prems(2) by (cases "hashers s a") (auto simp: Write_distinct [OF Cons.prems(1)] dom_def)
  qed
  then have "dom (hashers ?s) = set (order ?s)" using Cons.prems(2) by (auto simp: dom_def)
  then have "order (foldl (\<lambda>s p. ChecksumSet_Write p s) ?s ps) = order ?s \<and>
    hashers (foldl (\<lambda>s p. ChecksumSet_Write p s) ?s ps) =
      (\<lambda>a. map_option (\<lambda>(h, w). (h, w @ concat ps)) (hashers ?s a))"
    using Cons.prems(1) by (intro Cons.IH) simp_all
  then show ?case by (simp add: h option.map_comp comp_def split_def)
qed

lemma Results_eq:
  "Results s = (\<lambda>a. if a \<in> set (order s) then map_option (\<lambda>(h, w). base64 (h w)) (hashers s a) else None)"
proof -
  have "foldl (\<lambda>out a. case hashers s a of Some (h, w) \<Rightarrow> out(a \<mapsto> base64 (h w)) | None \<Rightarrow> out) m as =
    (\<lambda>a. if a \<in> set as
         then (case hashers s a of Some (h, w) \<Rightarrow> Some (base64 (h w)) | None \<Rightarrow> m a) else m a)" for m as
  proof (induction as arbitrary: m)
    case (Cons b as)
    then show ?case by (auto simp: fun_eq_iff split: option.splits)
  qed simp
  from this [of Map.empty "order s"] show ?thesis
    by (auto simp: Results_def fun_eq_iff split: option.splits)
qed

lemma Verified_iff:
  "Verified expected s \<longleftrightarrow> (\<forall>cs \<in> set expected. Results s (Algorithm cs) = Some (Value cs))"
proof -
  have "Verified_loop vals cs \<longleftrightarrow> (\<forall>c \<in> set cs. vals (Algorithm c) = Some (Value c))" for vals cs
    by (induction cs) (auto split: option.splits)
  then show ?thesis by (simp add: Verified_def)
qed

lemma VerifyStream_distinct:
  assumes "distinct (map Algorithm expected)"
  shows "VerifyStream (ps, None) expected = None \<longleftrightarrow>
    (\<forall>cs \<in> set expected. ChecksumHasher (Algorithm cs) = None) \<or>
    (\<forall>cs \<in> set expected. \<exists>h. ChecksumHasher (Algorithm cs) = Some h \<and> Value cs = base64 (h (concat ps)))"
proof (cases "\<forall>cs \<in> set expected. ChecksumHasher (Algorithm cs) = None")
  case True
  then show ?thesis
    by (auto simp: VerifyStream_def NewChecksumSetFromRefs_def NewChecksumSet_fields Let_def
        filter_empty_conv)
next
  case False
  let ?s = "NewChecksumSetFromRefs expected" and ?as = "map Algorithm expected"
  let ?s' = "foldl (\<lambda>s p. ChecksumSet_Write p s) ?s ps"
  have ord: "order ?s = filter (\<lambda>a. ChecksumHasher a \<noteq> None) ?as"
    and hs: "hashers ?s = (\<lambda>a. if a \<in> set ?as then map_option (\<lambda>h. (h, [])) (ChecksumHasher a) else None)"
    using NewChecksumSet_fields [of ?as] by (simp_all only: NewChecksumSetFromRefs_def)
  have dom: "dom (hashers ?s) = set (order ?s)"
    unfolding ord hs by (auto simp: dom_def split: if_splits)
  have dist: "distinct (order ?s)" unfolding ord using assms by simp
  note all = Write_all [OF dist dom, of ps]
  have "Results ?s' a = (if a \<in> set ?as then map_option (\<lambda>h. base64 (h (concat ps))) (ChecksumHasher a) else None)" for a
    using all by (auto simp: Results_eq ord hs option.map_comp comp_def)
  moreover have "order ?s \<noteq> []" using False by (auto simp: ord filter_empty_conv)
  moreover have "expected \<noteq> []" using False by auto
  ultimately show ?thesis using False
    by (auto simp: VerifyStream_def Let_def Verified_iff image_iff map_option_case split: option.splits)
      (metis option.inject)+
qed

text \<open>
  For refs that name each algorithm once, \<open>VerifyStream\<close> over a stream that ends cleanly
  accepts exactly when no named algorithm is supported, or every named algorithm is supported
  and its reference is the base64 digest of the whole stream, however the reads split it.
\<close>

theorem VerifyStream_accepts:
  assumes "distinct (map Algorithm expected)"
  shows "VerifyStream (ps, None) expected = None \<longleftrightarrow>
    (\<forall>cs \<in> set expected. ChecksumHasher (Algorithm cs) = None) \<or>
    (\<forall>cs \<in> set expected. \<exists>h. ChecksumHasher (Algorithm cs) = Some h \<and> Value cs = base64 (h (concat ps)))"
  by (rule VerifyStream_distinct [OF assms])

theorem VerifyStream_accepts_witness:
  "VerifyStream ([[1, 2], [3]], None)
     [\<lparr>Algorithm = ''sha256'', Value = base64 (Sum256 [1, 2, 3])\<rparr>] = None"
  using VerifyStream_accepts [of "[\<lparr>Algorithm = ''sha256'', Value = base64 (Sum256 [1, 2, 3])\<rparr>]"
      "[[1, 2], [3]]"]
  by (simp add: ChecksumHasher_def)

text \<open>
  An algorithm named twice gets one hasher but two places in the order, so every chunk is
  fed to it twice: two correct references are checked against the digest of the stream with
  each chunk doubled, not against the digest of the stream.
\<close>

theorem VerifyStream_duplicate:
  assumes "ChecksumHasher (Algorithm r) = Some h"
  shows "VerifyStream (ps, None) [r, r] = None \<longleftrightarrow> Value r = base64 (h (concat (map (\<lambda>p. p @ p) ps)))"
proof -
  let ?a = "Algorithm r" and ?W = "foldl (\<lambda>s p. ChecksumSet_Write p s)"
  have loop: "?W \<lparr>hashers = [?a \<mapsto> (h, w)], order = [?a, ?a]\<rparr> ps =
      \<lparr>hashers = [?a \<mapsto> (h, w @ concat (map (\<lambda>p. p @ p) ps))], order = [?a, ?a]\<rparr>" for w
    by (induction ps arbitrary: w) (simp_all add: ChecksumSet_Write_def)
  have "NewChecksumSetFromRefs [r, r] = \<lparr>hashers = [?a \<mapsto> (h, [])], order = [?a, ?a]\<rparr>"
    using assms by (simp add: NewChecksumSetFromRefs_def NewChecksumSet_def)
  with loop [of "[]"] show ?thesis by (auto simp: VerifyStream_def Verified_iff Results_eq Let_def)
qed

theorem VerifyStream_duplicate_witness:
  "VerifyStream ([[1]], None)
     [\<lparr>Algorithm = ''sha256'', Value = base64 (Sum256 [1, 1])\<rparr>,
      \<lparr>Algorithm = ''sha256'', Value = base64 (Sum256 [1, 1])\<rparr>] = None"
  using VerifyStream_duplicate [of "\<lparr>Algorithm = ''sha256'', Value = base64 (Sum256 [1, 1])\<rparr>" Sum256 "[[1]]"]
  by (simp add: ChecksumHasher_def)

end
