(* ===== verification/Crush.thy ===== *)
theory Crush
  imports Hashing
begin

text \<open>
  Replica placement, \<^verbatim>\<open>src/src/common/crush.go\<close>: weighted rendezvous hashing over the nodes
  of the cluster map with spreading over failure domains. The score
  \<^verbatim>\<open>-float64(Weight) / math.Log(v)\<close> is a floating-point expression; it enters as the
  parameter \<open>log_score\<close>, a value of a linear order for a weight and a mantissa.
\<close>

unbundle bit_operations_syntax

section \<open>The model\<close>

text \<open>A \<^verbatim>\<open>*Node\<close>: \<open>nd_ptr\<close> is the identity of the object the pointer refers to.\<close>

record node =
  nd_ptr :: nat
  nd_ID :: int
  nd_Weight :: int
  nd_Addr :: string
  nd_Domain :: string

record ClusterMap =
  Nodes :: "node option list"

definition LE_Uint32 :: "bytes \<Rightarrow> 32 word" where
  "LE_Uint32 bs = Uint32 (rev bs)"

definition LE_PutUint64 :: "64 word \<Rightarrow> bytes" where
  "LE_PutUint64 w = rev (PutUint64 w)"

text \<open>The mantissa; the Go code divides it by \<open>2 ^ 52\<close>.\<close>

definition hashToScoreValue :: "bytes \<Rightarrow> 64 word" where
  "hashToScoreValue digest =
     (let hi = LE_Uint32 (take 4 digest); lo = LE_Uint32 (sub_slice 28 32 digest)
      in push_bit 20 (ucast hi) OR ucast (lo AND (2 ^ 20 - 1)))"

definition node_score :: "(int \<Rightarrow> 64 word \<Rightarrow> 'f) \<Rightarrow> string \<Rightarrow> node \<Rightarrow> 'f :: {linorder, zero}" where
  "node_score log_score objectHash nd =
     (let m = hashToScoreValue (Sum256 (str_bytes objectHash @ LE_PutUint64 (word_of_int (nd_ID nd))))
      in if 0 < m \<and> m < 2 ^ 52 \<and> nd_Weight nd > 0 then log_score (nd_Weight nd) m else 0)"

definition eligible :: "ClusterMap \<Rightarrow> node list" where
  "eligible m = filter (\<lambda>nd. nd_Weight nd > 0) (List.map_filter (\<lambda>node. node) (Nodes m))"

definition domainsConfigured :: "ClusterMap \<Rightarrow> bool" where
  "domainsConfigured m \<longleftrightarrow> list_ex (\<lambda>nd. nd_Domain nd \<noteq> []) (eligible m)"

definition score_lt :: "node \<times> 'f :: linorder \<Rightarrow> node \<times> 'f \<Rightarrow> bool" where
  "score_lt a b \<longleftrightarrow> snd a > snd b"

fun spread_loop :: "nat \<Rightarrow> (node \<times> 'f) list \<Rightarrow> string list \<Rightarrow> nat list \<Rightarrow> node list \<Rightarrow>
    string list \<times> nat list \<times> node list" where
  "spread_loop rf [] used selected res = (used, selected, res)"
| "spread_loop rf ((nd, v) # ss) used selected res =
     (if length res = rf then (used, selected, res)
      else if nd_Domain nd \<in> set used then spread_loop rf ss used selected res
      else spread_loop rf ss (nd_Domain nd # used) (nd_ptr nd # selected) (res @ [nd]))"

fun fill_loop :: "nat \<Rightarrow> (node \<times> 'f) list \<Rightarrow> nat list \<Rightarrow> node list \<Rightarrow> node list" where
  "fill_loop rf [] selected res = res"
| "fill_loop rf ((nd, v) # ss) selected res =
     (if length res = rf then res
      else if nd_ptr nd \<in> set selected then fill_loop rf ss selected res
      else fill_loop rf ss (nd_ptr nd # selected) (res @ [nd]))"

definition Placement ::
  "(int \<Rightarrow> 64 word \<Rightarrow> 'f :: {linorder, zero}) \<Rightarrow> ClusterMap \<Rightarrow> string \<Rightarrow> int \<Rightarrow> node list res" where
  "Placement log_score m objectHash replicationFactor =
     (if Nodes m = [] then Inl (Wrap EINVAL)
      else if replicationFactor \<le> 0 then Inl (Wrap EINVAL)
      else if objectHash = [] then Inl (Wrap EINVAL)
      else let el = eligible m in
        if el = [] then Inl (Wrap EINVAL)
        else let rf = (if replicationFactor > int (length el) then length el else nat replicationFactor);
                 scores = SliceStable score_lt (map (\<lambda>nd. (nd, node_score log_score objectHash nd)) el)
          in if \<not> domainsConfigured m then Inr (map fst (take rf scores))
             else let (used, selected, res) = spread_loop rf scores [] [] [] in
               Inr (if length res < rf then fill_loop rf scores selected res else res))"

section \<open>The mantissa\<close>

lemma hashToScoreValue_unat:
  "unat (hashToScoreValue digest) =
     unat (LE_Uint32 (take 4 digest)) * 2 ^ 20 + unat (LE_Uint32 (sub_slice 28 32 digest)) mod 2 ^ 20"
proof -
  let ?hi = "LE_Uint32 (take 4 digest)" and ?lo = "LE_Uint32 (sub_slice 28 32 digest)"
  have m: "?lo AND (2 ^ 20 - 1) = take_bit 20 ?lo"
    by (simp add: take_bit_eq_mask mask_eq_exp_minus_1)
  have lo: "unat (ucast (?lo AND (2 ^ 20 - 1)) :: 64 word) = unat ?lo mod 2 ^ 20"
    unfolding m by (simp add: unsigned_ucast_eq unsigned_take_bit_eq) (simp add: take_bit_eq_mod)
  have hi: "unat (push_bit 20 (ucast ?hi) :: 64 word) = unat ?hi * 2 ^ 20"
  proof -
    have "unat ?hi < 2 ^ 32" using unsigned_less [of ?hi, where 'a = nat] by simp
    then show ?thesis
      by (simp add: push_bit_eq_mult unat_word_ariths unsigned_ucast_eq take_bit_eq_mod)
  qed
  have "(push_bit 20 (ucast ?hi) :: 64 word) AND ucast (?lo AND (2 ^ 20 - 1)) = 0"
    unfolding m by (rule bit_eqI) (auto simp: bit_simps)
  then have "push_bit 20 (ucast ?hi) OR (ucast (?lo AND (2 ^ 20 - 1)) :: 64 word) =
      push_bit 20 (ucast ?hi) + ucast (?lo AND (2 ^ 20 - 1))"
    by (simp add: disjunctive_add_eq_or)
  moreover have "unat ?hi * 2 ^ 20 + unat ?lo mod 2 ^ 20 < 2 ^ 64"
    using unsigned_less [of ?hi, where 'a = nat] by simp
  ultimately show ?thesis
    unfolding hashToScoreValue_def Let_def
    by (simp add: unat_word_ariths lo [simplified] hi [simplified])
qed

section \<open>Selection as a function of the ranking\<close>

fun firsts :: "string list \<Rightarrow> node list \<Rightarrow> node list" where
  "firsts used [] = []"
| "firsts used (n # ns) =
     (if nd_Domain n \<in> set used then firsts used ns else n # firsts (nd_Domain n # used) ns)"

definition select :: "nat \<Rightarrow> node list \<Rightarrow> node list" where
  "select rf ns =
     (let fs = take rf (firsts [] ns)
      in fs @ take (rf - length fs) (filter (\<lambda>n. nd_ptr n \<notin> nd_ptr ` set fs) ns))"

definition capped :: "int \<Rightarrow> node list \<Rightarrow> nat" where
  "capped rf el = min (nat rf) (length el)"

definition ranking ::
  "(int \<Rightarrow> 64 word \<Rightarrow> 'f :: {linorder, zero}) \<Rightarrow> string \<Rightarrow> node list \<Rightarrow> node list" where
  "ranking log_score h el =
     map fst (SliceStable score_lt (map (\<lambda>nd. (nd, node_score log_score h nd)) el))"

lemma spread_loop_eq:
  "length res \<le> rf \<Longrightarrow> spread_loop rf ss used sel res =
     (let fs = take (rf - length res) (firsts used (map fst ss))
      in (rev (map nd_Domain fs) @ used, rev (map nd_ptr fs) @ sel, res @ fs))"
proof (induction rf ss used sel res rule: spread_loop.induct)
  case (2 rf nd v ss used sel res)
  show ?case
  proof (cases "length res = rf \<or> nd_Domain nd \<in> set used")
    case True
    then show ?thesis using 2 by auto
  next
    case False
    then obtain k where k: "rf - length res = Suc k" "rf - length (res @ [nd]) = k"
      using "2.prems" by (metis Suc_diff_Suc diff_Suc_Suc length_append_singleton le_neq_implies_less)
    then show ?thesis using False 2 by (simp add: Let_def)
  qed
qed simp

lemma fill_loop_eq:
  "length res \<le> rf \<Longrightarrow> distinct (map nd_ptr (map fst ss)) \<Longrightarrow>
     fill_loop rf ss sel res =
       res @ take (rf - length res) (filter (\<lambda>n. nd_ptr n \<notin> set sel) (map fst ss))"
proof (induction rf ss sel res rule: fill_loop.induct)
  case (2 rf nd v ss sel res)
  show ?case
  proof (cases "length res = rf \<or> nd_ptr nd \<in> set sel")
    case True
    then show ?thesis using 2 by auto
  next
    case False
    then obtain k where k: "rf - length res = Suc k" "rf - length (res @ [nd]) = k"
      using "2.prems" by (metis Suc_diff_Suc diff_Suc_Suc length_append_singleton le_neq_implies_less)
    have "filter (\<lambda>n. nd_ptr n \<notin> set (nd_ptr nd # sel)) (map fst ss) =
        filter (\<lambda>n. nd_ptr n \<notin> set sel) (map fst ss)"
      using "2.prems"(2) by (intro filter_cong) (auto simp: image_iff)
    then show ?thesis using False 2 k by simp
  qed
qed simp

lemma firsts_same_domain:
  "\<forall>n \<in> set ns. nd_Domain n \<in> set used \<Longrightarrow> firsts used ns = []"
  by (induction ns) auto

lemma select_one_domain:
  assumes "\<forall>n \<in> set ns. nd_Domain n = []" "distinct (map nd_ptr ns)"
  shows "select rf ns = take rf ns"
proof (cases ns)
  case (Cons n ms)
  have f: "firsts [] ns = [n]" using assms(1) Cons by (simp add: firsts_same_domain)
  have "filter (\<lambda>a. nd_ptr a \<noteq> nd_ptr n) ms = ms"
    using assms(2) Cons by (auto simp: filter_id_conv image_iff)
  then show ?thesis using Cons f by (cases rf) (simp_all add: select_def)
qed (simp add: select_def)

subsection \<open>The ranking\<close>

interpretation score_order: strict_weak_order "score_lt :: node \<times> 'f :: linorder \<Rightarrow> _"
  by unfold_locales (auto simp: score_lt_def)

lemma mset_ranking: "mset (ranking ls h el) = mset el"
proof -
  have "mset (ranking ls h el) = image_mset fst (mset (map (\<lambda>nd. (nd, node_score ls h nd)) el))"
    unfolding ranking_def by (metis mset_SliceStable mset_map)
  then show ?thesis by (simp add: multiset.map_comp comp_def)
qed

lemma set_ranking [simp]: "set (ranking ls h el) = set el"
  and length_ranking [simp]: "length (ranking ls h el) = length el"
  and distinct_ptr_ranking [simp]: "distinct (map nd_ptr (ranking ls h el)) = distinct (map nd_ptr el)"
  using mset_ranking [of ls h el]
  by (metis mset_eq_setD, metis mset_eq_length, metis mset_eq_imp_distinct_iff mset_map)

lemma scores_snd:
  "p \<in> set (SliceStable score_lt (map (\<lambda>nd. (nd, node_score ls h nd)) el)) \<Longrightarrow>
     snd p = node_score ls h (fst p)"
  by auto

lemma ranking_sorted: "sorted_wrt (\<lambda>a b. node_score ls h b \<le> node_score ls h a) (ranking ls h el)"
proof -
  have "sorted_wrt (\<lambda>a b. \<not> score_lt b a) (SliceStable score_lt (map (\<lambda>nd. (nd, node_score ls h nd)) el))"
    by (rule score_order.sorted_SliceStable)
  then show ?thesis unfolding ranking_def sorted_wrt_map
    by (rule sorted_wrt_mono_rel [rotated]) (auto simp: score_lt_def)
qed

lemma ranking_filter: "filter P (ranking ls h el) = ranking ls h (filter P el)"
  by (simp add: ranking_def filter_map score_order.filter_SliceStable comp_def)

lemma Placement_eq:
  assumes "distinct (map nd_ptr (eligible m))"
  shows "Placement ls m h rf =
    (if Nodes m = [] \<or> rf \<le> 0 \<or> h = [] \<or> eligible m = [] then Inl (Wrap EINVAL)
     else Inr (select (capped rf (eligible m)) (ranking ls h (eligible m))))"
proof -
  let ?el = "eligible m"
  let ?ns = "ranking ls h ?el" and ?k = "capped rf ?el"
  let ?ss = "SliceStable score_lt (map (\<lambda>nd. (nd, node_score ls h nd)) ?el)"
  have k: "(if rf > int (length ?el) then length ?el else nat rf) = ?k" by (auto simp: capped_def)
  have ns: "map fst ?ss = ?ns" by (simp add: ranking_def)
  have d: "distinct (map nd_ptr ?ns)" using assms by simp
  have one: "map fst (take ?k ?ss) = select ?k ?ns" if "\<not> domainsConfigured m"
    using that select_one_domain [OF _ d, of ?k]
    by (simp add: domainsConfigured_def list_ex_iff ns flip: take_map)
  have sp: "spread_loop ?k ?ss [] [] [] = (let fs = take ?k (firsts [] ?ns)
      in (rev (map nd_Domain fs), rev (map nd_ptr fs), fs))"
    by (simp add: spread_loop_eq ns Let_def)
  have many: "(let (used, selected, res) = spread_loop ?k ?ss [] [] [] in
      if length res < ?k then fill_loop ?k ?ss selected res else res) = select ?k ?ns"
    using d by (auto simp: sp Let_def fill_loop_eq ns select_def)
  show ?thesis
    unfolding Placement_def Let_def k using one many by (auto simp: split_def Let_def)
qed

section \<open>Properties of a selection\<close>

lemma firsts_subset: "set (firsts used ns) \<subseteq> set ns"
  by (induction used ns rule: firsts.induct) auto

lemma firsts_fresh: "n \<in> set (firsts used ns) \<Longrightarrow> nd_Domain n \<notin> set used"
  by (induction used ns rule: firsts.induct) (auto split: if_splits)

lemma firsts_distinct: "distinct (map nd_Domain (firsts used ns))"
  by (induction used ns rule: firsts.induct) (auto dest: firsts_fresh)

lemma firsts_domains: "nd_Domain ` set (firsts used ns) = nd_Domain ` set ns - set used"
  by (induction used ns rule: firsts.induct) auto

lemma firsts_length: "length (firsts [] ns) = card (nd_Domain ` set ns)"
  using firsts_distinct [of "[]" ns] firsts_domains [of "[]" ns]
  by (metis Diff_empty distinct_card length_map list.set(1) list.set_map)

lemma distinct_ptr_inj: "distinct (map nd_ptr ns) \<Longrightarrow> inj_on nd_ptr (set ns)"
  by (simp add: distinct_map)

lemma select_filter:
  assumes "distinct (map nd_ptr ns)" "set fs \<subseteq> set ns"
  shows "filter (\<lambda>n. nd_ptr n \<notin> nd_ptr ` set fs) ns = filter (\<lambda>n. n \<notin> set fs) ns"
  using distinct_ptr_inj [OF assms(1)] assms(2) by (intro filter_cong) (auto simp: inj_on_def)

lemma select_facts:
  assumes d: "distinct (map nd_ptr ns)" and rf: "rf \<le> length ns"
  shows "set (select rf ns) \<subseteq> set ns" "distinct (select rf ns)" "length (select rf ns) = rf"
proof -
  define fs where "fs = take rf (firsts [] ns)"
  define rest where "rest = filter (\<lambda>n. n \<notin> set fs) ns"
  have sub: "set fs \<subseteq> set ns" using firsts_subset [of "[]" ns] set_take_subset
    by (fastforce simp: fs_def)
  have s: "select rf ns = fs @ take (rf - length fs) rest"
    unfolding select_def Let_def fs_def [symmetric] rest_def by (simp add: select_filter [OF d sub])
  have dn: "distinct ns" using d by (simp add: distinct_map)
  have df: "distinct fs" using firsts_distinct [of "[]" ns] by (simp add: fs_def distinct_map)
  have "length rest = length ns - length fs"
  proof -
    have "length rest = card (set ns - set fs)"
      using dn by (simp add: rest_def distinct_card [symmetric] set_diff_eq)
    also have "\<dots> = length ns - length fs"
      using dn df sub by (simp add: card_Diff_subset distinct_card)
    finally show ?thesis .
  qed
  then show "length (select rf ns) = rf" using rf by (simp add: s fs_def)
  show "set (select rf ns) \<subseteq> set ns" using sub by (auto simp: s rest_def dest: in_set_takeD)
  show "distinct (select rf ns)" using df dn by (auto simp: s rest_def dest: in_set_takeD)
qed

lemma select_domains:
  assumes "distinct (map nd_ptr ns)" "rf \<le> length ns"
  shows "card (nd_Domain ` set (select rf ns)) = min rf (card (nd_Domain ` set ns))"
proof (cases "rf \<le> length (firsts [] ns)")
  case True
  then have "select rf ns = take rf (firsts [] ns)" by (simp add: select_def)
  moreover have "distinct (map nd_Domain (take rf (firsts [] ns)))"
    using firsts_distinct [of "[]" ns] by (metis distinct_take take_map)
  then have "card (set (map nd_Domain (take rf (firsts [] ns)))) = min (length (firsts [] ns)) rf"
    by (subst distinct_card) simp_all
  ultimately show ?thesis using True by (simp add: firsts_length)
next
  case False
  then have "set (firsts [] ns) \<subseteq> set (select rf ns)" by (auto simp: select_def Let_def)
  then have "nd_Domain ` set (select rf ns) = nd_Domain ` set ns"
    using firsts_domains [of "[]" ns] select_facts(1) [OF assms]
    by (metis Diff_empty image_mono list.set(1) subset_antisym)
  with False show ?thesis using firsts_length [of ns] by simp
qed

text \<open>A node that is passed over loses only to better ranked nodes or to new domains.\<close>

lemma firsts_before:
  "ns = as @ x # bs \<Longrightarrow> y \<in> set (firsts used ns) \<Longrightarrow> y \<in> set bs \<Longrightarrow> distinct ns \<Longrightarrow>
     nd_Domain y \<notin> nd_Domain ` set (as @ [x])"
proof (induction used ns arbitrary: as rule: firsts.induct)
  case (2 used n ns)
  show ?case
  proof (cases as)
    case Nil
    with 2 show ?thesis by (auto split: if_splits dest: firsts_fresh)
  next
    case (Cons a as')
    with "2.prems" have y: "y \<noteq> n" "y \<in> set (firsts (if nd_Domain n \<in> set used then used else nd_Domain n # used) ns)"
      by (auto split: if_splits)
    have "nd_Domain y \<notin> nd_Domain ` set (as' @ [x])"
      using 2 Cons y by (auto split: if_splits)
    moreover have "nd_Domain y \<noteq> nd_Domain n"
      using y(2) firsts_fresh by (fastforce split: if_splits)
    ultimately show ?thesis using Cons "2.prems"(1) by auto
  qed
qed simp

lemma firsts_best:
  assumes "sorted_wrt R ns" "distinct ns" "y \<in> set (firsts [] ns)" "z \<in> set ns"
    "nd_Domain z = nd_Domain y" "z \<noteq> y"
  shows "R y z"
proof -
  obtain as bs where ns: "ns = as @ z # bs" using assms(4) by (meson split_list)
  have "y \<in> set as"
    using firsts_before [OF ns assms(3) _ assms(2)] assms firsts_subset [of "[]" ns] ns by auto
  then show ?thesis using assms(1) by (auto simp: ns sorted_wrt_append)
qed

lemma take_before:
  assumes "sorted_wrt R xs" "x \<in> set xs" "x \<notin> set (take k xs)" "y \<in> set (take k xs)"
  shows "R y x"
proof -
  from assms have "x \<in> set (drop k xs)" by (metis Un_iff append_take_drop_id set_append)
  moreover have "sorted_wrt R (take k xs @ drop k xs)" using assms(1) by simp
  ultimately show ?thesis using assms(4) unfolding sorted_wrt_append by blast
qed

lemma select_passed_over:
  assumes d: "distinct (map nd_ptr ns)" and so: "sorted_wrt R ns"
    and x: "x \<in> set ns" "x \<notin> set (select rf ns)" and y: "y \<in> set (select rf ns)"
  shows "R y x \<or> (nd_Domain y \<noteq> nd_Domain x \<and> (\<forall>z \<in> set ns. nd_Domain z = nd_Domain y \<longrightarrow> z = y \<or> R y z))"
proof -
  define fs where "fs = take rf (firsts [] ns)"
  define rest where "rest = filter (\<lambda>n. n \<notin> set fs) ns"
  have sub: "set fs \<subseteq> set ns" using firsts_subset [of "[]" ns] set_take_subset
    by (fastforce simp: fs_def)
  have s: "select rf ns = fs @ take (rf - length fs) rest"
    unfolding select_def Let_def fs_def [symmetric] rest_def by (simp add: select_filter [OF d sub])
  have dn: "distinct ns" using d by (simp add: distinct_map)
  have sr: "sorted_wrt R rest" unfolding rest_def using so by (rule sorted_wrt_filter)
  show ?thesis
  proof (cases "y \<in> set fs")
    case True
    then have "y \<in> set (firsts [] ns)" by (auto simp: fs_def dest: in_set_takeD)
    then show ?thesis using firsts_best [OF so dn] x y by metis
  next
    case False
    with y s have "y \<in> set (take (rf - length fs) rest)" by auto
    moreover have "x \<in> set rest" "x \<notin> set (take (rf - length fs) rest)" using x s by (auto simp: rest_def)
    ultimately show ?thesis using take_before [OF sr] by blast
  qed
qed

subsection \<open>Removing a node\<close>

lemma take_filter_other:
  "distinct xs \<Longrightarrow> x \<notin> set (take k xs) \<Longrightarrow> take k (filter (\<lambda>y. y \<noteq> x) xs) = take k xs"
proof (induction xs arbitrary: k)
  case (Cons a xs)
  show ?case
  proof (cases k)
    case (Suc j)
    with Cons.prems have "a \<noteq> x" by auto
    with Suc Cons show ?thesis by simp
  qed simp
qed simp

lemma firsts_remove:
  "distinct ns \<Longrightarrow> x \<notin> set (take k (firsts used ns)) \<Longrightarrow>
     take k (firsts used (filter (\<lambda>y. y \<noteq> x) ns)) = take k (firsts used ns)"
proof (induction used ns arbitrary: k rule: firsts.induct)
  case (2 used n ns)
  show ?case
  proof (cases "n = x")
    case True
    with "2.prems"(1) have "filter (\<lambda>y. y \<noteq> x) ns = ns" by (auto simp: filter_id_conv)
    with True "2.prems" show ?thesis by (cases k) (auto split: if_splits)
  next
    case False
    show ?thesis
    proof (cases k)
      case (Suc j)
      then show ?thesis using False 2 by (auto split: if_splits)
    qed simp
  qed
qed simp

lemma select_remove:
  assumes d: "distinct (map nd_ptr ns)" and x: "x \<notin> set (select rf ns)"
  shows "select rf (filter (\<lambda>y. y \<noteq> x) ns) = select rf ns"
proof -
  define fs where "fs = take rf (firsts [] ns)"
  define rest where "rest = filter (\<lambda>n. nd_ptr n \<notin> nd_ptr ` set fs) ns"
  have s: "select rf ns = fs @ take (rf - length fs) rest"
    unfolding select_def Let_def fs_def [symmetric] rest_def by simp
  have dn: "distinct ns" using d by (simp add: distinct_map)
  have "take rf (firsts [] (filter (\<lambda>y. y \<noteq> x) ns)) = fs"
    unfolding fs_def by (rule firsts_remove [OF dn]) (use x s in \<open>auto simp: fs_def\<close>)
  moreover have "take (rf - length fs) (filter (\<lambda>n. nd_ptr n \<notin> nd_ptr ` set fs) (filter (\<lambda>y. y \<noteq> x) ns)) =
      take (rf - length fs) rest"
  proof -
    have "filter (\<lambda>n. nd_ptr n \<notin> nd_ptr ` set fs) (filter (\<lambda>y. y \<noteq> x) ns) = filter (\<lambda>y. y \<noteq> x) rest"
      unfolding rest_def filter_filter by (rule filter_cong) auto
    then show ?thesis using take_filter_other [of rest x] dn x s by (simp add: rest_def)
  qed
  ultimately show ?thesis unfolding s by (simp add: select_def)
qed

section \<open>Placement\<close>

lemma set_filter_minus: "card {n \<in> set xs. n \<noteq> x} = (if x \<in> set xs then card (set xs) - 1 else card (set xs))"
proof -
  have "{n \<in> set xs. n \<noteq> x} = set xs - {x}" by auto
  then show ?thesis by simp
qed

lemma map_filter_remove:
  "List.map_filter (\<lambda>n. n) (filter (\<lambda>n. n \<noteq> Some x) ns) = filter (\<lambda>n. n \<noteq> x) (List.map_filter (\<lambda>n. n) ns)"
  by (induction ns) (auto simp: map_filter_simps split: option.splits)

lemma capped_le: "capped rf el \<le> length el"
  by (simp add: capped_def)

lemma Placement_ok:
  assumes "distinct (map nd_ptr (eligible m))" "Placement ls m h rf = Inr ns"
  shows "ns = select (capped rf (eligible m)) (ranking ls h (eligible m))" "Nodes m \<noteq> []" "rf > 0"
    "h \<noteq> []" "eligible m \<noteq> []"
  using assms(2) unfolding Placement_eq [OF assms(1)] by (auto split: if_splits)

text \<open>
  C25: \<open>Placement\<close> fails exactly on an empty map, a non-positive factor, an empty hash or a map
  without a node of positive weight. Otherwise it returns as many nodes as the factor asks for,
  capped by the eligible nodes, all different and all eligible, and they lie in as many failure
  domains as that number of replicas can reach.
\<close>

theorem Placement_spec:
  assumes "distinct (map nd_ptr (eligible m))"
  shows "case Placement ls m h rf of
      Inl e \<Rightarrow> e = Wrap EINVAL \<and> (Nodes m = [] \<or> rf \<le> 0 \<or> h = [] \<or> eligible m = [])
    | Inr ns \<Rightarrow> length ns = min (nat rf) (length (eligible m)) \<and> distinct ns \<and>
        set ns \<subseteq> set (eligible m) \<and> rf > 0 \<and> h \<noteq> [] \<and> ns \<noteq> [] \<and>
        card (nd_Domain ` set ns) = min (length ns) (card (nd_Domain ` set (eligible m)))"
proof (cases "Placement ls m h rf")
  case (Inl e)
  then show ?thesis by (auto simp: Placement_eq [OF assms] split: if_splits)
next
  case (Inr ns)
  let ?ns = "ranking ls h (eligible m)"
  have d: "distinct (map nd_ptr ?ns)" and c: "capped rf (eligible m) \<le> length ?ns"
    using assms by (simp_all add: capped_le)
  note ok = Placement_ok [OF assms Inr]
  have "length ns = capped rf (eligible m)" using select_facts(3) [OF d c] ok(1) by simp
  with ok select_facts(1,2) [OF d c] select_domains [OF d c] Inr show ?thesis
    by (auto simp: capped_def min_def split: if_splits)
qed

text \<open>
  A node is passed over only for a node with at least its score, or for the best node of
  another failure domain.
\<close>

theorem Placement_best:
  assumes "distinct (map nd_ptr (eligible m))" "Placement ls m h rf = Inr ns"
    "x \<in> set (eligible m)" "x \<notin> set ns" "y \<in> set ns"
  shows "node_score ls h x \<le> node_score ls h y \<or>
    (nd_Domain y \<noteq> nd_Domain x \<and>
     (\<forall>z \<in> set (eligible m). nd_Domain z = nd_Domain y \<longrightarrow> node_score ls h z \<le> node_score ls h y))"
proof -
  have d: "distinct (map nd_ptr (ranking ls h (eligible m)))" using assms(1) by simp
  show ?thesis
    using select_passed_over [OF d ranking_sorted, of x "capped rf (eligible m)" y]
      Placement_ok(1) [OF assms(1,2)] assms(3-5) by auto
qed

text \<open>
  C26: minimal movement. Taking a node out of the map that holds no replica of an object leaves
  the placement of the object, and its order, as it was, also when that node was the only one
  with a failure-domain label.
\<close>

theorem Placement_minimal_movement:
  assumes "distinct (map nd_ptr (eligible m))" "Placement ls m h rf = Inr ns" "x \<notin> set ns"
  shows "Placement ls (m\<lparr>Nodes := filter (\<lambda>n. n \<noteq> Some x) (Nodes m)\<rparr>) h rf = Inr ns"
proof -
  let ?m = "m\<lparr>Nodes := filter (\<lambda>n. n \<noteq> Some x) (Nodes m)\<rparr>" and ?el = "eligible m"
  have el: "eligible ?m = filter (\<lambda>n. n \<noteq> x) ?el"
    by (simp add: eligible_def map_filter_remove) (rule filter_cong; auto)
  have d: "distinct (map nd_ptr (ranking ls h ?el))" and c: "capped rf ?el \<le> length (ranking ls h ?el)"
    using assms(1) by (simp_all add: capped_le)
  note ok = Placement_ok [OF assms(1,2)] and f = select_facts [OF d c]
  have len: "length ns = capped rf ?el" using ok(1) f(3) by simp
  have cap: "capped rf (eligible ?m) = capped rf ?el"
  proof (cases "x \<in> set ?el")
    case True
    have "distinct ?el" using assms(1) by (simp add: distinct_map)
    then have "length (eligible ?m) = length ?el - 1"
      using True distinct_card [of "filter (\<lambda>n. n \<noteq> x) ?el"] distinct_card [of ?el]
      by (simp add: el set_filter_minus)
    moreover have "set ns \<subset> set ?el" using True assms(3) ok(1) f(1) by auto
    then have "length ns < length ?el"
      using f(2) ok(1) \<open>distinct ?el\<close> by (metis List.finite_set distinct_card psubset_card_mono)
    ultimately show ?thesis using len by (auto simp: capped_def)
  next
    case False
    then have "filter (\<lambda>n. n \<noteq> x) ?el = ?el" by (auto simp: filter_id_conv)
    then show ?thesis by (simp add: el)
  qed
  have "ns \<noteq> []" using ok len by (auto simp: capped_def min_def split: if_splits)
  moreover have "set ns \<subseteq> set (eligible ?m)" using ok(1) f(1) assms(3) by (auto simp: el)
  ultimately have "eligible ?m \<noteq> []" by auto
  moreover from this have "Nodes ?m \<noteq> []" by (auto simp: eligible_def map_filter_simps)
  moreover have "distinct (map nd_ptr (eligible ?m))"
    using assms(1) by (simp add: el distinct_map_filter)
  ultimately show ?thesis
    using ok select_remove [OF d, of x "capped rf ?el"] assms(3)
    by (simp add: Placement_eq cap) (simp add: el ranking_filter)
qed

text \<open>
  The score mantissa packs the first four and the low 20 bits of the last four bytes of
  the digest without loss, and stays below \<open>2 ^ 52\<close>, where 64-bit floats are exact.
\<close>

theorem hashToScoreValue_exact:
  "unat (hashToScoreValue digest) =
     unat (LE_Uint32 (take 4 digest)) * 2 ^ 20 + unat (LE_Uint32 (sub_slice 28 32 digest)) mod 2 ^ 20 \<and>
   unat (hashToScoreValue digest) < 2 ^ 52"
  using unsigned_less [of "LE_Uint32 (take 4 digest)", where 'a = nat]
  by (simp add: hashToScoreValue_unat [simplified])

subsection \<open>A cluster of two nodes\<close>

text \<open>The witnesses rank by weight alone, which the placement laws allow.\<close>

definition two_nodes :: ClusterMap where
  "two_nodes = \<lparr>Nodes =
     [Some \<lparr>nd_ptr = 1, nd_ID = 0, nd_Weight = 5, nd_Addr = ''a'', nd_Domain = []\<rparr>, None,
      Some \<lparr>nd_ptr = 2, nd_ID = 1, nd_Weight = 7, nd_Addr = ''b'', nd_Domain = []\<rparr>,
      Some \<lparr>nd_ptr = 3, nd_ID = 2, nd_Weight = 0, nd_Addr = ''c'', nd_Domain = []\<rparr>]\<rparr>"

lemma two_nodes_eligible:
  "eligible two_nodes =
     [\<lparr>nd_ptr = 1, nd_ID = 0, nd_Weight = 5, nd_Addr = ''a'', nd_Domain = []\<rparr>,
      \<lparr>nd_ptr = 2, nd_ID = 1, nd_Weight = 7, nd_Addr = ''b'', nd_Domain = []\<rparr>]"
  by (simp add: two_nodes_def eligible_def map_filter_simps)

lemma two_nodes_top:
  "Placement (\<lambda>w m. 0 :: int) two_nodes ''h'' 1 =
     Inr [\<lparr>nd_ptr = 1, nd_ID = 0, nd_Weight = 5, nd_Addr = ''a'', nd_Domain = []\<rparr>]"
  by (simp add: Placement_eq two_nodes_eligible capped_def ranking_def node_score_def Let_def
      score_lt_def select_def) (simp add: two_nodes_def)

theorem Placement_spec_witness:
  "length (projr (Placement (\<lambda>w m. 0 :: int) two_nodes ''h'' 1)) = 1"
  using Placement_spec [where m = two_nodes and ls = "\<lambda>w m. 0 :: int" and h = "''h''" and rf = 1]
  by (simp add: two_nodes_top two_nodes_eligible)

theorem Placement_best_witness:
  "\<exists>ns. Placement (\<lambda>w m. 0 :: int) two_nodes ''h'' 1 = Inr ns \<and>
     (\<forall>y \<in> set ns. node_score (\<lambda>w m. 0 :: int) ''h'' (eligible two_nodes ! 1) \<le>
        node_score (\<lambda>w m. 0 :: int) ''h'' y \<or>
      nd_Domain y \<noteq> nd_Domain (eligible two_nodes ! 1))"
  using Placement_best [of two_nodes "\<lambda>w m. 0 :: int" "''h''" 1, OF _ two_nodes_top,
      of "eligible two_nodes ! 1" "eligible two_nodes ! 0"]
  by (simp add: two_nodes_top two_nodes_eligible)

theorem Placement_minimal_movement_witness:
  "Placement (\<lambda>w m. 0 :: int)
     (two_nodes\<lparr>Nodes := filter (\<lambda>n. n \<noteq> Some (eligible two_nodes ! 1)) (Nodes two_nodes)\<rparr>) ''h'' 1 =
   Placement (\<lambda>w m. 0 :: int) two_nodes ''h'' 1"
  using Placement_minimal_movement [of two_nodes "\<lambda>w m. 0 :: int" "''h''" 1, OF _ two_nodes_top,
      of "eligible two_nodes ! 1"]
  by (simp add: two_nodes_top two_nodes_eligible)

end
