(* ===== verification/Object_Meta.thy ===== *)
theory Object_Meta
  imports Wire_Strings
begin

text \<open>
  The record of the objects bucket and its binary format, \<^verbatim>\<open>src/src/storage/storage.go\<close>
  (\<^verbatim>\<open>ObjectMeta\<close>, \<^verbatim>\<open>encode\<close>, \<^verbatim>\<open>decodeObjectMeta\<close>): the current format, the 24-byte binary format
  and the decimal format of earlier versions.
\<close>

record ObjectMeta =
  Size :: "64 word"
  RefCount :: "64 word"
  DeletedAt :: "64 word"
  VectorClock :: "64 word list"
  ShardKey :: string
  MetadataReplicas :: "32 word list"

definition encode :: "ObjectMeta \<Rightarrow> bytes" where
  "encode m =
     (let buf = PutUint64 (Size m) @ PutUint64 (RefCount m) @ PutUint64 (DeletedAt m);
          vcBuf = PutUint32 (word_of_nat (length (VectorClock m))) @ concat (map PutUint64 (VectorClock m));
          skBytes = str_bytes (ShardKey m);
          skLen = length skBytes;
          skBuf = PutUint32 (word_of_nat skLen) @ replicate skLen 0;
          mrBuf = PutUint32 (word_of_nat (length (MetadataReplicas m)))
            @ concat (map PutUint32 (MetadataReplicas m))
      in buf @ vcBuf @ skBuf @ skBytes @ mrBuf)"

text \<open>\<^verbatim>\<open>strconv.ParseInt(s, 10, 64)\<close>.\<close>

definition ParseInt :: "bytes \<Rightarrow> 64 word option" where
  "ParseInt s =
     (case decimal_int s of
        Some z \<Rightarrow> if - (2 ^ 63) \<le> z \<and> z < 2 ^ 63 then Some (word_of_int z) else None
      | None \<Rightarrow> None)"

fun read_u64s :: "nat \<Rightarrow> nat \<Rightarrow> bytes \<Rightarrow> 64 word list" where
  "read_u64s 0 off v = []"
| "read_u64s (Suc n) off v = Uint64 (sub_slice off (off + 8) v) # read_u64s n (off + 8) v"

fun read_u32s :: "nat \<Rightarrow> nat \<Rightarrow> bytes \<Rightarrow> 32 word list" where
  "read_u32s 0 off v = []"
| "read_u32s (Suc n) off v = Uint32 (sub_slice off (off + 4) v) # read_u32s n (off + 4) v"

definition decodeObjectMeta :: "bytes \<Rightarrow> ObjectMeta res" where
  "decodeObjectMeta v =
     (if length v = 24
      then Inr \<lparr>Size = Uint64 (sub_slice 0 8 v), RefCount = Uint64 (sub_slice 8 16 v),
                DeletedAt = Uint64 (sub_slice 16 24 v), VectorClock = [], ShardKey = [],
                MetadataReplicas = []\<rparr>
      else case ParseInt v of
        Some sz \<Rightarrow> Inr \<lparr>Size = sz, RefCount = 1, DeletedAt = 0, VectorClock = [], ShardKey = [],
                          MetadataReplicas = []\<rparr>
      | None \<Rightarrow>
        if length v < 24 then Inl (Wrap EBADMSG)
        else let off = 24 in
        if length v < off + 4 then Inl (Wrap EBADMSG)
        else let vcLen = unat (Uint32 (sub_slice off (off + 4) v)); off = off + 4 in
        if length v < off + 8 * vcLen then Inl (Wrap EBADMSG)
        else let vc = read_u64s vcLen off v; off = off + 8 * vcLen in
        if length v < off + 4 then Inl (Wrap EBADMSG)
        else let skLen = unat (Uint32 (sub_slice off (off + 4) v)); off = off + 4 in
        if length v < off + skLen then Inl (Wrap EBADMSG)
        else let sk = bytes_str (sub_slice off (off + skLen) v); off = off + skLen in
        if length v < off + 4 then Inl (Wrap EBADMSG)
        else let mrLen = unat (Uint32 (sub_slice off (off + 4) v)); off = off + 4 in
        if length v < off + 4 * mrLen then Inl (Wrap EBADMSG)
        else Inr \<lparr>Size = Uint64 (sub_slice 0 8 v), RefCount = Uint64 (sub_slice 8 16 v),
                  DeletedAt = Uint64 (sub_slice 16 24 v), VectorClock = vc, ShardKey = sk,
                  MetadataReplicas = read_u32s mrLen off v\<rparr>)"

section \<open>Fields at offsets\<close>

lemma put_be_zero: "put_be k 0 = replicate k 0"
  by (induction k) (simp_all add: replicate_append_same)

lemma sub_slice_at: "sub_slice (length p) (length p + n) (p @ q @ r) = q" if "length q = n"
  using that by (simp add: sub_slice_def)

lemma read_u64s_at:
  "read_u64s (length ws) (length p) (p @ concat (map PutUint64 ws) @ q) = ws"
proof (induction ws arbitrary: p)
  case (Cons w ws)
  have "read_u64s (length ws) (length (p @ PutUint64 w)) ((p @ PutUint64 w) @ concat (map PutUint64 ws) @ q) = ws"
    by (rule Cons)
  then show ?case
    using sub_slice_at [of "PutUint64 w" 8 p "concat (map PutUint64 ws) @ q"] by simp
qed simp

lemma read_u32s_at:
  "read_u32s (length ws) (length p) (p @ concat (map PutUint32 ws) @ q) = ws"
proof (induction ws arbitrary: p)
  case (Cons w ws)
  have "read_u32s (length ws) (length (p @ PutUint32 w)) ((p @ PutUint32 w) @ concat (map PutUint32 ws) @ q) = ws"
    by (rule Cons)
  then show ?case
    using sub_slice_at [of "PutUint32 w" 4 p "concat (map PutUint32 ws) @ q"] by simp
qed simp

lemma length_concat_PutUint64 [codec]: "length (concat (map PutUint64 ws)) = 8 * length ws"
  by (induction ws) simp_all

lemma length_concat_PutUint32 [codec]: "length (concat (map PutUint32 ws)) = 4 * length ws"
  by (induction ws) simp_all

lemma unat_len32 [simp]: "n < 2 ^ 32 \<Longrightarrow> unat (word_of_nat n :: 32 word) = n"
  by (simp add: unat_of_nat)

lemma decimal_int_no_NUL:
  assumes "decimal_int s = Some z"
  shows "0 \<notin> set s"
proof -
  let ?ds = "if s \<noteq> [] \<and> (hd s = 45 \<or> hd s = 43) then tl s else s"
  have "\<forall>c \<in> set ?ds. is_digit c"
    using assms unfolding decimal_int_def Let_def by (metis option.distinct(1))
  then have ds: "0 \<notin> set ?ds" using is_digit_neq by blast
  show ?thesis
  proof (cases "s \<noteq> [] \<and> (hd s = 45 \<or> hd s = 43)")
    case True
    then obtain c cs where "s = c # cs" by (cases s) auto
    with True ds show ?thesis by auto
  next
    case False
    with ds show ?thesis by (simp only: if_False not_False_eq_True)
  qed
qed

lemma NUL_not_decimal: "0 \<in> set v \<Longrightarrow> ParseInt v = None"
  using decimal_int_no_NUL [of v] by (auto simp: ParseInt_def split: option.splits)

text \<open>Decoding a value laid out field by field.\<close>

lemma decode_layout:
  assumes v: "v = PutUint64 a @ PutUint64 b @ PutUint64 c @ PutUint32 vl @ concat (map PutUint64 vc)
      @ PutUint32 sl @ sk @ PutUint32 rl @ rest"
    and len: "length vc = unat vl" "length sk = unat sl" and nul: "0 \<in> set v"
  shows "decodeObjectMeta v =
    (if length rest < 4 * unat rl then Inl (Wrap EBADMSG)
     else Inr \<lparr>Size = a, RefCount = b, DeletedAt = c, VectorClock = vc, ShardKey = bytes_str sk,
               MetadataReplicas = read_u32s (unat rl) (40 + 8 * unat vl + unat sl - 4) v\<rparr>)"
proof -
  let ?f = "PutUint64 a @ PutUint64 b @ PutUint64 c" and ?vc = "concat (map PutUint64 vc)"
  have lv: "length ?vc = 8 * unat vl" by (simp add: length_concat_PutUint64 len)
  have f: "sub_slice 0 8 v = PutUint64 a" "sub_slice 8 16 v = PutUint64 b" "sub_slice 16 24 v = PutUint64 c"
    using sub_slice_mid [of "[]" 0 "PutUint64 a" 8] sub_slice_mid [of "PutUint64 a" 8 "PutUint64 b" 16]
      sub_slice_mid [of "PutUint64 a @ PutUint64 b" 16 "PutUint64 c" 24] by (simp_all add: v)
  have o1: "sub_slice 24 28 v = PutUint32 vl"
    using sub_slice_mid [of ?f 24 "PutUint32 vl" 28] by (simp add: v)
  have o2: "read_u64s (unat vl) 28 v = vc"
    using read_u64s_at [of vc "?f @ PutUint32 vl" "PutUint32 sl @ sk @ PutUint32 rl @ rest"]
    by (simp add: v len)
  have o3: "sub_slice (28 + 8 * unat vl) (32 + 8 * unat vl) v = PutUint32 sl"
    using sub_slice_mid [of "?f @ PutUint32 vl @ ?vc" "28 + 8 * unat vl" "PutUint32 sl" "32 + 8 * unat vl"] lv
    by (simp add: v)
  have o4: "sub_slice (32 + 8 * unat vl) (unat sl + (32 + 8 * unat vl)) v = sk"
    using sub_slice_mid [of "?f @ PutUint32 vl @ ?vc @ PutUint32 sl" "32 + 8 * unat vl" sk
        "unat sl + (32 + 8 * unat vl)"] lv len by (simp add: v)
  have o5: "sub_slice (unat sl + (32 + 8 * unat vl)) (unat sl + (36 + 8 * unat vl)) v = PutUint32 rl"
    using sub_slice_mid [of "?f @ PutUint32 vl @ ?vc @ PutUint32 sl @ sk" "unat sl + (32 + 8 * unat vl)"
        "PutUint32 rl" "unat sl + (36 + 8 * unat vl)"] lv len by (simp add: v)
  have lenv: "length v = 36 + 8 * unat vl + unat sl + length rest" using lv len by (simp add: v)
  show ?thesis
    using NUL_not_decimal [OF nul]
    by (simp add: decodeObjectMeta_def Let_def f o1 o2 o3 o4 o5 lenv add.commute add.left_commute)
qed

lemma decode_encode:
  assumes "ShardKey m = []" "length (VectorClock m) < 2 ^ 32" "length (MetadataReplicas m) < 2 ^ 32"
  shows "decodeObjectMeta (encode m) = Inr m"
proof -
  let ?vl = "word_of_nat (length (VectorClock m)) :: 32 word"
    and ?rl = "word_of_nat (length (MetadataReplicas m)) :: 32 word"
  let ?p = "PutUint64 (Size m) @ PutUint64 (RefCount m) @ PutUint64 (DeletedAt m) @ PutUint32 ?vl
    @ concat (map PutUint64 (VectorClock m)) @ PutUint32 0 @ [] @ PutUint32 ?rl"
  let ?rest = "concat (map PutUint32 (MetadataReplicas m))"
  have v: "encode m = ?p @ ?rest" using assms(1) by (simp add: encode_def Let_def str_bytes_def)
  have nul: "0 \<in> set (encode m)" by (simp add: v PutUint32_def put_be_zero)
  have "read_u32s (unat ?rl) (length ?p) (?p @ ?rest @ []) = MetadataReplicas m"
    using read_u32s_at [of "MetadataReplicas m" ?p "[]"] assms(3) by simp
  then have "read_u32s (unat ?rl) (36 + 8 * unat ?vl) (encode m) = MetadataReplicas m"
    using assms(2) by (simp add: v length_concat_PutUint64)
  moreover have "decodeObjectMeta (encode m) = (if length ?rest < 4 * unat ?rl then Inl (Wrap EBADMSG)
      else Inr \<lparr>Size = Size m, RefCount = RefCount m, DeletedAt = DeletedAt m, VectorClock = VectorClock m,
        ShardKey = bytes_str [],
        MetadataReplicas = read_u32s (unat ?rl) (40 + 8 * unat ?vl + unat (0 :: 32 word) - 4) (encode m)\<rparr>)"
    by (rule decode_layout) (use assms v nul in simp_all)
  ultimately show ?thesis using assms by (simp add: length_concat_PutUint32 bytes_str_def)
qed

text \<open>
  C38: a record without a shard key, with fewer than \<open>2 ^ 32\<close> clock entries and replicas, is read
  back from its encoding exactly; the encoding is never mistaken for one of the old formats.
\<close>

theorem encode_roundtrip:
  assumes "ShardKey m = []" "length (VectorClock m) < 2 ^ 32" "length (MetadataReplicas m) < 2 ^ 32"
  shows "decodeObjectMeta (encode m) = Inr m"
  using assms by (rule decode_encode)

theorem encode_roundtrip_witness:
  "decodeObjectMeta (encode \<lparr>Size = 5, RefCount = 2, DeletedAt = 0, VectorClock = [7], ShardKey = [],
     MetadataReplicas = [1, 2]\<rparr>) =
   Inr \<lparr>Size = 5, RefCount = 2, DeletedAt = 0, VectorClock = [7], ShardKey = [], MetadataReplicas = [1, 2]\<rparr>"
  by (rule encode_roundtrip) simp_all

text \<open>
  A shard key with a non-zero byte is lost. \<open>encode\<close> reserves room for the key, leaves it
  zero and appends the key after it, so decoding either fails or returns zero bytes as the key.
\<close>

theorem encode_shard_key_lost:
  assumes "CHR 0x00 \<noteq> c" "c \<in> set (ShardKey m)" "length (ShardKey m) < 2 ^ 32"
    "length (VectorClock m) < 2 ^ 32"
  shows "decodeObjectMeta (encode m) \<noteq> Inr m"
proof -
  let ?n = "length (ShardKey m)"
  let ?tail = "str_bytes (ShardKey m) @ PutUint32 (word_of_nat (length (MetadataReplicas m)))
    @ concat (map PutUint32 (MetadataReplicas m))"
  have "length ?tail \<ge> 4" by simp
  then have "PutUint32 (Uint32 (take 4 ?tail)) = take 4 ?tail" by (intro PutUint_Uint(2)) simp
  then obtain rl rest where t: "?tail = PutUint32 rl @ rest"
    using append_take_drop_id [of 4 ?tail] by metis
  let ?vl = "word_of_nat (length (VectorClock m)) :: 32 word" and ?sl = "word_of_nat ?n :: 32 word"
  have v: "encode m = PutUint64 (Size m) @ PutUint64 (RefCount m) @ PutUint64 (DeletedAt m) @ PutUint32 ?vl
      @ concat (map PutUint64 (VectorClock m)) @ PutUint32 ?sl @ replicate ?n 0 @ PutUint32 rl @ rest"
    using t by (simp add: encode_def Let_def)
  have "?n \<noteq> 0" using assms(2) by auto
  then have nul: "0 \<in> set (encode m)" by (simp add: v)
  have "decodeObjectMeta (encode m) = Inl (Wrap EBADMSG) \<or>
      (\<exists>m'. decodeObjectMeta (encode m) = Inr m' \<and> ShardKey m' = bytes_str (replicate ?n 0))"
    by (subst (1 2) decode_layout [OF v _ _ nul]) (use assms in auto)
  moreover have "ShardKey m \<noteq> bytes_str (replicate ?n 0)"
  proof
    assume "ShardKey m = bytes_str (replicate ?n 0)"
    with assms(2) have "c \<in> set (bytes_str (replicate ?n 0))" by simp
    then have "c = char_of (0 :: nat)" by (auto simp: bytes_str_def split: if_splits)
    with assms(1) show False by (simp add: char_of_def)
  qed
  ultimately show ?thesis by auto
qed

theorem encode_shard_key_lost_witness:
  "decodeObjectMeta (encode \<lparr>Size = 5, RefCount = 1, DeletedAt = 0, VectorClock = [], ShardKey = ''s'',
     MetadataReplicas = []\<rparr>) \<noteq>
   Inr \<lparr>Size = 5, RefCount = 1, DeletedAt = 0, VectorClock = [], ShardKey = ''s'', MetadataReplicas = []\<rparr>"
  by (rule encode_shard_key_lost [of "CHR ''s''"]) simp_all

lemma length_dec_nat: "n < 10 ^ k \<Longrightarrow> 0 < k \<Longrightarrow> length (dec_nat n) \<le> k"
proof (induction n arbitrary: k rule: dec_nat.induct)
  case (1 n)
  show ?case
  proof (cases "n < 10")
    case True
    then show ?thesis using 1 by (simp add: dec_nat.simps)
  next
    case False
    then obtain j where k: "k = Suc j" "0 < j" using 1 by (cases k; cases "k - 1") auto
    with 1 False have "n div 10 < 10 ^ j" by (simp add: less_mult_imp_div_less)
    with 1 False k show ?thesis by (subst dec_nat.simps) simp
  qed
qed

lemma length_AppendInt: "length (AppendInt v) \<le> 20"
proof -
  have b: "\<bar>sint v\<bar> \<le> 2 ^ 63" using sint_ge [of v] sint_lt [of v] by simp
  then have "nat \<bar>sint v\<bar> < 10 ^ 19" by simp
  then have "length (dec_nat (nat \<bar>sint v\<bar>)) \<le> 19" by (rule length_dec_nat) simp
  then show ?thesis by (auto simp: AppendInt_def abs_if split: if_splits)
qed

text \<open>
  The two old formats. A 24-byte value is size, reference count and deletion time; the
  decimal digits of a 64-bit size are an object of that size referenced once.
\<close>

theorem decodeObjectMeta_legacy:
  "decodeObjectMeta (PutUint64 a @ PutUint64 b @ PutUint64 c) =
     Inr \<lparr>Size = a, RefCount = b, DeletedAt = c, VectorClock = [], ShardKey = [], MetadataReplicas = []\<rparr> \<and>
   decodeObjectMeta (AppendInt a) =
     Inr \<lparr>Size = a, RefCount = 1, DeletedAt = 0, VectorClock = [], ShardKey = [], MetadataReplicas = []\<rparr>"
proof
  show "decodeObjectMeta (PutUint64 a @ PutUint64 b @ PutUint64 c) =
      Inr \<lparr>Size = a, RefCount = b, DeletedAt = c, VectorClock = [], ShardKey = [], MetadataReplicas = []\<rparr>"
    using sub_slice_mid [of "[]" 0 "PutUint64 a" 8] sub_slice_mid [of "PutUint64 a" 8 "PutUint64 b" 16]
      sub_slice_mid [of "PutUint64 a @ PutUint64 b" 16 "PutUint64 c" 24 "[]"]
    by (simp add: decodeObjectMeta_def)
  have "length (AppendInt a) \<noteq> 24" using length_AppendInt [of a] by simp
  then show "decodeObjectMeta (AppendInt a) =
      Inr \<lparr>Size = a, RefCount = 1, DeletedAt = 0, VectorClock = [], ShardKey = [], MetadataReplicas = []\<rparr>"
    using decimal_int_AppendInt [of a] sint_ge [of a] sint_lt [of a]
    by (simp add: decodeObjectMeta_def ParseInt_def)
qed

end
