(* ===== verification/Store_State.thy ===== *)
theory Store_State
  imports Object_Meta Virtual_Path Checksum
begin

text \<open>
  The state of a store (\<^verbatim>\<open>CASStore\<close> of \<^verbatim>\<open>src/src/storage/storage.go\<close>): the sixteen buckets of its
  metadata database, the documents kept in them (\<^verbatim>\<open>src/src/common/struct.go\<close>, versioning.go,
  objectlock.go, lifecycle.go, notification.go), and the fields of the store object. A
  \<^verbatim>\<open>db.Update\<close> runs its body on the buckets, keeps them as they were when the body returns an
  error, and may also fail to commit, which the caller's environment decides.
\<close>

section \<open>Documents\<close>

record FileMetadata =
  fm_Name :: string
  fm_Hash :: string
  fm_Size :: "64 word"
  fm_RemotePath :: string
  fm_ModTime :: "64 word"
  fm_S3Headers :: "string bucket option"
  fm_Checksums :: "ChecksumRef list"

record TenantConfig =
  tc_ID :: string
  tc_MasterKeyID :: string
  tc_AuthToken :: string
  tc_QuotaBytes :: "64 word"
  tc_QuotaObjects :: "64 word"
  tc_Enabled :: bool

record AuditLogEntry =
  ae_Timestamp :: "64 word"
  ae_TenantID :: string
  ae_Identity :: string
  ae_Operation :: string
  ae_Resource :: string
  ae_Outcome :: string
  ae_RequestID :: string
  ae_PrevHash :: string
  ae_EntryHash :: string

datatype Permission = PermRead | PermWrite | PermAdmin | PermDelete | OtherPermission string

record ACLEntry =
  acl_TenantID :: string
  acl_Permission :: Permission
  acl_Effect :: string

text \<open>\<^verbatim>\<open>BucketACL\<close> and \<^verbatim>\<open>ObjectACL\<close>: a name (bucket or key) and its entries.\<close>

record ACL =
  acl_Name :: string
  acl_Entries :: "ACLEntry list"

record VersionRecord =
  vr_VersionID :: string
  vr_Hash :: string
  vr_Size :: "64 word"
  vr_Timestamp :: "64 word"
  vr_IsLatest :: bool
  vr_IsDeleteMarker :: bool
  vr_Key :: string

record ObjectLockState =
  lk_Mode :: string
  lk_RetainUntil :: int
  lk_LegalHoldOn :: bool

record LifecycleRule =
  lr_ID :: string
  lr_Status :: string
  lr_Prefix :: string
  lr_ExpirationDays :: int
  lr_TransitionDays :: int
  lr_StorageClass :: string

record LifecycleConfig =
  lc_Rules :: "LifecycleRule list"

record NotificationRule =
  nr_ID :: string
  nr_Status :: string
  nr_Events :: "string list"
  nr_Prefix :: string
  nr_Suffix :: string
  nr_QueueARN :: string
  nr_TopicARN :: string
  nr_LambdaARN :: string
  nr_HTTPUrl :: string

record NotificationConfig =
  nc_Rules :: "NotificationRule list"

section \<open>The metadata database\<close>

record metadb =
  bucketObjects :: "bytes bucket"
  bucketNamespace :: "string bucket"
  bucketPaths :: "string bucket"
  bucketModTimes :: "bytes bucket"
  bucketTombstones :: "bytes bucket"
  bucketS3Meta :: "string bucket json bucket"
  bucketQuarantine :: "bytes bucket"
  bucketACL :: "ACL json bucket"
  bucketAuditLog :: "AuditLogEntry json bucket"
  bucketTenantMeta :: "TenantConfig json bucket"
  bucketVersioning :: "string bucket"
  bucketObjectVersions :: "VersionRecord json bucket"
  bucketLifecycle :: "LifecycleConfig json bucket"
  bucketNotification :: "NotificationConfig json bucket"
  bucketObjectLockCfg :: "string bucket"
  bucketLockState :: "ObjectLockState json bucket"

text \<open>\<^verbatim>\<open>initBuckets\<close> on a new database file.\<close>

definition initBuckets :: metadb where
  "initBuckets = \<lparr>bucketObjects = [], bucketNamespace = [], bucketPaths = [], bucketModTimes = [],
     bucketTombstones = [], bucketS3Meta = [], bucketQuarantine = [], bucketACL = [],
     bucketAuditLog = [], bucketTenantMeta = [], bucketVersioning = [], bucketObjectVersions = [],
     bucketLifecycle = [], bucketNotification = [], bucketObjectLockCfg = [], bucketLockState = []\<rparr>"

definition db_inv :: "metadb \<Rightarrow> bool" where
  "db_inv d \<longleftrightarrow> b_inv (bucketObjects d) \<and> b_inv (bucketNamespace d) \<and> b_inv (bucketPaths d) \<and>
     b_inv (bucketModTimes d) \<and> b_inv (bucketTombstones d) \<and> b_inv (bucketS3Meta d) \<and>
     b_inv (bucketQuarantine d) \<and> b_inv (bucketACL d) \<and> b_inv (bucketAuditLog d) \<and>
     b_inv (bucketTenantMeta d) \<and> b_inv (bucketVersioning d) \<and> b_inv (bucketObjectVersions d) \<and>
     b_inv (bucketLifecycle d) \<and> b_inv (bucketNotification d) \<and> b_inv (bucketObjectLockCfg d) \<and>
     b_inv (bucketLockState d)"

text \<open>
  A write transaction: the body's error or the error of the commit leaves the database as it
  was. \<open>commit\<close> says whether the commit succeeds.
\<close>

definition Update :: "bool \<Rightarrow> (metadb \<Rightarrow> metadb res) \<Rightarrow> metadb \<Rightarrow> err option \<times> metadb" where
  "Update commit body d =
     (case body d of
        Inl e \<Rightarrow> (Some e, d)
      | Inr d' \<Rightarrow> if commit then (None, d') else (Some (Plain ''commit failed''), d))"

lemma Update_ok_iff:
  "Update commit body d = (None, d') \<longleftrightarrow> commit \<and> body d = Inr d'"
  by (auto simp: Update_def split: sum.splits)

lemma Update_cases:
  obtains (ok) d' where "Update commit body d = (None, d')" "commit" "body d = Inr d'"
  | (err) e where "Update commit body d = (Some e, d)" "\<not> commit \<or> body d = Inl e"
  by (cases "body d"; cases commit) (auto simp: Update_def)

lemma Update_keeps:
  "P d \<Longrightarrow> (\<And>d'. body d = Inr d' \<Longrightarrow> P d') \<Longrightarrow> P (snd (Update commit body d))"
  by (auto simp: Update_def split: sum.splits)

text \<open>A bucket \<^verbatim>\<open>Put\<close> whose failure the caller reports as another error.\<close>

definition put_or :: "err \<Rightarrow> string \<Rightarrow> 'v \<Rightarrow> 'v bucket \<Rightarrow> 'v bucket res" where
  "put_or e k v b = (case b_put k v b of Inl _ \<Rightarrow> Inl e | Inr b' \<Rightarrow> Inr b')"

lemma put_or_ok_iff:
  "put_or e k v b = Inr b' \<longleftrightarrow> k \<noteq> [] \<and> length k \<le> MaxKeySize \<and> b' = b_upd k v b"
  by (auto simp: put_or_def b_put_def)

lemma put_or_Inr [simp]:
  "k \<noteq> [] \<Longrightarrow> length k \<le> MaxKeySize \<Longrightarrow> put_or e k v b = Inr (b_upd k v b)"
  by (simp add: put_or_def b_put_def)

section \<open>The store\<close>

datatype verifier = everyReadVerifier | verifiedCache "string list"

record cachedMeta =
  cm_meta :: FileMetadata
  cm_expiry :: int

text \<open>
  The fields of \<^verbatim>\<open>CASStore\<close> that its operations read and write; \<open>'b\<close> is the state of the blob
  backend. Locks, channels and wait groups have no counterpart: an operation runs as one step.
\<close>

record 'b CASStore =
  st_db :: metadb
  st_base :: string
  st_blobs :: 'b
  st_VerifyOnRead :: bool
  st_verifier :: verifier
  st_degradedRead :: bool
  st_metaCache :: "(string \<times> cachedMeta) list"
  st_metaCacheTTL :: int
  st_cacheMaxSize :: nat
  st_gcRuns :: "64 word"
  st_gcEvicted :: "64 word"
  st_scrubErrors :: "64 word"
  st_repairs :: "64 word"

definition newCASStore :: "string \<Rightarrow> 'b \<Rightarrow> 'b CASStore" where
  "newCASStore dataDir b =
     \<lparr>st_db = initBuckets, st_base = dataDir, st_blobs = b, st_VerifyOnRead = True,
      st_verifier = everyReadVerifier, st_degradedRead = False, st_metaCache = [],
      st_metaCacheTTL = 60 * 1000000000, st_cacheMaxSize = 10000, st_gcRuns = 0, st_gcEvicted = 0,
      st_scrubErrors = 0, st_repairs = 0\<rparr>"

lemma db_inv_init [simp]: "db_inv initBuckets"
  by (simp add: db_inv_def initBuckets_def)

end
