(* ===== verification/Blob_Store.thy ===== *)
theory Blob_Store
  imports Store_State
begin

text \<open>
  The blob backends' interface (\<^verbatim>\<open>src/src/storage/blobstore.go\<close>) as a record of operations with
  the locale \<open>blob_store\<close> of the laws the store relies on, and the local file system backend
  (\<^verbatim>\<open>src/src/storage/local_blobstore.go\<close>) with its proof of those laws.
\<close>

section \<open>The interface\<close>

text \<open>
  \<open>PutBlob\<close> consumes a stream; \<open>GetBlob\<close> opens one; \<open>BlobExists\<close> is the optional
  \<^verbatim>\<open>blobPresence\<close> seam.
\<close>

record 'b BlobStore =
  PutBlob :: "string \<Rightarrow> stream \<Rightarrow> 'b \<Rightarrow> err option \<times> 'b"
  GetBlob :: "string \<Rightarrow> 'b \<Rightarrow> stream res"
  DeleteBlob :: "string \<Rightarrow> 'b \<Rightarrow> err option \<times> 'b"
  BlobExists :: "(string \<Rightarrow> 'b \<Rightarrow> bool res) option"

text \<open>The content addresses: 64 lower-case hexadecimal digits.\<close>

definition content_hash :: "string \<Rightarrow> bool" where
  "content_hash h \<longleftrightarrow> length h = 64 \<and> set h \<subseteq> set hextable"

lemma content_hash_HashBytes [simp]: "content_hash (HashBytes d)"
  unfolding content_hash_def HashBytes_def using set_EncodeToString by simp

text \<open>
  The laws. \<open>content\<close> is what a backend state holds under each hash; \<open>healthy\<close> says that the
  medium serves reads without faults.
\<close>

locale blob_store =
  fixes bs :: "'b BlobStore"
    and content :: "'b \<Rightarrow> string \<Rightarrow> bytes option"
    and sound :: "'b \<Rightarrow> bool"
    and healthy :: "'b \<Rightarrow> bool"
  assumes put_sound: "sound b \<Longrightarrow> content_hash h \<Longrightarrow> sound (snd (PutBlob bs h r b))"
    and put_healthy: "sound b \<Longrightarrow> content_hash h \<Longrightarrow> healthy b \<Longrightarrow> healthy (snd (PutBlob bs h r b))"
    and put_other: "sound b \<Longrightarrow> content_hash h \<Longrightarrow> content_hash k \<Longrightarrow> k \<noteq> h \<Longrightarrow>
      content (snd (PutBlob bs h r b)) k = content b k"
    and put_ok: "sound b \<Longrightarrow> content_hash h \<Longrightarrow> PutBlob bs h (cs, fin) b = (None, b') \<Longrightarrow>
      fin = None \<and> (content b' h = Some (concat cs) \<or> content b h \<noteq> None \<and> content b' h = content b h)"
    and put_err: "sound b \<Longrightarrow> content_hash h \<Longrightarrow> PutBlob bs h r b = (Some er, b') \<Longrightarrow>
      content b' h = content b h"
    and get_ok: "sound b \<Longrightarrow> content_hash h \<Longrightarrow> GetBlob bs h b = Inr (cs, None) \<Longrightarrow>
      content b h = Some (concat cs)"
    and get_missing: "sound b \<Longrightarrow> content_hash h \<Longrightarrow> GetBlob bs h b = Inl e \<Longrightarrow> is_not_exist e \<Longrightarrow>
      content b h = None"
    and get_healthy: "sound b \<Longrightarrow> content_hash h \<Longrightarrow> healthy b \<Longrightarrow> content b h = Some c \<Longrightarrow>
      \<exists>cs. GetBlob bs h b = Inr (cs, None) \<and> concat cs = c"
    and del_sound: "sound b \<Longrightarrow> content_hash h \<Longrightarrow> sound (snd (DeleteBlob bs h b))"
    and del_healthy: "sound b \<Longrightarrow> content_hash h \<Longrightarrow> healthy b \<Longrightarrow> healthy (snd (DeleteBlob bs h b))"
    and del_other: "sound b \<Longrightarrow> content_hash h \<Longrightarrow> content_hash k \<Longrightarrow> k \<noteq> h \<Longrightarrow>
      content (snd (DeleteBlob bs h b)) k = content b k"
    and del_ok: "sound b \<Longrightarrow> content_hash h \<Longrightarrow> DeleteBlob bs h b = (None, b') \<Longrightarrow> content b' h = None"
    and del_err: "sound b \<Longrightarrow> content_hash h \<Longrightarrow> DeleteBlob bs h b = (Some e, b') \<Longrightarrow>
      content b' h = content b h"
    and exists_ok: "sound b \<Longrightarrow> content_hash h \<Longrightarrow> BlobExists bs = Some ex \<Longrightarrow> ex h b = Inr p \<Longrightarrow>
      p \<longleftrightarrow> content b h \<noteq> None"
begin

lemma put_then_get:
  assumes "sound b" "content_hash h" "healthy b" "PutBlob bs h (cs, e) b = (None, b')"
  shows "\<exists>ds. GetBlob bs h b' = Inr (ds, None) \<and> (concat ds = concat cs \<or> content b h = Some (concat ds))"
proof -
  have "sound b'" "healthy b'" using put_sound [OF assms(1,2), of "(cs, e)"]
    put_healthy [OF assms(1,2,3), of "(cs, e)"] assms(4) by simp_all
  then show ?thesis
    using put_ok [OF assms(1,2,4)] get_healthy [OF \<open>sound b'\<close> assms(2) \<open>healthy b'\<close>] by fastforce
qed

end

section \<open>The local file system backend\<close>

text \<open>
  What the host answers: the free blocks and block size of \<^verbatim>\<open>statfs\<close>, and the error, if any,
  of each kind of system call the backend makes. Whether a file exists is decided by the files
  the state holds, so the errors of open, remove and stat are those other than not-exist.
\<close>

record local_host =
  lh_statfs :: "(64 word \<times> 64 word) res"
  lh_mkdir :: "errno option"
  lh_createtemp :: "errno option"
  lh_write :: "errno option"
  lh_flush :: "errno option"
  lh_sync :: "errno option"
  lh_close :: "errno option"
  lh_rename :: "errno option"
  lh_open :: "errno option"
  lh_remove :: "errno option"
  lh_stat :: "errno option"

record LocalBlobStore =
  lb_base :: string
  lb_syncEnabled :: bool
  lb_files :: "string \<rightharpoonup> bytes"
  lb_host :: local_host

definition NewLocalBlobStore :: "local_host \<Rightarrow> string \<Rightarrow> LocalBlobStore res" where
  "NewLocalBlobStore host dataDir =
     (if lh_mkdir host \<noteq> None then Inl (Wrap EIO)
      else Inr \<lparr>lb_base = dataDir, lb_syncEnabled = True, lb_files = Map.empty, lb_host = host\<rparr>)"

definition SetSyncEnabled :: "bool \<Rightarrow> LocalBlobStore \<Rightarrow> LocalBlobStore" where
  "SetSyncEnabled on b = b\<lparr>lb_syncEnabled := on\<rparr>"

text \<open>\<^verbatim>\<open>filepath.Join\<close> and the tiered path of a blob.\<close>

definition filepath_Join :: "string list \<Rightarrow> string" where
  "filepath_Join elems =
     (let es = dropWhile (\<lambda>e. e = []) elems in if es = [] then [] else path_Clean (Join es ''/''))"

definition blobPath :: "string \<Rightarrow> string \<Rightarrow> string" where
  "blobPath base hash =
     (if length hash < 6 then filepath_Join [base, ''blobs'', hash]
      else filepath_Join [base, ''blobs'', sub_slice 0 2 hash, sub_slice 2 4 hash, sub_slice 4 6 hash, hash])"

definition is_permission :: "errno \<Rightarrow> bool" where
  "is_permission e \<longleftrightarrow> e = EACCES \<or> e = EPERM"

definition checkDiskSpace :: "LocalBlobStore \<Rightarrow> err option" where
  "checkDiskSpace b =
     (case lh_statfs (lb_host b) of
        Inl e \<Rightarrow> Some e
      | Inr (bavail, bsize) \<Rightarrow>
          if bavail = 0 then Some (Bare ENOSPC)
          else if bavail * bsize < 2 ^ 20 then Some (Bare ENOSPC)
          else None)"

text \<open>The early returns of \<^verbatim>\<open>PutBlob\<close>, in order; a failed step removes its temporary file.\<close>

definition Local_put_checks :: "string \<Rightarrow> stream \<Rightarrow> LocalBlobStore \<Rightarrow> err option list" where
  "Local_put_checks hash r b =
     (let host = lb_host b;
          open_fail = (\<lambda>e. if is_permission e then Wrap EACCES else if e = ENOSPC then Wrap ENOSPC else Wrap EIO);
          write_fail = (\<lambda>e. if e = ENOSPC then Wrap ENOSPC else Wrap EIO)
      in [checkDiskSpace b,
          if HasPathTraversalChars hash then Some (Wrap EINVAL) else None,
          map_option open_fail (lh_mkdir host),
          map_option open_fail (lh_createtemp host),
          if lh_write host \<noteq> None \<or> snd r \<noteq> None then Some (Wrap EIO) else None,
          map_option write_fail (lh_flush host),
          if lb_syncEnabled b then map_option write_fail (lh_sync host) else None,
          map_option (\<lambda>e. Wrap EIO) (lh_close host),
          map_option (\<lambda>e. if is_permission e then Wrap EACCES else Wrap EIO) (lh_rename host)])"

definition Local_PutBlob :: "string \<Rightarrow> stream \<Rightarrow> LocalBlobStore \<Rightarrow> err option \<times> LocalBlobStore" where
  "Local_PutBlob hash r b =
     (case first_error (Local_put_checks hash r b) of
        Some e \<Rightarrow> (Some e, b)
      | None \<Rightarrow> (None, b\<lparr>lb_files := (lb_files b)(blobPath (lb_base b) hash \<mapsto> concat (fst r))\<rparr>))"

definition Local_GetBlob :: "string \<Rightarrow> LocalBlobStore \<Rightarrow> stream res" where
  "Local_GetBlob hash b =
     (if HasPathTraversalChars hash then Inl (Wrap EINVAL)
      else case lb_files b (blobPath (lb_base b) hash) of
        None \<Rightarrow> Inl (PathErr ENOENT)
      | Some c \<Rightarrow> if lh_open (lb_host b) \<noteq> None then Inl (Wrap EIO) else Inr ([c], None))"

definition Local_DeleteBlob :: "string \<Rightarrow> LocalBlobStore \<Rightarrow> err option \<times> LocalBlobStore" where
  "Local_DeleteBlob hash b =
     (if HasPathTraversalChars hash then (Some (Wrap EINVAL), b)
      else let p = blobPath (lb_base b) hash in
        case lb_files b p of
          None \<Rightarrow> (None, b)
        | Some _ \<Rightarrow> if lh_remove (lb_host b) \<noteq> None then (Some (Wrap EIO), b)
                    else (None, b\<lparr>lb_files := (lb_files b)(p := None)\<rparr>))"

definition Local_BlobExists :: "string \<Rightarrow> LocalBlobStore \<Rightarrow> bool res" where
  "Local_BlobExists hash b =
     (if HasPathTraversalChars hash then Inl (Wrap EINVAL)
      else case lb_files b (blobPath (lb_base b) hash) of
        None \<Rightarrow> Inr False
      | Some _ \<Rightarrow> if lh_stat (lb_host b) \<noteq> None then Inl (Wrap EIO) else Inr True)"

definition Local_BlobSize :: "string \<Rightarrow> LocalBlobStore \<Rightarrow> int res" where
  "Local_BlobSize hash b =
     (if HasPathTraversalChars hash then Inl (Wrap EINVAL)
      else case lb_files b (blobPath (lb_base b) hash) of
        None \<Rightarrow> Inl (PathErr ENOENT)
      | Some c \<Rightarrow> if lh_stat (lb_host b) \<noteq> None then Inl (Wrap EIO) else Inr (int (length c)))"

definition SyncBlob :: "string \<Rightarrow> LocalBlobStore \<Rightarrow> err option" where
  "SyncBlob hash b =
     (if HasPathTraversalChars hash then Some (Wrap EINVAL)
      else case lb_files b (blobPath (lb_base b) hash) of
        None \<Rightarrow> Some (Wrap ENOENT)
      | Some _ \<Rightarrow> (case lh_open (lb_host b) of
            Some e \<Rightarrow> Some (Wrap e)
          | None \<Rightarrow> map_option Wrap (lh_sync (lb_host b))))"

definition local_ops :: "LocalBlobStore BlobStore" where
  "local_ops = \<lparr>PutBlob = Local_PutBlob, GetBlob = Local_GetBlob, DeleteBlob = Local_DeleteBlob,
     BlobExists = Some Local_BlobExists\<rparr>"

subsection \<open>Where a blob lives\<close>

lemma split_on_append: "split_on c (xs @ c # ys) = split_on c xs @ split_on c ys"
proof (induction xs)
  case (Cons x xs)
  then show ?case by (cases "split_on c xs") auto
qed simp

lemma clean_comps_append: "clean_comps r (xs @ ys) st = clean_comps r ys (rev (clean_comps r xs st))"
  by (induction r xs st rule: clean_comps.induct) (auto split: list.splits)

lemma clean_comps_normal:
  assumes "\<forall>c \<in> set ys. c \<noteq> [] \<and> c \<noteq> ''.'' \<and> c \<noteq> ''..''"
  shows "clean_comps r (xs @ ys) [] = clean_comps r xs [] @ ys"
proof -
  have "''..'' \<notin> set ys" "filter (\<lambda>c. c \<noteq> [] \<and> c \<noteq> ''.'') ys = ys" using assms by (auto simp: filter_id_conv)
  then show ?thesis by (simp add: clean_comps_append clean_comps_no_dotdot)
qed

lemma clean_comps_subset:
  "set (clean_comps r cs st) \<subseteq> set cs \<union> set st \<union> {''..''}"
  by (induction r cs st rule: clean_comps.induct) (auto split: list.splits)

lemma last_split_path_Clean:
  assumes cs: "clean_comps (p \<noteq> [] \<and> hd p = CHR ''/'') (split_on (CHR ''/'') p) [] = cs @ [h]"
    and h: "h \<noteq> []"
  shows "last (split_on (CHR ''/'') (path_Clean p)) = h"
proof -
  let ?r = "p \<noteq> [] \<and> hd p = CHR ''/''"
  have no: "\<forall>c \<in> set (cs @ [h]). CHR ''/'' \<notin> set c"
    using clean_comps_subset [of ?r "split_on (CHR ''/'') p" "[]"] split_on_no_sep [of "CHR ''/''" p]
    unfolding cs by auto
  have j: "split_on (CHR ''/'') (Join (cs @ [h]) ''/'') = cs @ [h]"
    by (rule split_on_Join) (use no in auto)
  have ne: "Join (cs @ [h]) ''/'' \<noteq> []"
  proof
    assume "Join (cs @ [h]) ''/'' = []"
    with j have "cs @ [h] = [[]]" by simp
    with h show False by simp
  qed
  show ?thesis using j ne by (simp add: path_Clean_def Let_def cs)
qed

lemma hextable_neq: "c \<in> set hextable \<Longrightarrow> c \<noteq> CHR ''/'' \<and> c \<noteq> CHR 0x5C \<and> c \<noteq> CHR ''.''"
  by (auto simp: hextable_def)

lemma content_hash_no_traversal: "content_hash h \<Longrightarrow> \<not> HasPathTraversalChars h"
  using hextable_neq by (auto simp: content_hash_def HasPathTraversalChars_def list_ex_iff)

lemma blobPath_last:
  assumes "content_hash h"
  shows "last (split_on (CHR ''/'') (blobPath base h)) = h"
proof -
  let ?ys = "[''blobs'', sub_slice 0 2 h, sub_slice 2 4 h, sub_slice 4 6 h, h]"
  have len: "length h = 64" and hex: "set h \<subseteq> set hextable" using assms by (auto simp: content_hash_def)
  have hs: "set (sub_slice a b h) \<subseteq> set hextable" for a b
    using hex unfolding sub_slice_def by (meson set_take_subset set_drop_subset subset_trans)
  have seg: "s \<noteq> [] \<and> s \<noteq> ''.'' \<and> s \<noteq> ''..'' \<and> CHR ''/'' \<notin> set s"
    if "set s \<subseteq> set hextable" "0 < length s" for s
    using that hextable_neq by fastforce
  have sub: "0 < length (sub_slice 0 2 h)" "0 < length (sub_slice 2 4 h)" "0 < length (sub_slice 4 6 h)"
    using len by simp_all
  have norm: "\<forall>c \<in> set ?ys. c \<noteq> [] \<and> c \<noteq> ''.'' \<and> c \<noteq> ''..'' \<and> CHR ''/'' \<notin> set c"
    using seg [OF hs sub(1)] seg [OF hs sub(2)] seg [OF hs sub(3)] seg [OF hex] len by auto
  have sp: "split_on (CHR ''/'') (Join ?ys ''/'') = ?ys"
    by (rule split_on_Join) (use norm in auto)
  let ?p = "if base = [] then Join ?ys ''/'' else base @ ''/'' @ Join ?ys ''/''"
  have "\<exists>pre. split_on (CHR ''/'') ?p = pre @ ?ys"
    using sp split_on_append [of "CHR ''/''" base "Join ?ys ''/''"] by auto
  then obtain pre where pre: "split_on (CHR ''/'') ?p = pre @ ?ys" by blast
  have "clean_comps r (pre @ ?ys) [] = (clean_comps r pre [] @ butlast ?ys) @ [h]" for r
    using clean_comps_normal [of ?ys r pre] norm by simp
  then have "last (split_on (CHR ''/'') (path_Clean ?p)) = h"
    by (intro last_split_path_Clean) (use pre len in auto)
  moreover have "blobPath base h = path_Clean ?p"
    using len by (simp add: blobPath_def filepath_Join_def)
  ultimately show ?thesis by simp
qed

lemma blobPath_inj: "content_hash h \<Longrightarrow> content_hash k \<Longrightarrow> blobPath base h = blobPath base k \<longleftrightarrow> h = k"
  using blobPath_last by metis

text \<open>
  The separator check does not keep a blob inside its directory. The name below passes
  \<open>HasPathTraversalChars\<close>, yet its two-character fan-out components are parent directories, so
  its blob path leaves the data directory.
\<close>

theorem blobPath_escapes:
  "\<not> HasPathTraversalChars ''......x'' \<and> blobPath ''/srv/momo'' ''......x'' = ''/......x''"
  by (simp add: HasPathTraversalChars_def blobPath_def filepath_Join_def path_Clean_def sub_slice_def)

subsection \<open>The backend satisfies the laws\<close>

definition local_content :: "LocalBlobStore \<Rightarrow> string \<Rightarrow> bytes option" where
  "local_content b h = lb_files b (blobPath (lb_base b) h)"

definition local_healthy :: "LocalBlobStore \<Rightarrow> bool" where
  "local_healthy b \<longleftrightarrow> lh_open (lb_host b) = None"

lemma Local_PutBlob_cases:
  obtains (err) e where "Local_PutBlob h r b = (Some e, b)"
  | (ok) "snd r = None" "\<not> HasPathTraversalChars h" "Local_PutBlob h r b =
      (None, b\<lparr>lb_files := (lb_files b)(blobPath (lb_base b) h \<mapsto> concat (fst r))\<rparr>)"
proof (cases "first_error (Local_put_checks h r b)")
  case None
  then have "snd r = None" "\<not> HasPathTraversalChars h"
    unfolding first_error_None_iff Local_put_checks_def Let_def by (simp_all split: if_splits)
  with None show thesis by (intro ok) (simp_all add: Local_PutBlob_def)
next
  case (Some e)
  then show thesis by (intro err) (simp add: Local_PutBlob_def)
qed

lemma Local_DeleteBlob_cases:
  obtains (err) e where "Local_DeleteBlob h b = (Some e, b)"
  | (ok) "Local_DeleteBlob h b = (None, b)" "lb_files b (blobPath (lb_base b) h) = None"
  | (del) "Local_DeleteBlob h b = (None, b\<lparr>lb_files := (lb_files b)(blobPath (lb_base b) h := None)\<rparr>)"
  by (cases "HasPathTraversalChars h"; cases "lb_files b (blobPath (lb_base b) h)"; cases "lh_remove (lb_host b)")
    (auto simp: Local_DeleteBlob_def Let_def)

lemmas local_defs = local_ops_def local_content_def local_healthy_def

interpretation local: blob_store local_ops local_content "\<lambda>_. True" local_healthy
proof unfold_locales
  fix b h r assume "content_hash h" "local_healthy b"
  then show "local_healthy (snd (PutBlob local_ops h r b))"
    by (cases rule: Local_PutBlob_cases [of h r b]) (auto simp: local_defs)
next
  fix b h k and r :: stream assume "content_hash h" "content_hash k" "k \<noteq> h"
  then show "local_content (snd (PutBlob local_ops h r b)) k = local_content b k"
    by (cases rule: Local_PutBlob_cases [of h r b]) (auto simp: local_defs blobPath_inj)
next
  fix b h cs fin b' assume "PutBlob local_ops h (cs, fin) b = (None, b')"
  then show "fin = None \<and> (local_content b' h = Some (concat cs) \<or>
      local_content b h \<noteq> None \<and> local_content b' h = local_content b h)"
    by (cases rule: Local_PutBlob_cases [of h "(cs, fin)" b]) (auto simp: local_defs)
next
  fix b h r er b' assume "PutBlob local_ops h r b = (Some er, b')"
  then show "local_content b' h = local_content b h"
    by (cases rule: Local_PutBlob_cases [of h r b]) (auto simp: local_defs)
next
  fix b h cs assume "GetBlob local_ops h b = Inr (cs, None)"
  then show "local_content b h = Some (concat cs)"
    by (auto simp: local_defs Local_GetBlob_def split: if_splits option.splits)
next
  fix b h e assume "content_hash h" "GetBlob local_ops h b = Inl e" "is_not_exist e"
  then show "local_content b h = None"
    by (auto simp: local_defs Local_GetBlob_def is_not_exist_def content_hash_no_traversal
        split: if_splits option.splits)
next
  fix b h c assume "content_hash h" "local_healthy b" "local_content b h = Some c"
  then show "\<exists>cs. GetBlob local_ops h b = Inr (cs, None) \<and> concat cs = c"
    by (auto simp: local_defs Local_GetBlob_def content_hash_no_traversal)
next
  fix b h assume "content_hash h" "local_healthy b"
  then show "local_healthy (snd (DeleteBlob local_ops h b))"
    by (cases rule: Local_DeleteBlob_cases [of h b]) (auto simp: local_defs)
next
  fix b h k assume "content_hash h" "content_hash k" "k \<noteq> h"
  then show "local_content (snd (DeleteBlob local_ops h b)) k = local_content b k"
    by (cases rule: Local_DeleteBlob_cases [of h b]) (auto simp: local_defs blobPath_inj)
next
  fix b h b' assume "DeleteBlob local_ops h b = (None, b')"
  then show "local_content b' h = None"
    by (cases rule: Local_DeleteBlob_cases [of h b]) (auto simp: local_defs)
next
  fix b h e b' assume "DeleteBlob local_ops h b = (Some e, b')"
  then show "local_content b' h = local_content b h"
    by (cases rule: Local_DeleteBlob_cases [of h b]) (auto simp: local_defs)
next
  fix b h ex p assume "content_hash h" "BlobExists local_ops = Some ex" "ex h b = Inr p"
  then show "p \<longleftrightarrow> local_content b h \<noteq> None"
    by (auto simp: local_defs Local_BlobExists_def content_hash_no_traversal split: option.splits if_splits)
qed simp_all

subsection \<open>An empty backend on a host without faults\<close>

definition quiet_host :: local_host where
  "quiet_host = \<lparr>lh_statfs = Inr (1048576, 4096), lh_mkdir = None, lh_createtemp = None, lh_write = None,
     lh_flush = None, lh_sync = None, lh_close = None, lh_rename = None, lh_open = None,
     lh_remove = None, lh_stat = None\<rparr>"

definition empty_local :: LocalBlobStore where
  "empty_local = \<lparr>lb_base = ''/srv/momo'', lb_syncEnabled = True, lb_files = Map.empty, lb_host = quiet_host\<rparr>"

lemma empty_local_facts [simp]:
  "local_content empty_local h = None" "local_healthy empty_local"
  by (simp_all add: local_content_def local_healthy_def empty_local_def quiet_host_def)

lemma empty_local_put:
  "content_hash h \<Longrightarrow> Local_PutBlob h (cs, None) empty_local =
     (None, empty_local\<lparr>lb_files := [blobPath ''/srv/momo'' h \<mapsto> concat cs]\<rparr>)"
  by (simp add: Local_PutBlob_def Local_put_checks_def checkDiskSpace_def empty_local_def quiet_host_def
      content_hash_no_traversal)

end
