(* ===== verification/Cas_Store.thy ===== *)
theory Cas_Store
  imports Blob_Store
begin

text \<open>
  The content-addressed store of \<^verbatim>\<open>src/src/storage/storage.go\<close>: writing, looking up, listing and
  deleting names, the metadata cache and the S3 header documents. Each operation is one step
  on the store; \<open>now\<close> is the clock it reads and the commit flags say which of its database
  transactions succeed.
\<close>

section \<open>Writing\<close>

fun raise_clock :: "64 word list \<Rightarrow> 64 word list \<Rightarrow> 64 word list" where
  "raise_clock (v # vs) (b # bs) = (if v > b then v else b) # raise_clock vs bs"
| "raise_clock [] bs = bs"
| "raise_clock vs [] = []"

definition merge_clock :: "64 word list \<Rightarrow> 64 word list \<Rightarrow> 64 word list" where
  "merge_clock vectorClock old =
     (if length vectorClock > 0
      then raise_clock vectorClock
        (if length old < length vectorClock then replicate (length vectorClock) 0 else old)
      else old)"

definition put_meta ::
  "64 word \<Rightarrow> 64 word list \<Rightarrow> string \<Rightarrow> 32 word list \<Rightarrow> bytes option \<Rightarrow> ObjectMeta res" where
  "put_meta sz vectorClock shardKey replicas existing =
     res_bind
       (case existing of
          Some v \<Rightarrow> (case decodeObjectMeta v of
              Inl e \<Rightarrow> Inl (wrap e)
            | Inr m \<Rightarrow> Inr (m\<lparr>RefCount := RefCount m + 1,
                              VectorClock := merge_clock vectorClock (VectorClock m)\<rparr>))
        | None \<Rightarrow> Inr \<lparr>Size = sz, RefCount = 1, DeletedAt = 0, VectorClock = vectorClock,
                       ShardKey = shardKey, MetadataReplicas = replicas\<rparr>)
       (\<lambda>m. Inr (m\<lparr>ShardKey := (if ShardKey m = [] \<and> shardKey \<noteq> [] then shardKey else ShardKey m),
                   MetadataReplicas := (if MetadataReplicas m = [] \<and> replicas \<noteq> [] then replicas
                                        else MetadataReplicas m)\<rparr>))"

definition FileInfoLength :: nat where "FileInfoLength = 64"

definition put_tx ::
  "64 word \<Rightarrow> string \<Rightarrow> string \<Rightarrow> 64 word \<Rightarrow> string \<Rightarrow> 64 word list \<Rightarrow> string \<Rightarrow> 32 word list \<Rightarrow>
   metadb \<Rightarrow> metadb res" where
  "put_tx now name hash sz remotePath vectorClock shardKey replicas d =
     res_bind (put_or (Wrap EIO) name hash (bucketNamespace d)) (\<lambda>ns.
     res_bind (put_meta sz vectorClock shardKey replicas (b_get (bucketObjects d) hash)) (\<lambda>meta.
     res_bind (put_or (Wrap EIO) hash (encode meta) (bucketObjects d)) (\<lambda>obj.
     res_bind (put_or (Wrap EIO) name (PutUint64 now) (bucketModTimes d)) (\<lambda>mt.
     res_bind
       (if length name > FileInfoLength then Inl (Wrap ENAMETOOLONG)
        else if remotePath \<noteq> [] then
          (case NormalizeVirtualPath remotePath of
             Inl e \<Rightarrow> Inl (wrap e)
           | Inr normalized \<Rightarrow> put_or (Wrap EIO) name normalized (bucketPaths d))
        else Inr (bucketPaths d)) (\<lambda>paths.
     Inr (d\<lparr>bucketNamespace := ns, bucketObjects := obj,
            bucketTombstones := b_del name (bucketTombstones d),
            bucketModTimes := mt, bucketPaths := paths\<rparr>))))))"

definition invalidateCache :: "string \<Rightarrow> 'b CASStore \<Rightarrow> 'b CASStore" where
  "invalidateCache name s = s\<lparr>st_metaCache := filter (\<lambda>(k, v). k \<noteq> name) (st_metaCache s)\<rparr>"

definition hasInternal :: "string \<Rightarrow> 'b CASStore \<Rightarrow> bool" where
  "hasInternal hash s \<longleftrightarrow> b_get (bucketObjects (st_db s)) hash \<noteq> None"

text \<open>
  The blob part of a put: whether the bytes are there, storing them, or draining the content.
  \<open>barrier\<close> is the durability barrier, when one is configured.
\<close>

definition put_blob_step ::
  "'b BlobStore \<Rightarrow> (string \<Rightarrow> 'b \<Rightarrow> err option) option \<Rightarrow> string \<Rightarrow> stream option \<Rightarrow> 'b CASStore \<Rightarrow>
   err option \<times> 'b" where
  "put_blob_step bs barrier hash content s =
     (let b = st_blobs s;
          probe = (if hasInternal hash s
                   then (case BlobExists bs of Some ex \<Rightarrow> ex hash b | None \<Rightarrow> Inr True)
                   else Inr False)
      in case probe of
           Inl e \<Rightarrow> (Some (wrap e), b)
         | Inr exists \<Rightarrow>
             (case content of
                None \<Rightarrow> (None, b)
              | Some r \<Rightarrow>
                  if \<not> exists then
                    (case PutBlob bs hash r b of
                       (Some e, b') \<Rightarrow> (Some e, b')
                     | (None, b') \<Rightarrow>
                         (case barrier of None \<Rightarrow> (None, b') | Some commit \<Rightarrow> (commit hash b', b')))
                  else (map_option wrap (snd r), b)))"

definition PutWithMetadata ::
  "'b BlobStore \<Rightarrow> (string \<Rightarrow> 'b \<Rightarrow> err option) option \<Rightarrow> bool \<Rightarrow> 64 word \<Rightarrow>
   string \<Rightarrow> string \<Rightarrow> 64 word \<Rightarrow> string \<Rightarrow> stream option \<Rightarrow> 64 word list \<Rightarrow> string \<Rightarrow> 32 word list \<Rightarrow>
   'b CASStore \<Rightarrow> err option \<times> 'b CASStore" where
  "PutWithMetadata bs barrier commit now name hash sz remotePath content vectorClock shardKey replicas s =
     (if HasPathTraversalChars hash then (Some (Wrap EINVAL), s)
      else case put_blob_step bs barrier hash content s of
        (Some e, b) \<Rightarrow> (Some e, s\<lparr>st_blobs := b\<rparr>)
      | (None, b) \<Rightarrow>
          (case Update commit (put_tx now name hash sz remotePath vectorClock shardKey replicas) (st_db s) of
             (Some e, _) \<Rightarrow> (Some e, s\<lparr>st_blobs := b\<rparr>)
           | (None, d) \<Rightarrow> (None, invalidateCache name (s\<lparr>st_blobs := b, st_db := d\<rparr>))))"

definition Put ::
  "'b BlobStore \<Rightarrow> (string \<Rightarrow> 'b \<Rightarrow> err option) option \<Rightarrow> bool \<Rightarrow> 64 word \<Rightarrow>
   string \<Rightarrow> string \<Rightarrow> 64 word \<Rightarrow> string \<Rightarrow> stream option \<Rightarrow> 'b CASStore \<Rightarrow> err option \<times> 'b CASStore" where
  "Put bs barrier commit now name hash sz remotePath content s =
     PutWithMetadata bs barrier commit now name hash sz remotePath content [] [] [] s"

section \<open>Looking up\<close>

definition GetHashForName :: "string \<Rightarrow> 'b CASStore \<Rightarrow> string res" where
  "GetHashForName name s =
     (if b_get (bucketTombstones (st_db s)) name \<noteq> None then Inl (Bare ENOENT)
      else case b_get (bucketNamespace (st_db s)) name of
        None \<Rightarrow> Inl (Bare ENOENT) | Some h \<Rightarrow> Inr h)"

definition mod_time :: "bytes option \<Rightarrow> 64 word" where
  "mod_time mt = (case mt of Some v \<Rightarrow> if length v \<ge> 8 then Uint64 (take 8 v) else 0 | None \<Rightarrow> 0)"

text \<open>The metadata view of a name whose hash is known (second transaction of \<^verbatim>\<open>Get\<close>, \<^verbatim>\<open>GetMeta\<close>).\<close>

definition meta_view :: "string \<Rightarrow> string \<Rightarrow> 'b CASStore \<Rightarrow> FileMetadata res" where
  "meta_view name hash s =
     (case b_get (bucketObjects (st_db s)) hash of
        None \<Rightarrow> Inl (Wrap ENOENT)
      | Some v \<Rightarrow>
          res_bind (decodeObjectMeta v) (\<lambda>m.
            if sint (Size m) < 0 then Inl (Wrap EBADMSG)
            else Inr \<lparr>fm_Name = name, fm_Hash = hash, fm_Size = Size m,
                      fm_RemotePath = (case b_get (bucketPaths (st_db s)) name of Some p \<Rightarrow> p | None \<Rightarrow> []),
                      fm_ModTime = mod_time (b_get (bucketModTimes (st_db s)) name),
                      fm_S3Headers = None, fm_Checksums = []\<rparr>))"

definition GetMeta :: "string \<Rightarrow> 'b CASStore \<Rightarrow> FileMetadata res" where
  "GetMeta name s = res_bind (GetHashForName name s) (\<lambda>hash. meta_view name hash s)"

definition Has :: "string \<Rightarrow> 'b CASStore \<Rightarrow> bool res" where
  "Has hash s = (if HasPathTraversalChars hash then Inl (Wrap EINVAL) else Inr (hasInternal hash s))"

definition GetBlobPath :: "bool \<Rightarrow> string \<Rightarrow> 'b CASStore \<Rightarrow> string res" where
  "GetBlobPath isLocal name s =
     res_bind (GetHashForName name s) (\<lambda>hash.
       if \<not> isLocal then Inl (Wrap ENOTSUP) else Inr (blobPath (st_base s) hash))"

section \<open>Deleting\<close>

text \<open>
  The shared part of \<^verbatim>\<open>Delete\<close> and \<^verbatim>\<open>ApplyTombstone\<close>: drop one reference of the name's hash and
  forget the name. The second component is the hash left without references.
\<close>

definition drop_reference :: "64 word \<Rightarrow> string \<Rightarrow> metadb \<Rightarrow> (metadb \<times> string) res" where
  "drop_reference at name d =
     res_bind
       (case b_get (bucketNamespace d) name of
          None \<Rightarrow> Inr (bucketObjects d, [])
        | Some hash \<Rightarrow>
            (case b_get (bucketObjects d) hash of
               None \<Rightarrow> Inr (bucketObjects d, [])
             | Some v \<Rightarrow>
                 (case decodeObjectMeta v of
                    Inl e \<Rightarrow> Inl (wrap e)
                  | Inr m0 \<Rightarrow>
                      let m1 = m0\<lparr>RefCount := RefCount m0 - 1\<rparr>;
                          dead = sint (RefCount m1) \<le> 0;
                          m2 = (if dead then m1\<lparr>RefCount := 0, DeletedAt := at\<rparr> else m1)
                      in res_bind (put_or (Wrap EIO) hash (encode m2) (bucketObjects d))
                           (\<lambda>obj. Inr (obj, if dead then hash else [])))))
       (\<lambda>(obj, orphaned).
          Inr (d\<lparr>bucketObjects := obj, bucketNamespace := b_del name (bucketNamespace d),
                 bucketPaths := b_del name (bucketPaths d),
                 bucketModTimes := b_del name (bucketModTimes d)\<rparr>, orphaned))"

definition delete_tx :: "64 word \<Rightarrow> string \<Rightarrow> metadb \<Rightarrow> (metadb \<times> string) res" where
  "delete_tx now name d =
     res_bind (put_or (Wrap EIO) name (PutUint64 now) (bucketTombstones d)) (\<lambda>ts.
       drop_reference now name (d\<lparr>bucketTombstones := ts\<rparr>))"

text \<open>A transaction whose body also returns a value.\<close>

definition Update_val :: "bool \<Rightarrow> (metadb \<Rightarrow> (metadb \<times> 'a) res) \<Rightarrow> metadb \<Rightarrow> err + (metadb \<times> 'a)" where
  "Update_val commit body d =
     (case body d of
        Inl e \<Rightarrow> Inl e
      | Inr r \<Rightarrow> if commit then Inr r else Inl (Plain ''commit failed''))"

definition Delete ::
  "'b BlobStore \<Rightarrow> bool \<Rightarrow> bool \<Rightarrow> 64 word \<Rightarrow> string \<Rightarrow> 'b CASStore \<Rightarrow> err option \<times> 'b CASStore" where
  "Delete bs commit commit2 now name s =
     (case Update_val commit (delete_tx now name) (st_db s) of
        Inl e \<Rightarrow> (Some e, s)
      | Inr (d, orphaned) \<Rightarrow>
          let s1 = s\<lparr>st_db := d\<rparr>;
              s2 = (if orphaned = [] then s1
                    else case DeleteBlob bs orphaned (st_blobs s1) of
                      (Some _, b) \<Rightarrow> s1\<lparr>st_blobs := b\<rparr>
                    | (None, b) \<Rightarrow>
                        let s1' = s1\<lparr>st_blobs := b\<rparr>;
                            evicted = (case b_get (bucketObjects d) orphaned of
                              Some v \<Rightarrow> (case decodeObjectMeta v of
                                  Inr m \<Rightarrow> if sint (Size m) > 0 then Size m else 0 | Inl _ \<Rightarrow> 0)
                            | None \<Rightarrow> 0);
                            s1'' = s1'\<lparr>st_gcEvicted := st_gcEvicted s1' + evicted\<rparr>
                        in if commit2
                           then s1''\<lparr>st_db := d\<lparr>bucketObjects := b_del orphaned (bucketObjects d)\<rparr>\<rparr>
                           else s1'')
          in (None, invalidateCache name s2))"

section \<open>Listing\<close>

fun list_loop :: "metadb \<Rightarrow> (string \<times> string) list \<Rightarrow> FileMetadata list \<Rightarrow> FileMetadata list res" where
  "list_loop d [] acc = Inr acc"
| "list_loop d ((name, hash) # rest) acc =
     (if b_get (bucketTombstones d) name \<noteq> None then list_loop d rest acc
      else res_bind
        (case b_get (bucketObjects d) hash of
           Some v \<Rightarrow> if length v > 0
                     then (case decodeObjectMeta v of Inl e \<Rightarrow> Inl (wrap e) | Inr m \<Rightarrow> Inr (Size m))
                     else Inr 0
         | None \<Rightarrow> Inr 0)
        (\<lambda>sz. list_loop d rest (acc @
          [\<lparr>fm_Name = name, fm_Hash = hash, fm_Size = sz,
            fm_RemotePath = (case b_get (bucketPaths d) name of Some p \<Rightarrow> p | None \<Rightarrow> []),
            fm_ModTime = mod_time (b_get (bucketModTimes d) name), fm_S3Headers = None, fm_Checksums = []\<rparr>])))"

definition List_all :: "'b CASStore \<Rightarrow> FileMetadata list res" where
  "List_all s = list_loop (st_db s) (bucketNamespace (st_db s)) []"

fun stats_loop :: "(string \<times> bytes) list \<Rightarrow> 64 word \<Rightarrow> 64 word \<Rightarrow> (64 word \<times> 64 word) res" where
  "stats_loop [] n t = Inr (n, t)"
| "stats_loop ((k, v) # rest) n t =
     res_bind (decodeObjectMeta v) (\<lambda>m.
       if DeletedAt m = 0 \<and> sint (RefCount m) > 0 then stats_loop rest (n + 1) (t + Size m)
       else stats_loop rest n t)"

definition Stats :: "'b CASStore \<Rightarrow> (64 word \<times> 64 word) res" where
  "Stats s = stats_loop (bucketObjects (st_db s)) 0 0"

section \<open>The metadata cache\<close>

definition getCachedMeta :: "int \<Rightarrow> string \<Rightarrow> 'b CASStore \<Rightarrow> FileMetadata option" where
  "getCachedMeta now name s =
     (case map_of (st_metaCache s) name of
        None \<Rightarrow> None
      | Some e \<Rightarrow> if now > cm_expiry e then None else Some (cm_meta e))"

text \<open>The eviction scan visits the map in some order, here that of the list.\<close>

definition oldest :: "(string \<times> cachedMeta) list \<Rightarrow> string" where
  "oldest es =
     fst (foldl (\<lambda>(old, t) (k, v). if old = [] \<or> cm_expiry v < t then (k, cm_expiry v) else (old, t))
       ([], 0) es)"

definition setCachedMeta :: "int \<Rightarrow> string \<Rightarrow> FileMetadata \<Rightarrow> 'b CASStore \<Rightarrow> 'b CASStore" where
  "setCachedMeta now name meta s =
     (let c = st_metaCache s;
          c' = (if length c \<ge> st_cacheMaxSize s \<and> oldest c \<noteq> []
                then filter (\<lambda>(k, v). k \<noteq> oldest c) c else c)
      in s\<lparr>st_metaCache := (name, \<lparr>cm_meta = meta, cm_expiry = now + st_metaCacheTTL s\<rparr>)
             # filter (\<lambda>(k, v). k \<noteq> name) c'\<rparr>)"

section \<open>S3 header documents\<close>

text \<open>\<open>json_len\<close> is the length of the rendered document, which \<^verbatim>\<open>MarshalS3MetaJSON\<close> bounds.\<close>

definition MaxS3MetaJSONBytes :: nat where "MaxS3MetaJSONBytes = 8192"

definition MarshalS3MetaJSON :: "(string bucket \<Rightarrow> nat) \<Rightarrow> string bucket \<Rightarrow> string bucket json option res" where
  "MarshalS3MetaJSON json_len headers =
     (if headers = [] then Inr None
      else if json_len headers > MaxS3MetaJSONBytes then Inl (Wrap EOVERFLOW)
      else Inr (Some (Json headers)))"

definition PutS3Meta ::
  "(string bucket \<Rightarrow> nat) \<Rightarrow> bool \<Rightarrow> string \<Rightarrow> string bucket \<Rightarrow> 'b CASStore \<Rightarrow> err option \<times> 'b CASStore" where
  "PutS3Meta json_len commit name headers s =
     (if headers = [] then (None, s)
      else case MarshalS3MetaJSON json_len headers of
        Inl e \<Rightarrow> (Some e, s)
      | Inr None \<Rightarrow> (None, s)
      | Inr (Some doc) \<Rightarrow>
          (let (e, d) = Update commit (\<lambda>d. res_bind (b_put name doc (bucketS3Meta d))
                 (\<lambda>b. Inr (d\<lparr>bucketS3Meta := b\<rparr>))) (st_db s)
           in (e, s\<lparr>st_db := d\<rparr>)))"

definition GetS3Meta :: "string \<Rightarrow> 'b CASStore \<Rightarrow> string bucket option" where
  "GetS3Meta name s =
     (case b_get (bucketS3Meta (st_db s)) name of None \<Rightarrow> None | Some doc \<Rightarrow> Unmarshal doc)"

end
