(* ===== verification/Cas_Invariant.thy ===== *)
theory Cas_Invariant
  imports Cas_Store
begin

text \<open>
  The invariant of the content-addressed store and its preservation by \<open>Put\<close> and \<open>Delete\<close>: the
  reference count of a hash is at least the number of names that map to it, every name has its
  object record, no live name has a tombstone, and the backend holds the bytes of every live
  name. The locale \<open>cas_backend\<close> adds the presence probe to the backend laws.
\<close>

section \<open>The metadata part\<close>

definition live :: "metadb \<Rightarrow> string \<Rightarrow> string set" where
  "live d h = {nm. b_get (bucketNamespace d) nm = Some h}"

definition plain_meta :: "ObjectMeta \<Rightarrow> bool" where
  "plain_meta m \<longleftrightarrow> VectorClock m = [] \<and> ShardKey m = [] \<and> MetadataReplicas m = []"

definition core_inv :: "metadb \<Rightarrow> bool" where
  "core_inv d \<longleftrightarrow> b_inv (bucketObjects d) \<and> b_inv (bucketNamespace d) \<and> b_inv (bucketTombstones d) \<and>
     b_inv (bucketPaths d) \<and> b_inv (bucketModTimes d)"

definition object_ok :: "nat \<Rightarrow> metadb \<Rightarrow> string \<Rightarrow> bytes \<Rightarrow> bool" where
  "object_ok n d h v \<longleftrightarrow> content_hash h \<and>
     (\<exists>m. decodeObjectMeta v = Inr m \<and> plain_meta m \<and> int (card (live d h)) \<le> sint (RefCount m) \<and>
          sint (RefCount m) \<le> int n)"

definition meta_inv :: "nat \<Rightarrow> metadb \<Rightarrow> bool" where
  "meta_inv n d \<longleftrightarrow> core_inv d \<and>
     (\<forall>h v. b_get (bucketObjects d) h = Some v \<longrightarrow> object_ok n d h v) \<and>
     (\<forall>nm h. b_get (bucketNamespace d) nm = Some h \<longrightarrow>
        b_get (bucketObjects d) h \<noteq> None \<and> b_get (bucketTombstones d) nm = None)"

lemma finite_live [simp]: "finite (live d h)"
proof -
  have "live d h \<subseteq> fst ` set (bucketNamespace d)"
    by (auto simp: live_def b_get_def dest!: map_of_SomeD intro: rev_image_eqI)
  then show ?thesis by (rule finite_subset) simp
qed

lemma decode_plain: "plain_meta m \<Longrightarrow> decodeObjectMeta (encode m) = Inr m"
  by (rule decode_encode) (simp_all add: plain_meta_def)

lemma sint_succ:
  assumes "sint (w :: 64 word) \<le> int n" "n < 2 ^ 63 - 1"
  shows "sint (w + 1) = sint w + 1"
proof -
  have n: "int n < 2 ^ 63 - 1" using assms(2) by simp
  have lo: "- (2 ^ 63) \<le> sint w" using sint_ge [of w] by simp
  have "sint (word_of_int (sint w + 1) :: 64 word) = sint w + 1"
    by (rule sint_int64) (use lo n assms(1) in linarith)+
  then show ?thesis by simp
qed

lemma sint_pred:
  assumes "0 < sint (w :: 64 word)"
  shows "sint (w - 1) = sint w - 1"
proof -
  have hi: "sint w < 2 ^ 63" using sint_lt [of w] by simp
  have "sint (word_of_int (sint w - 1) :: 64 word) = sint w - 1"
    by (rule sint_int64) (use hi assms in linarith)+
  then show ?thesis by simp
qed

subsection \<open>A put transaction\<close>

lemma put_tx_okD:
  assumes "put_tx now nm h sz rp [] [] [] d = Inr d'"
  obtains m paths where "put_meta sz [] [] [] (b_get (bucketObjects d) h) = Inr m"
    "d' = d\<lparr>bucketNamespace := b_upd nm h (bucketNamespace d),
            bucketObjects := b_upd h (encode m) (bucketObjects d),
            bucketTombstones := b_del nm (bucketTombstones d),
            bucketModTimes := b_upd nm (PutUint64 now) (bucketModTimes d), bucketPaths := paths\<rparr>"
    "paths = bucketPaths d \<or> (\<exists>p. paths = b_upd nm p (bucketPaths d))"
    "nm \<noteq> []" "length nm \<le> FileInfoLength"
proof -
  from assms obtain m paths where "put_meta sz [] [] [] (b_get (bucketObjects d) h) = Inr m"
    and d': "d' = d\<lparr>bucketNamespace := b_upd nm h (bucketNamespace d),
            bucketObjects := b_upd h (encode m) (bucketObjects d),
            bucketTombstones := b_del nm (bucketTombstones d),
            bucketModTimes := b_upd nm (PutUint64 now) (bucketModTimes d), bucketPaths := paths\<rparr>"
    and p: "(if length nm > FileInfoLength then Inl (Wrap ENAMETOOLONG)
        else if rp \<noteq> [] then
          (case NormalizeVirtualPath rp of
             Inl e \<Rightarrow> Inl (wrap e)
           | Inr normalized \<Rightarrow> put_or (Wrap EIO) nm normalized (bucketPaths d))
        else Inr (bucketPaths d)) = Inr paths" and "nm \<noteq> []"
    unfolding put_tx_def by (auto simp: res_bind_Inr_conv put_or_ok_iff)
  moreover have "paths = bucketPaths d \<or> (\<exists>p. paths = b_upd nm p (bucketPaths d))" "length nm \<le> FileInfoLength"
    using p by (auto simp: put_or_ok_iff split: if_splits sum.splits)
  ultimately show thesis using that by blast
qed

lemma put_meta_plain:
  assumes "put_meta sz [] [] [] ex = Inr m" "\<And>v. ex = Some v \<Longrightarrow> object_ok n d h v" "n < 2 ^ 63 - 1"
    "ex = None \<Longrightarrow> live d h = {}"
  shows "plain_meta m \<and> int (card (live d h)) + 1 \<le> sint (RefCount m) \<and> sint (RefCount m) \<le> int (Suc n) \<and>
    (\<forall>v m0. ex = Some v \<longrightarrow> decodeObjectMeta v = Inr m0 \<longrightarrow> Size m = Size m0)"
proof (cases ex)
  case None
  then show ?thesis
    using assms(1,4) by (auto simp: put_meta_def plain_meta_def)
next
  case (Some v)
  from assms(2) [OF Some] obtain m0 where m0: "decodeObjectMeta v = Inr m0" "plain_meta m0"
    "int (card (live d h)) \<le> sint (RefCount m0)" "sint (RefCount m0) \<le> int n"
    by (auto simp: object_ok_def)
  have m: "m = m0\<lparr>RefCount := RefCount m0 + 1\<rparr>"
    using assms(1) Some m0(1,2) by (auto simp: put_meta_def plain_meta_def merge_clock_def)
  then show ?thesis
    using m0 sint_succ [OF m0(4) assms(3)] Some by (auto simp: plain_meta_def)
qed

lemma object_ok_mono:
  "object_ok n d h v \<Longrightarrow> card (live d' h) \<le> card (live d h) \<Longrightarrow> n \<le> n' \<Longrightarrow> object_ok n' d' h v"
  unfolding object_ok_def by fastforce

lemma put_tx_inv:
  assumes "meta_inv n d" "content_hash h" "n < 2 ^ 63 - 1" "put_tx now nm h sz rp [] [] [] d = Inr d'"
  shows "meta_inv (Suc n) d'"
proof -
  from put_tx_okD [OF assms(4)] obtain m paths where
    m: "put_meta sz [] [] [] (b_get (bucketObjects d) h) = Inr m" and
    d': "d' = d\<lparr>bucketNamespace := b_upd nm h (bucketNamespace d),
            bucketObjects := b_upd h (encode m) (bucketObjects d),
            bucketTombstones := b_del nm (bucketTombstones d),
            bucketModTimes := b_upd nm (PutUint64 now) (bucketModTimes d), bucketPaths := paths\<rparr>" and
    paths: "paths = bucketPaths d \<or> (\<exists>p. paths = b_upd nm p (bucketPaths d))"
    by blast
  have core: "core_inv d" and obj: "\<And>h v. b_get (bucketObjects d) h = Some v \<Longrightarrow> object_ok n d h v"
    and nms: "\<And>nm h. b_get (bucketNamespace d) nm = Some h \<Longrightarrow>
        b_get (bucketObjects d) h \<noteq> None \<and> b_get (bucketTombstones d) nm = None"
    using assms(1) by (auto simp: meta_inv_def)
  note [simp] = core [unfolded core_inv_def]
  have "core_inv d'" using paths by (auto simp: core_inv_def d')
  moreover have "live d' k = (if k = h then insert nm (live d h) else live d k - {nm})" for k
    by (auto simp: live_def d' bucket_law)
  note lv = this
  have "live d h = {}" if "b_get (bucketObjects d) h = None" using that by (auto simp: live_def dest: nms)
  note pm = put_meta_plain [OF m obj assms(3) this]
  have "object_ok (Suc n) d' k v" if "b_get (bucketObjects d') k = Some v" for k v
  proof (cases "k = h")
    case True
    with that have v: "v = encode m" by (simp add: d' bucket_law)
    have "card (live d' h) \<le> card (live d h) + 1" by (simp add: lv card_insert_if)
    with pm assms(2) True show ?thesis by (auto simp: object_ok_def v decode_plain)
  next
    case False
    with that have "b_get (bucketObjects d) k = Some v" by (simp add: d' bucket_law)
    from obj [OF this] show ?thesis
      by (rule object_ok_mono) (use False in \<open>simp_all add: lv card_Diff1_le\<close>)
  qed
  moreover have "b_get (bucketObjects d') k \<noteq> None \<and> b_get (bucketTombstones d') x = None"
    if "b_get (bucketNamespace d') x = Some k" for x k
    using that nms [of x k] by (auto simp: d' bucket_law split: if_splits)
  ultimately show ?thesis by (auto simp: meta_inv_def)
qed

subsection \<open>Dropping a reference\<close>

lemma drop_reference_okD:
  assumes "drop_reference at nm d = Inr (d', orphaned)"
  obtains (unnamed) "b_get (bucketNamespace d) nm = None \<or>
      (\<exists>h. b_get (bucketNamespace d) nm = Some h \<and> b_get (bucketObjects d) h = None)" "orphaned = []"
    "d' = d\<lparr>bucketNamespace := b_del nm (bucketNamespace d), bucketPaths := b_del nm (bucketPaths d),
            bucketModTimes := b_del nm (bucketModTimes d)\<rparr>"
  | (named) h v m0 m2 where "b_get (bucketNamespace d) nm = Some h" "b_get (bucketObjects d) h = Some v"
    "decodeObjectMeta v = Inr m0" "h \<noteq> []"
    "m2 = (if sint (RefCount m0 - 1) \<le> 0 then m0\<lparr>RefCount := 0, DeletedAt := at\<rparr>
           else m0\<lparr>RefCount := RefCount m0 - 1\<rparr>)"
    "orphaned = (if sint (RefCount m0 - 1) \<le> 0 then h else [])"
    "d' = d\<lparr>bucketObjects := b_upd h (encode m2) (bucketObjects d),
            bucketNamespace := b_del nm (bucketNamespace d), bucketPaths := b_del nm (bucketPaths d),
            bucketModTimes := b_del nm (bucketModTimes d)\<rparr>"
proof (cases "b_get (bucketNamespace d) nm")
  case None
  with assms show thesis by (intro unnamed) (auto simp: drop_reference_def)
next
  case (Some h)
  show thesis
  proof (cases "b_get (bucketObjects d) h")
    case None
    with Some assms show thesis by (intro unnamed) (auto simp: drop_reference_def)
  next
    case v: (Some v)
    with Some assms obtain m0 where m0: "decodeObjectMeta v = Inr m0"
      by (cases "decodeObjectMeta v") (auto simp: drop_reference_def)
    let ?dead = "sint (RefCount m0 - 1) \<le> 0"
    show thesis
      by (rule named [OF Some v m0 _ refl])
        (use assms Some v m0 in \<open>auto simp: drop_reference_def Let_def res_bind_Inr_conv put_or_ok_iff
          split: if_splits\<close>)
  qed
qed

lemma drop_reference_inv:
  assumes "core_inv d" "\<And>h v. b_get (bucketObjects d) h = Some v \<Longrightarrow> object_ok n d h v"
    "\<And>x h. x \<noteq> nm \<Longrightarrow> b_get (bucketNamespace d) x = Some h \<Longrightarrow>
        b_get (bucketObjects d) h \<noteq> None \<and> b_get (bucketTombstones d) x = None"
    "drop_reference at nm d = Inr (d', orphaned)"
  shows "meta_inv n d' \<and> bucketNamespace d' = b_del nm (bucketNamespace d) \<and>
    bucketTombstones d' = bucketTombstones d \<and>
    (orphaned \<noteq> [] \<longrightarrow> content_hash orphaned \<and> live d' orphaned = {})"
proof -
  note [simp] = assms(1) [unfolded core_inv_def]
  have ns: "bucketNamespace d' = b_del nm (bucketNamespace d)" "bucketTombstones d' = bucketTombstones d"
    and pm: "bucketPaths d' = b_del nm (bucketPaths d)" "bucketModTimes d' = b_del nm (bucketModTimes d)"
    using assms(4) by (cases rule: drop_reference_okD; simp)+
  have lv: "live d' k = live d k - {nm}" for k by (auto simp: live_def ns bucket_law)
  have other: "object_ok n d' k w" if "b_get (bucketObjects d) k = Some w" for k w
    by (rule object_ok_mono [OF assms(2) [OF that]]) (simp_all add: lv card_Diff1_le)
  from assms(4) show ?thesis
  proof (cases rule: drop_reference_okD)
    case unnamed
    have obj: "bucketObjects d' = bucketObjects d" by (simp add: unnamed(3))
    show ?thesis using assms(3) other
      by (auto simp: meta_inv_def core_inv_def unnamed(2) ns pm obj bucket_law split: if_splits)
  next
    case (named h v m0 m2)
    have obj: "bucketObjects d' = b_upd h (encode m2) (bucketObjects d)" by (simp add: named(7))
    have nm: "nm \<in> live d h" using named(1) by (simp add: live_def)
    from assms(2) [OF named(2)] named(3) have ok: "content_hash h" "plain_meta m0"
      "int (card (live d h)) \<le> sint (RefCount m0)" "sint (RefCount m0) \<le> int n"
      by (auto simp: object_ok_def)
    have pos: "0 < card (live d h)" using nm by (auto simp: card_gt_0_iff)
    then have r: "sint (RefCount m0 - 1) = sint (RefCount m0) - 1" using ok(3) by (intro sint_pred) linarith
    have c: "int (card (live d' h)) = int (card (live d h)) - 1" using nm pos by (simp add: lv of_nat_diff)
    have m2: "plain_meta m2" "int (card (live d' h)) \<le> sint (RefCount m2)" "sint (RefCount m2) \<le> int n"
      using ok r c by (auto simp: named(5) plain_meta_def)
    have objs: "object_ok n d' k w" if "b_get (bucketObjects d') k = Some w" for k w
    proof (cases "k = h")
      case True
      with that m2 ok(1) show ?thesis by (auto simp: object_ok_def obj bucket_law decode_plain)
    next
      case False
      with that other show ?thesis by (simp add: obj bucket_law)
    qed
    have "live d' h = {}" if "orphaned \<noteq> []"
    proof -
      have "sint (RefCount m0 - 1) \<le> 0" using that by (auto simp: named(6) split: if_splits)
      then have "card (live d' h) = 0" using r c ok(3) by linarith
      then show ?thesis by simp
    qed
    moreover have "core_inv d'" by (auto simp: core_inv_def obj ns pm)
    moreover have "b_get (bucketObjects d') k \<noteq> None \<and> b_get (bucketTombstones d') x = None"
      if "b_get (bucketNamespace d') x = Some k" for x k
      using that assms(3) [of x k] by (auto simp: ns obj bucket_law split: if_splits)
    ultimately show ?thesis
      using objs ok(1) ns by (auto simp: meta_inv_def named(6) split: if_splits)
  qed
qed

lemma delete_tx_inv:
  assumes "meta_inv n d" "delete_tx at nm d = Inr (d', orphaned)"
  shows "meta_inv n d' \<and> bucketNamespace d' = b_del nm (bucketNamespace d) \<and>
    bucketTombstones d' = b_upd nm (PutUint64 at) (bucketTombstones d) \<and>
    (orphaned \<noteq> [] \<longrightarrow> content_hash orphaned \<and> live d' orphaned = {})"
proof -
  let ?d = "d\<lparr>bucketTombstones := b_upd nm (PutUint64 at) (bucketTombstones d)\<rparr>"
  from assms(2) have dr: "drop_reference at nm ?d = Inr (d', orphaned)"
    by (auto simp: delete_tx_def res_bind_Inr_conv put_or_ok_iff)
  have lv: "live ?d k = live d k" for k by (simp add: live_def)
  have core: "core_inv d" using assms(1) by (simp add: meta_inv_def)
  then have "core_inv ?d" by (auto simp: core_inv_def)
  moreover have "object_ok n ?d h v" if "b_get (bucketObjects ?d) h = Some v" for h v
    using that assms(1) by (auto simp: meta_inv_def object_ok_def lv)
  moreover have "b_get (bucketObjects ?d) h \<noteq> None \<and> b_get (bucketTombstones ?d) x = None"
    if "x \<noteq> nm" "b_get (bucketNamespace ?d) x = Some h" for x h
    using that assms(1) core by (auto simp: meta_inv_def core_inv_def bucket_law)
  ultimately show ?thesis using drop_reference_inv [OF _ _ _ dr, of n] by simp
qed

lemma forget_object_inv:
  assumes "meta_inv n d" "live d h = {}"
  shows "meta_inv n (d\<lparr>bucketObjects := b_del h (bucketObjects d)\<rparr>)"
proof -
  have lv: "live (d\<lparr>bucketObjects := x\<rparr>) k = live d k" for x k by (simp add: live_def)
  have "h \<noteq> k" if "b_get (bucketNamespace d) x = Some k" for x k
    using that assms(2) by (auto simp: live_def)
  then show ?thesis using assms(1)
    by (auto simp: meta_inv_def core_inv_def object_ok_def lv bucket_law split: if_splits)
qed

section \<open>The store\<close>

definition cas_inv ::
  "('b \<Rightarrow> string \<Rightarrow> bytes option) \<Rightarrow> ('b \<Rightarrow> bool) \<Rightarrow> nat \<Rightarrow> 'b CASStore \<Rightarrow> bool" where
  "cas_inv content sound n s \<longleftrightarrow> meta_inv n (st_db s) \<and> sound (st_blobs s) \<and>
     (\<forall>h c. content_hash h \<longrightarrow> content (st_blobs s) h = Some c \<longrightarrow> HashBytes c = h) \<and>
     (\<forall>nm h. b_get (bucketNamespace (st_db s)) nm = Some h \<longrightarrow> content (st_blobs s) h \<noteq> None)"

lemma meta_inv_mono: "meta_inv n d \<Longrightarrow> n \<le> n' \<Longrightarrow> meta_inv n' d"
  unfolding meta_inv_def using object_ok_mono [where d = d and d' = d] by blast

lemma cas_inv_mono: "cas_inv content sound n s \<Longrightarrow> n \<le> n' \<Longrightarrow> cas_inv content sound n' s"
  unfolding cas_inv_def using meta_inv_mono by blast

lemma invalidateCache_db [simp]:
  "st_db (invalidateCache nm s) = st_db s" "st_blobs (invalidateCache nm s) = st_blobs s"
  by (simp_all add: invalidateCache_def)

lemma cas_inv_new: "sound b \<Longrightarrow> (\<forall>h. content b h = None) \<Longrightarrow> cas_inv content sound 0 (newCASStore base b)"
  by (simp add: cas_inv_def newCASStore_def meta_inv_def core_inv_def initBuckets_def)

locale cas_backend = blob_store +
  fixes ex :: "string \<Rightarrow> 'b \<Rightarrow> bool res"
  assumes presence: "BlobExists bs = Some ex"
begin

lemma named_hash: "cas_inv content sound n s \<Longrightarrow> b_get (bucketNamespace (st_db s)) nm = Some h \<Longrightarrow> content_hash h"
  unfolding cas_inv_def meta_inv_def object_ok_def by blast

text \<open>What the blob part of a put leaves behind, successful or not.\<close>

lemma put_blob_step_inv:
  assumes s: "cas_inv content sound n s" and h: "content_hash h"
    and r: "fin = None \<longrightarrow> HashBytes (concat cs) = h"
    and step: "put_blob_step bs barrier h (Some (cs, fin)) s = (e, b)"
  shows "sound b" "\<And>k c. content_hash k \<Longrightarrow> content b k = Some c \<Longrightarrow> HashBytes c = k"
    "\<And>k. content_hash k \<Longrightarrow> content (st_blobs s) k \<noteq> None \<Longrightarrow> content b k \<noteq> None"
    "e = None \<Longrightarrow> content b h \<noteq> None"
proof -
  let ?b0 = "st_blobs s"
  have i: "sound ?b0" and hb: "\<And>k c. content_hash k \<Longrightarrow> content ?b0 k = Some c \<Longrightarrow> HashBytes c = k"
    using s by (auto simp: cas_inv_def)
  consider (same) "b = ?b0" "e = None \<Longrightarrow> content ?b0 h \<noteq> None"
    | (put) e' where "PutBlob bs h (cs, fin) ?b0 = (e', b)" "e = None \<Longrightarrow> e' = None"
  proof (cases "hasInternal h s")
    case False
    obtain e' b' where p: "PutBlob bs h (cs, fin) ?b0 = (e', b')" by fastforce
    with False step have "b = b'" "e = None \<Longrightarrow> e' = None"
      by (auto simp: put_blob_step_def split: option.splits)
    with p put show thesis by blast
  next
    case True
    show thesis
    proof (cases "ex h ?b0")
      case (Inl x)
      with True step presence have "b = ?b0" "e \<noteq> None" by (auto simp: put_blob_step_def)
      with same show thesis by blast
    next
      case (Inr p)
      show thesis
      proof (cases p)
        case True
        with Inr \<open>hasInternal h s\<close> step presence have "b = ?b0" by (auto simp: put_blob_step_def)
        moreover have "content ?b0 h \<noteq> None" using exists_ok [OF i h presence Inr] True by simp
        ultimately show thesis using same by blast
      next
        case False
        obtain e' b' where p: "PutBlob bs h (cs, fin) ?b0 = (e', b')" by fastforce
        with False Inr \<open>hasInternal h s\<close> step presence have "b = b'" "e = None \<Longrightarrow> e' = None"
          by (auto simp: put_blob_step_def split: option.splits)
        with p put show thesis by blast
      qed
    qed
  qed
  then have "sound b \<and> (\<forall>k c. content_hash k \<longrightarrow> content b k = Some c \<longrightarrow> HashBytes c = k) \<and>
    (\<forall>k. content_hash k \<longrightarrow> content ?b0 k \<noteq> None \<longrightarrow> content b k \<noteq> None) \<and>
    (e = None \<longrightarrow> content b h \<noteq> None)"
  proof cases
    case same
    then show ?thesis using i hb by blast
  next
    case (put e')
    have b: "b = snd (PutBlob bs h (cs, fin) ?b0)" using put(1) by simp
    have other: "content b k = content ?b0 k" if "content_hash k" "k \<noteq> h" for k
      unfolding b using put_other [OF i h that] .
    have hh: "content b h = content ?b0 h \<or> (content b h = Some (concat cs) \<and> fin = None)"
    proof (cases e')
      case None
      then show ?thesis using put_ok [OF i h] put(1) by blast
    next
      case (Some x)
      then show ?thesis using put_err [OF i h] put(1) by blast
    qed
    have "sound b" unfolding b by (rule put_sound [OF i h])
    moreover have "\<forall>k c. content_hash k \<longrightarrow> content b k = Some c \<longrightarrow> HashBytes c = k"
    proof (intro allI impI)
      fix k c assume k: "content_hash k" "content b k = Some c"
      show "HashBytes c = k"
      proof (cases "k = h")
        case True
        with hh k hb [OF k(1)] r show ?thesis by auto
      qed (use k other hb in auto)
    qed
    moreover have "\<forall>k. content_hash k \<longrightarrow> content ?b0 k \<noteq> None \<longrightarrow> content b k \<noteq> None"
    proof (intro allI impI)
      fix k assume k: "content_hash k" "content ?b0 k \<noteq> None"
      show "content b k \<noteq> None" using hh other [OF k(1)] k(2) by (cases "k = h") auto
    qed
    moreover have "content b h \<noteq> None" if "e = None"
      using put_ok [OF i h] put that by fastforce
    ultimately show ?thesis by blast
  qed
  then show "sound b" "\<And>k c. content_hash k \<Longrightarrow> content b k = Some c \<Longrightarrow> HashBytes c = k"
    "\<And>k. content_hash k \<Longrightarrow> content ?b0 k \<noteq> None \<Longrightarrow> content b k \<noteq> None"
    "e = None \<Longrightarrow> content b h \<noteq> None" by auto
qed

lemma Put_inv:
  assumes s: "cas_inv content sound n s" and h: "content_hash h" and n: "n < 2 ^ 63 - 1"
    and r: "fin = None \<longrightarrow> HashBytes (concat cs) = h"
  shows "cas_inv content sound (Suc n) (snd (Put bs barrier commit now nm h sz rp (Some (cs, fin)) s))"
proof -
  obtain e b where step: "put_blob_step bs barrier h (Some (cs, fin)) s = (e, b)" by fastforce
  note blob = put_blob_step_inv [OF s h r step]
  have nt: "\<not> HasPathTraversalChars h" using h by (rule content_hash_no_traversal)
  have live: "\<And>x k. b_get (bucketNamespace (st_db s)) x = Some k \<Longrightarrow> content b k \<noteq> None"
    using s named_hash [OF s] blob(3) unfolding cas_inv_def by blast
  have keep: "cas_inv content sound (Suc n) (s\<lparr>st_blobs := b\<rparr>)"
    using s blob(1,2) live by (auto simp: cas_inv_def intro: meta_inv_mono)
  show ?thesis
  proof (cases e)
    case (Some x)
    then show ?thesis using keep nt by (simp add: Put_def PutWithMetadata_def step)
  next
    case None
    show ?thesis
    proof (cases rule: Update_cases [of commit "put_tx now nm h sz rp [] [] []" "st_db s"])
      case (err x)
      then show ?thesis using keep nt None by (simp add: Put_def PutWithMetadata_def step)
    next
      case (ok d')
      have m: "meta_inv (Suc n) d'"
        using s put_tx_inv [OF _ h n ok(3)] by (simp add: cas_inv_def)
      have core: "b_inv (bucketNamespace (st_db s))"
        using s by (simp add: cas_inv_def meta_inv_def core_inv_def)
      from ok(3) have ns: "bucketNamespace d' = b_upd nm h (bucketNamespace (st_db s))"
        by (rule put_tx_okD) simp
      have "content b k \<noteq> None" if "b_get (bucketNamespace d') x = Some k" for x k
        using that live blob(4) [OF None] core by (auto simp: ns bucket_law split: if_splits)
      then show ?thesis using m blob(1,2) nt None ok(1)
        by (auto simp: Put_def PutWithMetadata_def step cas_inv_def)
    qed
  qed
qed

lemma delete_blob_step:
  assumes s: "cas_inv content sound n s" and o: "content_hash k" "live (st_db s) k = {}"
    and db: "DeleteBlob bs k (st_blobs s) = (e, b)"
  shows "cas_inv content sound n (s\<lparr>st_blobs := b\<rparr>)"
proof -
  let ?b0 = "st_blobs s"
  have i: "sound ?b0" using s by (simp add: cas_inv_def)
  have b: "b = snd (DeleteBlob bs k ?b0)" using db by simp
  have other: "content b x = content ?b0 x" if "content_hash x" "x \<noteq> k" for x
    unfolding b using del_other [OF i o(1) that] .
  have here: "content b k = None \<or> content b k = content ?b0 k"
    using del_ok [OF i o(1), of b] del_err [OF i o(1), of _ b] db by (cases e) auto
  have "sound b" unfolding b by (rule del_sound [OF i o(1)])
  moreover have "HashBytes c = x" if "content_hash x" "content b x = Some c" for x c
    using that s here other [OF that(1)] by (cases "x = k") (auto simp: cas_inv_def)
  moreover have "content b x \<noteq> None" if "b_get (bucketNamespace (st_db s)) nm = Some x" for nm x
  proof -
    have "x \<noteq> k" using that o(2) by (auto simp: live_def)
    then show ?thesis using other [of x] that s named_hash [OF s that] by (auto simp: cas_inv_def)
  qed
  ultimately show ?thesis using s by (simp add: cas_inv_def)
qed

lemma Delete_inv:
  assumes s: "cas_inv content sound n s"
  shows "cas_inv content sound n (snd (Delete bs commit commit2 now nm s))"
proof (cases "Update_val commit (delete_tx now nm) (st_db s)")
  case (Inl e)
  then show ?thesis using s by (simp add: Delete_def)
next
  case (Inr r)
  obtain d k where r: "r = (d, k)" by fastforce
  with Inr have tx: "delete_tx now nm (st_db s) = Inr (d, k)"
    by (auto simp: Update_val_def split: sum.splits if_splits)
  have m: "meta_inv n (st_db s)" using s by (simp add: cas_inv_def)
  note sound = delete_tx_inv [OF m tx]
  have core: "b_inv (bucketNamespace (st_db s))" using m by (simp add: meta_inv_def core_inv_def)
  have s1: "cas_inv content sound n (s\<lparr>st_db := d\<rparr>)"
    using s sound core by (auto simp: cas_inv_def bucket_law split: if_splits)
  show ?thesis
  proof (cases "k = []")
    case True
    then show ?thesis using s1 Inr r by (simp add: Delete_def cas_inv_def)
  next
    case False
    with sound have k: "content_hash k" "live d k = {}" by auto
    obtain e b where db: "DeleteBlob bs k (st_blobs s) = (e, b)" by fastforce
    have s2: "cas_inv content sound n (s\<lparr>st_db := d, st_blobs := b\<rparr>)"
      using delete_blob_step [OF s1, of k e b] k db by simp
    have s3: "cas_inv content sound n (s\<lparr>st_db := d\<lparr>bucketObjects := b_del k (bucketObjects d)\<rparr>, st_blobs := b\<rparr>)"
      using s2 forget_object_inv [of n d k] k by (auto simp: cas_inv_def)
    show ?thesis using s2 s3 False Inr r db
      by (cases e; cases commit2) (simp_all add: Delete_def Let_def cas_inv_def)
  qed
qed

end

interpretation local_cas: cas_backend local_ops local_content "\<lambda>_. True" local_healthy Local_BlobExists
  by unfold_locales (simp add: local_ops_def)

section \<open>A store with one object\<close>

definition demo_hash :: string where "demo_hash = HashBytes [1, 2, 3]"

definition demo_store :: "LocalBlobStore CASStore" where
  "demo_store = (newCASStore ''/srv/momo'' empty_local)
     \<lparr>st_db := initBuckets\<lparr>bucketNamespace := [(''f'', demo_hash)],
        bucketObjects := [(demo_hash, encode \<lparr>Size = 3, RefCount = 1, DeletedAt = 0, VectorClock = [],
          ShardKey = [], MetadataReplicas = []\<rparr>)],
        bucketModTimes := [(''f'', PutUint64 100)]\<rparr>,
      st_blobs := empty_local\<lparr>lb_files := [blobPath ''/srv/momo'' demo_hash \<mapsto> [1, 2, 3]]\<rparr>\<rparr>"

lemma demo_hash_facts [simp]:
  "content_hash demo_hash" "length demo_hash = 64" "demo_hash \<noteq> []" "\<not> HasPathTraversalChars demo_hash"
proof -
  show "content_hash demo_hash" "length demo_hash = 64" by (simp_all add: demo_hash_def)
  then show "demo_hash \<noteq> []" "\<not> HasPathTraversalChars demo_hash"
    using content_hash_no_traversal by fastforce+
qed

lemma demo_put:
  "Put local_ops None True 100 ''f'' demo_hash 3 [] (Some ([[1, 2], [3]], None))
     (newCASStore ''/srv/momo'' empty_local) = (None, demo_store)"
  by (simp add: Put_def PutWithMetadata_def put_blob_step_def hasInternal_def newCASStore_def initBuckets_def
      local_ops_def empty_local_put Update_def put_tx_def put_meta_def FileInfoLength_def MaxKeySize_def
      invalidateCache_def demo_store_def b_del_def)

end
