(* ===== verification/Gc.thy ===== *)
theory Gc
  imports Cas_Invariant
begin

text \<open>
  Garbage collection and the exchange of deletes, \<^verbatim>\<open>src/src/storage/gc.go\<close>: the sweep of objects
  without references, the expiry of tombstones, and the application of a tombstone that a peer
  sent. The sweep's cursor is taken to visit the entries the bucket held when it started.
\<close>

section \<open>The model\<close>

definition max64 :: "64 word \<Rightarrow> 64 word \<Rightarrow> 64 word" where
  "max64 a b = (if sint a > sint b then a else b)"

fun sweep_loop :: "(string \<times> bytes) list \<Rightarrow> bytes bucket \<Rightarrow> string list \<Rightarrow> 64 word \<Rightarrow>
    (bytes bucket \<times> string list \<times> 64 word) res" where
  "sweep_loop [] obj orphaned evicted = Inr (obj, orphaned, evicted)"
| "sweep_loop ((k, v) # rest) obj orphaned evicted =
     (if length v \<noteq> 24 then sweep_loop rest obj orphaned evicted
      else case decodeObjectMeta v of
        Inl e \<Rightarrow> Inl (wrap e)
      | Inr m \<Rightarrow>
          if sint (RefCount m) \<le> 0
          then sweep_loop rest (b_del k obj) (orphaned @ [k]) (evicted + max64 (Size m) 0)
          else sweep_loop rest obj orphaned evicted)"

definition sweep_tx :: "metadb \<Rightarrow> (metadb \<times> string list \<times> 64 word) res" where
  "sweep_tx d =
     res_bind (sweep_loop (bucketObjects d) (bucketObjects d) [] 0)
       (\<lambda>(obj, orphaned, evicted). Inr (d\<lparr>bucketObjects := obj\<rparr>, orphaned, evicted))"

definition delete_blobs :: "'b BlobStore \<Rightarrow> string list \<Rightarrow> 'b \<Rightarrow> 'b" where
  "delete_blobs bs hashes b = foldl (\<lambda>b h. snd (DeleteBlob bs h b)) b hashes"

definition sweepOrphanedBlobs :: "'b BlobStore \<Rightarrow> bool \<Rightarrow> 'b CASStore \<Rightarrow> err option \<times> 'b CASStore" where
  "sweepOrphanedBlobs bs commit s =
     (case Update_val commit sweep_tx (st_db s) of
        Inl e \<Rightarrow> (Some e, s)
      | Inr (d, orphaned, evicted) \<Rightarrow>
          (None, s\<lparr>st_db := d, st_blobs := delete_blobs bs orphaned (st_blobs s),
                   st_gcEvicted := (if orphaned \<noteq> [] then st_gcEvicted s + evicted else st_gcEvicted s)\<rparr>))"

definition expired :: "64 word \<Rightarrow> bytes \<Rightarrow> bool" where
  "expired limit v \<longleftrightarrow> length v < 8 \<or> sint (Uint64 (take 8 v)) < sint limit"

definition sweepExpiredTombstones ::
  "bool \<Rightarrow> 64 word \<Rightarrow> 64 word \<Rightarrow> 'b CASStore \<Rightarrow> err option \<times> 'b CASStore" where
  "sweepExpiredTombstones commit now retention s =
     (let limit = now - retention;
          (e, d) = Update commit (\<lambda>d.
            let expiredNames = map fst (filter (\<lambda>(k, v). expired limit v) (bucketTombstones d))
            in Inr (d\<lparr>bucketTombstones := foldl (\<lambda>ts k. b_del k ts) (bucketTombstones d) expiredNames\<rparr>))
            (st_db s)
      in (e, s\<lparr>st_db := d\<rparr>))"

definition runGC ::
  "'b BlobStore \<Rightarrow> bool \<Rightarrow> bool \<Rightarrow> 64 word \<Rightarrow> 64 word \<Rightarrow> 'b CASStore \<Rightarrow> err option \<times> 'b CASStore" where
  "runGC bs commit commit2 now retention s =
     (case sweepOrphanedBlobs bs commit s of
        (Some e, s') \<Rightarrow> (Some e, s')
      | (None, s') \<Rightarrow>
          (case sweepExpiredTombstones commit2 now retention s' of
             (Some e, s'') \<Rightarrow> (Some e, s'')
           | (None, s'') \<Rightarrow> (None, s''\<lparr>st_gcRuns := st_gcRuns s'' + 1\<rparr>)))"

definition GetTombstones :: "'b CASStore \<Rightarrow> (string \<times> 64 word) list" where
  "GetTombstones s =
     map (\<lambda>(k, v). (k, Uint64 (take 8 v)))
       (filter (\<lambda>(k, v). length v \<ge> 8) (bucketTombstones (st_db s)))"

definition tombstone_tx :: "64 word \<Rightarrow> string \<Rightarrow> metadb \<Rightarrow> (metadb \<times> string) res" where
  "tombstone_tx deletedAt name d =
     (if (case b_get (bucketTombstones d) name of
            Some v \<Rightarrow> length v \<ge> 8 \<and> sint (Uint64 (take 8 v)) \<ge> sint deletedAt
          | None \<Rightarrow> False)
      then Inr (d, [])
      else res_bind (b_put name (PutUint64 deletedAt) (bucketTombstones d)) (\<lambda>ts.
        drop_reference deletedAt name (d\<lparr>bucketTombstones := ts\<rparr>)))"

definition ApplyTombstone ::
  "'b BlobStore \<Rightarrow> bool \<Rightarrow> bool \<Rightarrow> string \<Rightarrow> 64 word \<Rightarrow> 'b CASStore \<Rightarrow> err option \<times> 'b CASStore" where
  "ApplyTombstone bs commit commit2 name deletedAt s =
     (case Update_val commit (tombstone_tx deletedAt name) (st_db s) of
        Inl e \<Rightarrow> (Some e, s)
      | Inr (d, orphaned) \<Rightarrow>
          (None,
           if orphaned = [] then s\<lparr>st_db := d\<rparr>
           else case DeleteBlob bs orphaned (st_blobs s) of
             (Some _, b) \<Rightarrow> s\<lparr>st_db := d, st_blobs := b\<rparr>
           | (None, b) \<Rightarrow>
               s\<lparr>st_db := (if commit2 then d\<lparr>bucketObjects := b_del orphaned (bucketObjects d)\<rparr> else d),
                 st_blobs := b\<rparr>))"

section \<open>The sweep\<close>

definition unreferenced :: "bytes \<Rightarrow> bool" where
  "unreferenced v \<longleftrightarrow> length v = 24 \<and> sint (RefCount (projr (decodeObjectMeta v))) \<le> 0"

abbreviation dead_keys :: "(string \<times> bytes) list \<Rightarrow> string list" where
  "dead_keys es \<equiv> map fst (filter (\<lambda>(k, v). unreferenced v) es)"

lemma decode_24: "length v = 24 \<Longrightarrow> \<exists>m. decodeObjectMeta v = Inr m"
  by (simp add: decodeObjectMeta_def)

lemma sweep_loop_spec:
  "\<exists>n'. sweep_loop es obj os n = Inr (foldl (\<lambda>b k. b_del k b) obj (dead_keys es), os @ dead_keys es, n')"
proof (induction es arbitrary: obj os n)
  case (Cons e es)
  obtain k v where e: "e = (k, v)" by fastforce
  show ?case
  proof (cases "length v = 24")
    case True
    then obtain m where m: "decodeObjectMeta v = Inr m" using decode_24 by blast
    show ?thesis
    proof (cases "sint (RefCount m) \<le> 0")
      case dead: True
      then show ?thesis using True m Cons.IH [of "b_del k obj" "os @ [k]"] by (simp add: e unreferenced_def)
    next
      case False
      then show ?thesis using True m Cons.IH [of obj os] by (simp add: e unreferenced_def)
    qed
  next
    case False
    then show ?thesis using Cons.IH [of obj os] by (simp add: e unreferenced_def)
  qed
qed simp

lemma length_encode: "length (encode m) \<ge> 36"
  by (simp add: encode_def Let_def)

lemma length_encode_24: "length (encode m) \<noteq> 24"
  using length_encode [of m] by simp

lemma sweep_loop_current:
  "\<forall>(k, v) \<in> set es. length v \<noteq> 24 \<Longrightarrow> sweep_loop es obj os n = Inr (obj, os, n)"
  by (induction es obj os n rule: sweep_loop.induct) auto

text \<open>
  The sweep only considers 24-byte records. A store whose object records are in the format
  that \<open>encode\<close> writes keeps every one of them, with or without references.
\<close>

theorem sweepOrphanedBlobs_skips_current_format:
  assumes "\<forall>(k, v) \<in> set (bucketObjects (st_db s)). \<exists>m. v = encode m"
  shows "sweepOrphanedBlobs bs True s = (None, s)"
proof -
  have "\<forall>(k, v) \<in> set (bucketObjects (st_db s)). length v \<noteq> 24"
    using assms length_encode_24 by fastforce
  then show ?thesis
    by (simp add: sweepOrphanedBlobs_def sweep_tx_def Update_val_def sweep_loop_current delete_blobs_def)
qed

lemma foldl_b_del: "foldl (\<lambda>b k. b_del k b) b ks = filter (\<lambda>(k, v). k \<notin> set ks) b"
  by (induction ks arbitrary: b) (auto simp: b_del_def intro!: filter_cong)

definition orphan_store :: "LocalBlobStore CASStore" where
  "orphan_store = (newCASStore ''/srv/momo'' empty_local)\<lparr>st_db := initBuckets\<lparr>bucketObjects :=
     [(''h'', encode \<lparr>Size = 1, RefCount = 0, DeletedAt = 9, VectorClock = [], ShardKey = [],
        MetadataReplicas = []\<rparr>)]\<rparr>\<rparr>"

theorem sweepOrphanedBlobs_skips_current_format_witness:
  "sweepOrphanedBlobs local_ops True orphan_store = (None, orphan_store)"
  by (rule sweepOrphanedBlobs_skips_current_format) (auto simp: orphan_store_def)

lemma dead_keys_live:
  assumes "meta_inv n d" "k \<in> set (dead_keys (bucketObjects d))"
  shows "content_hash k \<and> live d k = {}"
proof -
  from assms(2) obtain v where v: "(k, v) \<in> set (bucketObjects d)" "unreferenced v" by auto
  have "b_inv (bucketObjects d)" using assms(1) by (simp add: meta_inv_def core_inv_def)
  with v(1) have "b_get (bucketObjects d) k = Some v"
    using bolt.in_entries_iff [of "bucketObjects d" k v] by simp
  with assms(1) have "object_ok n d k v" by (auto simp: meta_inv_def)
  then obtain m where m: "content_hash k" "decodeObjectMeta v = Inr m" "int (card (live d k)) \<le> sint (RefCount m)"
    by (auto simp: object_ok_def)
  have "sint (RefCount m) \<le> 0" using v(2) m(2) by (simp add: unreferenced_def)
  then have "card (live d k) = 0" using m(3) by linarith
  with m(1) show ?thesis by simp
qed

lemma forget_objects_inv:
  assumes "meta_inv n d" "\<forall>k \<in> set ks. live d k = {}"
  shows "meta_inv n (d\<lparr>bucketObjects := foldl (\<lambda>b k. b_del k b) (bucketObjects d) ks\<rparr>)"
  using assms
proof (induction ks arbitrary: d)
  case (Cons k ks)
  have lv: "live (d\<lparr>bucketObjects := x\<rparr>) j = live d j" for x j by (simp add: live_def)
  from Cons.IH [of "d\<lparr>bucketObjects := b_del k (bucketObjects d)\<rparr>"] forget_object_inv [of n d k] Cons.prems
  show ?case by (simp add: lv)
qed simp

context cas_backend
begin

lemma delete_blobs_inv:
  assumes "cas_inv content sound n s" "\<forall>k \<in> set ks. content_hash k \<and> live (st_db s) k = {}"
  shows "cas_inv content sound n (s\<lparr>st_blobs := delete_blobs bs ks (st_blobs s)\<rparr>)"
  using assms
proof (induction ks arbitrary: s)
  case (Cons k ks)
  let ?s = "s\<lparr>st_blobs := snd (DeleteBlob bs k (st_blobs s))\<rparr>"
  have "cas_inv content sound n ?s"
    using delete_blob_step [OF Cons.prems(1), of k] Cons.prems(2) by (metis list.set_intros(1) prod.collapse)
  from Cons.IH [OF this] Cons.prems(2) show ?case by (simp add: delete_blobs_def)
qed (simp add: delete_blobs_def)

lemma sweepOrphanedBlobs_inv:
  assumes s: "cas_inv content sound n s"
  shows "cas_inv content sound n (snd (sweepOrphanedBlobs bs commit s))"
proof -
  let ?d = "st_db s"
  let ?ks = "dead_keys (bucketObjects ?d)"
  let ?d' = "?d\<lparr>bucketObjects := foldl (\<lambda>b k. b_del k b) (bucketObjects ?d) ?ks\<rparr>"
  have m: "meta_inv n ?d" using s by (simp add: cas_inv_def)
  obtain ev where tx: "sweep_tx ?d = Inr (?d', ?ks, ev)"
    using sweep_loop_spec [of "bucketObjects ?d" "bucketObjects ?d" "[]" 0] by (auto simp: sweep_tx_def)
  have dead: "\<forall>k \<in> set ?ks. content_hash k \<and> live ?d k = {}" using dead_keys_live [OF m] by blast
  have "meta_inv n ?d'" using forget_objects_inv [OF m] dead by blast
  then have "cas_inv content sound n (s\<lparr>st_db := ?d'\<rparr>)" using s by (simp add: cas_inv_def)
  then have "cas_inv content sound n (s\<lparr>st_db := ?d', st_blobs := delete_blobs bs ?ks (st_blobs s)\<rparr>)"
    using delete_blobs_inv [of n "s\<lparr>st_db := ?d'\<rparr>" ?ks] dead by (simp add: live_def)
  then show ?thesis using s by (cases commit) (simp_all add: sweepOrphanedBlobs_def Update_val_def tx cas_inv_def)
qed

lemma sweepExpiredTombstones_inv:
  assumes s: "cas_inv content sound n s"
  shows "cas_inv content sound n (snd (sweepExpiredTombstones commit now retention s))"
proof -
  let ?ts = "bucketTombstones (st_db s)"
  have "b_inv ?ts" using s by (simp add: cas_inv_def meta_inv_def core_inv_def)
  then have "b_inv (foldl (\<lambda>ts k. b_del k ts) ?ts ks)" "b_get ?ts x = None \<Longrightarrow>
      b_get (foldl (\<lambda>ts k. b_del k ts) ?ts ks) x = None" for ks x
    by (auto simp: foldl_b_del b_inv_filter b_get_def map_of_eq_None_iff)
  then have "meta_inv n (st_db s\<lparr>bucketTombstones := foldl (\<lambda>ts k. b_del k ts) ?ts ks\<rparr>)" for ks
    using s by (auto simp: cas_inv_def meta_inv_def core_inv_def object_ok_def live_def)
  then show ?thesis using s
    by (cases commit) (simp_all add: sweepExpiredTombstones_def Update_def Let_def cas_inv_def)
qed

lemma runGC_inv:
  "cas_inv content sound n s \<Longrightarrow> cas_inv content sound n (snd (runGC bs commit commit2 now retention s))"
  using sweepOrphanedBlobs_inv [of n s commit]
    sweepExpiredTombstones_inv [of n "snd (sweepOrphanedBlobs bs commit s)" commit2 now retention]
  by (auto simp: runGC_def cas_inv_def split: prod.splits option.splits)

lemma ApplyTombstone_inv:
  assumes s: "cas_inv content sound n s"
  shows "cas_inv content sound n (snd (ApplyTombstone bs commit commit2 nm at s))"
proof (cases "Update_val commit (tombstone_tx at nm) (st_db s)")
  case (Inl e)
  then show ?thesis using s by (simp add: ApplyTombstone_def)
next
  case (Inr r)
  obtain d k where r: "r = (d, k)" by fastforce
  with Inr have tx: "tombstone_tx at nm (st_db s) = Inr (d, k)"
    by (auto simp: Update_val_def split: sum.splits if_splits)
  have m: "meta_inv n (st_db s)" using s by (simp add: cas_inv_def)
  have core: "b_inv (bucketNamespace (st_db s))" using m by (simp add: meta_inv_def core_inv_def)
  have res: "(d = st_db s \<and> k = []) \<or> (meta_inv n d \<and> bucketNamespace d = b_del nm (bucketNamespace (st_db s)) \<and>
      (k \<noteq> [] \<longrightarrow> content_hash k \<and> live d k = {}))"
  proof (cases "delete_tx at nm (st_db s) = Inr (d, k)")
    case True
    then show ?thesis using delete_tx_inv [OF m True] by blast
  next
    case False
    then show ?thesis using tx
      by (auto simp: tombstone_tx_def delete_tx_def res_bind_Inr_conv put_or_ok_iff b_put_ok_iff split: if_splits)
  qed
  have s1: "cas_inv content sound n (s\<lparr>st_db := d\<rparr>)"
    using s res core by (auto simp: cas_inv_def bucket_law split: if_splits)
  show ?thesis
  proof (cases "k = []")
    case True
    then show ?thesis using s1 Inr r by (simp add: ApplyTombstone_def)
  next
    case False
    with res have k: "content_hash k" "live d k = {}" by auto
    obtain e b where db: "DeleteBlob bs k (st_blobs s) = (e, b)" by fastforce
    have s2: "cas_inv content sound n (s\<lparr>st_db := d, st_blobs := b\<rparr>)"
      using delete_blob_step [OF s1, of k e b] k db by simp
    have s3: "cas_inv content sound n (s\<lparr>st_db := d\<lparr>bucketObjects := b_del k (bucketObjects d)\<rparr>, st_blobs := b\<rparr>)"
      using s2 forget_object_inv [of n d k] k by (auto simp: cas_inv_def)
    show ?thesis using s2 s3 False Inr r db by (cases e; cases commit2) (simp_all add: ApplyTombstone_def)
  qed
qed

end

section \<open>Tombstones\<close>

lemma key_of_filter:
  assumes "distinct (map fst xs)" "(k, v) \<in> set xs"
  shows "k \<in> set (map fst (filter (\<lambda>(k, v). P v) xs)) \<longleftrightarrow> P v"
proof
  assume "k \<in> set (map fst (filter (\<lambda>(k, v). P v) xs))"
  then obtain w where w: "(k, w) \<in> set xs" "P w" by auto
  then have "w = v" using eq_key_imp_eq_value [OF assms(1) w(1) assms(2)] by simp
  with w show "P v" by simp
next
  assume "P v"
  then have "(k, v) \<in> set (filter (\<lambda>(k, v). P v) xs)" using assms(2) by simp
  then show "k \<in> set (map fst (filter (\<lambda>(k, v). P v) xs))" by (metis fst_conv in_set_zipE list.set_map rev_image_eqI)
qed

lemma sweepExpired_tombstones:
  "bucketTombstones (st_db (snd (sweepExpiredTombstones True now retention s))) =
     filter (\<lambda>(k, v). k \<notin> set (map fst (filter (\<lambda>(k, v). expired (now - retention) v)
       (bucketTombstones (st_db s))))) (bucketTombstones (st_db s))"
  by (simp add: sweepExpiredTombstones_def Update_def Let_def foldl_b_del)

text \<open>
  The expiry sweep keeps exactly the tombstones that carry a time not before the retention
  limit, each with its time, and touches nothing else.
\<close>

theorem sweepExpiredTombstones_exact:
  assumes "b_inv (bucketTombstones (st_db s))" "sweepExpiredTombstones True now retention s = (e, s')"
  shows "GetTombstones s' = filter (\<lambda>(k, t). sint t \<ge> sint (now - retention)) (GetTombstones s) \<and>
    s' = s\<lparr>st_db := st_db s\<lparr>bucketTombstones := bucketTombstones (st_db s')\<rparr>\<rparr>"
proof
  let ?ts = "bucketTombstones (st_db s)" and ?lim = "now - retention"
  have s'_def: "s' = snd (sweepExpiredTombstones True now retention s)" using assms(2) by simp
  have keep: "filter (\<lambda>(k, v). k \<notin> set (map fst (filter (\<lambda>(k, v). expired ?lim v) ?ts))) ?ts =
      filter (\<lambda>(k, v). \<not> expired ?lim v) ?ts"
  proof (rule filter_cong [OF refl])
    fix e assume e: "e \<in> set ?ts"
    obtain k v where kv: "e = (k, v)" by fastforce
    have "distinct (map fst ?ts)" using bolt.entries_distinct [OF assms(1)] .
    then have "k \<in> set (map fst (filter (\<lambda>(k, v). expired ?lim v) ?ts)) \<longleftrightarrow> expired ?lim v"
      by (rule key_of_filter) (use e kv in simp)
    then show "(case e of (k, v) \<Rightarrow> k \<notin> set (map fst (filter (\<lambda>(k, v). expired ?lim v) ?ts))) =
        (case e of (k, v) \<Rightarrow> \<not> expired ?lim v)" by (simp add: kv)
  qed
  have "filter (\<lambda>(k, v). length v \<ge> 8) (filter (\<lambda>(k, v). \<not> expired ?lim v) ts) =
      filter (\<lambda>(k, v). sint (Uint64 (take 8 v)) \<ge> sint ?lim) (filter (\<lambda>(k, v). length v \<ge> 8) ts)"
    for ts :: "bytes bucket"
    unfolding filter_filter by (rule filter_cong) (auto simp: expired_def)
  then show "GetTombstones s' = filter (\<lambda>(k, t). sint t \<ge> sint ?lim) (GetTombstones s)"
    unfolding GetTombstones_def s'_def sweepExpired_tombstones keep
    by (simp add: filter_map comp_def split_def)
  show "s' = s\<lparr>st_db := st_db s\<lparr>bucketTombstones := bucketTombstones (st_db s')\<rparr>\<rparr>"
    by (simp add: s'_def sweepExpiredTombstones_def Update_def Let_def)
qed

theorem sweepExpiredTombstones_exact_witness:
  "GetTombstones (snd (sweepExpiredTombstones True 50 10
     ((newCASStore ''d'' empty_local)\<lparr>st_db := initBuckets\<lparr>bucketTombstones :=
        [(''a'', PutUint64 39), (''b'', PutUint64 40)]\<rparr>\<rparr>))) = [(''b'', 40)]"
proof -
  let ?s = "(newCASStore ''d'' empty_local)\<lparr>st_db := initBuckets\<lparr>bucketTombstones :=
        [(''a'', PutUint64 39), (''b'', PutUint64 40)]\<rparr>\<rparr>"
  have "b_inv (bucketTombstones (st_db ?s))" by (simp add: b_inv_def)
  from sweepExpiredTombstones_exact [OF this, of 50 10] show ?thesis
    by (simp add: GetTombstones_def prod_eq_iff)
qed

lemma drop_reference_names:
  "drop_reference at nm d = Inr (d', k) \<Longrightarrow> bucketNamespace d' = b_del nm (bucketNamespace d) \<and>
     bucketTombstones d' = bucketTombstones d"
  by (erule drop_reference_okD) auto

text \<open>
  \<open>ApplyTombstone\<close> never compares with the time the name was last written. Once a \<open>Put\<close> has
  cleared the name's tombstone, a tombstone of any age that arrives from a peer removes the name.
\<close>

theorem ApplyTombstone_stale:
  assumes "b_inv (bucketTombstones (st_db s))" "Put bs barrier True now nm h sz rp content s = (None, s1)"
    "ApplyTombstone bs True commit2 nm old s1 = (None, s2)"
  shows "GetHashForName nm s2 = Inl (Bare ENOENT)"
proof -
  from assms(2) obtain d where tx: "put_tx now nm h sz rp [] [] [] (st_db s) = Inr d" and s1: "st_db s1 = d"
    by (auto simp: Put_def PutWithMetadata_def Update_def split: if_splits prod.splits option.splits sum.splits)
  from tx have t: "bucketTombstones d = b_del nm (bucketTombstones (st_db s))" by (rule put_tx_okD) simp
  have none: "b_get (bucketTombstones d) nm = None" using assms(1) by (simp add: t bucket_law)
  have bi: "b_inv (bucketTombstones d)" using assms(1) by (auto simp: t)
  from assms(3) obtain d' k where tt: "tombstone_tx old nm d = Inr (d', k)"
    and s2: "bucketTombstones (st_db s2) = bucketTombstones d'"
    by (auto simp: ApplyTombstone_def Update_val_def s1 split: sum.splits if_splits prod.splits option.splits)
  from tt none have "bucketTombstones d' = b_upd nm (PutUint64 old) (bucketTombstones d)"
    by (auto simp: tombstone_tx_def res_bind_Inr_conv b_put_ok_iff dest!: drop_reference_names)
  then show ?thesis using bi by (simp add: GetHashForName_def s2 bucket_law)
qed

theorem ApplyTombstone_stale_witness:
  "\<exists>s2. ApplyTombstone local_ops True True ''f'' 1 demo_store = (None, s2) \<and>
     GetHashForName ''f'' demo_store = Inr demo_hash \<and> GetHashForName ''f'' s2 = Inl (Bare ENOENT)"
proof -
  have "fst (ApplyTombstone local_ops True True ''f'' 1 demo_store) = None"
    by (simp add: ApplyTombstone_def Update_val_def tombstone_tx_def drop_reference_def demo_store_def
        b_put_def MaxKeySize_def newCASStore_def initBuckets_def b_get_def decode_encode Let_def
        split: prod.splits option.splits)
  then obtain s2 where s2: "ApplyTombstone local_ops True True ''f'' 1 demo_store = (None, s2)"
    by (metis prod.collapse)
  have "b_inv (bucketTombstones (st_db (newCASStore ''/srv/momo'' empty_local)))"
    by (simp add: newCASStore_def initBuckets_def)
  from ApplyTombstone_stale [OF this demo_put s2] s2 show ?thesis
    by (simp add: GetHashForName_def demo_store_def newCASStore_def initBuckets_def b_get_def)
qed

end
