(* ===== verification/Integrity.thy ===== *)
theory Integrity
  imports Gc
begin

text \<open>
  Integrity at rest: the verifying reader and the scrub of \<^verbatim>\<open>src/src/storage/integrity.go\<close> and the
  read policies of \<^verbatim>\<open>src/src/storage/read_verifier.go\<close>.
\<close>

section \<open>Readers\<close>

text \<open>
  One \<^verbatim>\<open>Read\<close>: the bytes it returns and how it returns. A reader may report the end of its
  stream with the last bytes (\<open>eager\<close>) or in a read of its own.
\<close>

datatype rd_status = NilErr | EOF | RdErr err

definition end_status :: "err option \<Rightarrow> rd_status" where
  "end_status e = (case e of None \<Rightarrow> EOF | Some x \<Rightarrow> RdErr x)"

fun src_Read :: "bool \<Rightarrow> stream \<Rightarrow> bytes \<times> rd_status \<times> stream" where
  "src_Read eager ([], e) = ([], end_status e, ([], e))"
| "src_Read eager (c # cs, e) = (c, if eager \<and> cs = [] then end_status e else NilErr, (cs, e))"

record verifyingReader =
  vr_src :: stream
  vr_eager :: bool
  vr_h :: bytes
  vr_expected :: string
  vr_checked :: bool
  vr_corrupt :: "err option"

definition contentHashVerifiedError :: "string \<Rightarrow> err" where
  "contentHashVerifiedError key = IntegrityMismatch"

definition newVerifyingReader :: "bool \<Rightarrow> stream \<Rightarrow> string \<Rightarrow> verifyingReader" where
  "newVerifyingReader eager src expected =
     \<lparr>vr_src = src, vr_eager = eager, vr_h = [], vr_expected = expected, vr_checked = False, vr_corrupt = None\<rparr>"

text \<open>The callback a read fires, if any.\<close>

datatype rd_event = NoEvent | OnVerified | OnCorrupt

definition vr_Read :: "verifyingReader \<Rightarrow> bytes \<times> rd_status \<times> rd_event \<times> verifyingReader" where
  "vr_Read v =
     (case vr_corrupt v of
        Some e \<Rightarrow> ([], RdErr e, NoEvent, v)
      | None \<Rightarrow>
          (case src_Read (vr_eager v) (vr_src v) of (p, st, src) \<Rightarrow>
             let v1 = v\<lparr>vr_src := src, vr_h := (if length p > 0 then vr_h v @ p else vr_h v)\<rparr> in
             if st = EOF \<and> \<not> vr_checked v then
               let v2 = v1\<lparr>vr_checked := True\<rparr>; key = EncodeToString (Sum256 (vr_h v1)) in
               if key \<noteq> vr_expected v
               then let e = contentHashVerifiedError (vr_expected v)
                    in (p, RdErr e, OnCorrupt, v2\<lparr>vr_corrupt := Some e\<rparr>)
               else (p, EOF, OnVerified, v2)
             else (p, st, NoEvent, v1)))"

lemma vr_Read_NilErr:
  assumes "vr_Read v = (p, NilErr, ev, v')"
  shows "length (fst (vr_src v')) < length (fst (vr_src v))"
proof -
  obtain cs e where src: "vr_src v = (cs, e)" by fastforce
  show ?thesis using assms
    by (cases cs; cases e; cases "vr_corrupt v")
      (auto simp: vr_Read_def src Let_def end_status_def split: if_splits)
qed

text \<open>Reading to the end, as every consumer of a stream does (\<^verbatim>\<open>io.Copy\<close>, \<^verbatim>\<open>io.ReadAll\<close>).\<close>

function ReadAll :: "verifyingReader \<Rightarrow> bytes \<times> err option \<times> rd_event list \<times> verifyingReader" where
  "ReadAll v =
     (case vr_Read v of (p, st, ev, v') \<Rightarrow>
        (case st of
           EOF \<Rightarrow> (p, None, [ev], v')
         | RdErr e \<Rightarrow> (p, Some e, [ev], v')
         | NilErr \<Rightarrow> (case ReadAll v' of (q, e, evs, v'') \<Rightarrow> (p @ q, e, ev # evs, v''))))"
  by pat_completeness auto
termination
  by (relation "measure (\<lambda>v. length (fst (vr_src v)))") (auto dest: vr_Read_NilErr [OF sym])

declare ReadAll.simps [simp del]

lemma ReadAll_loop:
  "vr_src v = (cs, e) \<Longrightarrow> vr_corrupt v = None \<Longrightarrow> \<not> vr_checked v \<Longrightarrow>
     fst (ReadAll v) = concat cs \<and>
     fst (snd (ReadAll v)) =
       (case e of Some x \<Rightarrow> Some x
        | None \<Rightarrow> if HashBytes (vr_h v @ concat cs) = vr_expected v then None else Some IntegrityMismatch) \<and>
     (OnCorrupt \<in> set (fst (snd (snd (ReadAll v)))) \<longleftrightarrow>
        e = None \<and> HashBytes (vr_h v @ concat cs) \<noteq> vr_expected v) \<and>
     (OnVerified \<in> set (fst (snd (snd (ReadAll v)))) \<longleftrightarrow>
        e = None \<and> HashBytes (vr_h v @ concat cs) = vr_expected v)"
proof (induction cs arbitrary: v)
  case Nil
  then show ?case
    by (cases e) (auto simp: ReadAll.simps [of v] vr_Read_def end_status_def HashBytes_def contentHashVerifiedError_def Let_def)
next
  case (Cons c cs)
  let ?v = "v\<lparr>vr_src := (cs, e), vr_h := vr_h v @ c\<rparr>"
  show ?case
  proof (cases "vr_eager v \<and> cs = []")
    case True
    then show ?thesis using Cons.prems
      by (cases e) (auto simp: ReadAll.simps [of v] vr_Read_def end_status_def HashBytes_def
          contentHashVerifiedError_def Let_def)
  next
    case False
    have rd: "vr_Read v = (c, NilErr, NoEvent, ?v)"
      using Cons.prems False by (auto simp: vr_Read_def Let_def)
    have "ReadAll v = (case ReadAll ?v of (q, e, evs, v'') \<Rightarrow> (c @ q, e, NoEvent # evs, v''))"
      by (simp add: ReadAll.simps [of v] rd)
    moreover note Cons.IH [of ?v]
    ultimately show ?thesis using Cons.prems by (auto simp: split_def)
  qed
qed

text \<open>
  C23: reading through the verifying reader returns every byte of the blob and ends without an
  error exactly when the underlying stream does and the SHA-256 of all its bytes is the content
  address; on a mismatch it ends with the integrity error and fires the corruption callback.
\<close>

theorem verifyingReader_sound:
  "let r = ReadAll (newVerifyingReader eager (cs, e) key) in
     fst r = concat cs \<and>
     fst (snd r) = (case e of Some x \<Rightarrow> Some x
                    | None \<Rightarrow> if HashBytes (concat cs) = key then None else Some IntegrityMismatch) \<and>
     (OnCorrupt \<in> set (fst (snd (snd r))) \<longleftrightarrow> e = None \<and> HashBytes (concat cs) \<noteq> key)"
  using ReadAll_loop [of "newVerifyingReader eager (cs, e) key" cs e]
  by (simp add: newVerifyingReader_def Let_def)

section \<open>Read policies\<close>

text \<open>What a policy serves: the stream to verify against, and what a confirmed match marks.\<close>

record served =
  sv_src :: stream
  sv_expected :: "string option"
  sv_on_verified :: "string option"
  sv_on_corrupt :: "string option"

definition every_Verify :: "stream \<Rightarrow> string \<Rightarrow> served" where
  "every_Verify underlying hash =
     \<lparr>sv_src = underlying, sv_expected = Some hash, sv_on_verified = None, sv_on_corrupt = None\<rparr>"

definition cache_Verify :: "string list \<Rightarrow> stream \<Rightarrow> string \<Rightarrow> served" where
  "cache_Verify trusted underlying hash =
     \<lparr>sv_src = underlying, sv_expected = Some hash, sv_on_verified = Some hash, sv_on_corrupt = None\<rparr>"

definition isTrusted :: "string list \<Rightarrow> string \<Rightarrow> bool" where
  "isTrusted trusted hash \<longleftrightarrow> hash \<in> set trusted"

fun Verify :: "verifier \<Rightarrow> stream \<Rightarrow> string \<Rightarrow> served" where
  "Verify everyReadVerifier underlying hash = every_Verify underlying hash"
| "Verify (verifiedCache trusted) underlying hash = cache_Verify trusted underlying hash"

fun MarkTrusted :: "verifier \<Rightarrow> string \<Rightarrow> verifier" where
  "MarkTrusted everyReadVerifier hash = everyReadVerifier"
| "MarkTrusted (verifiedCache trusted) hash = verifiedCache (List.insert hash trusted)"

definition WithReadVerifier :: "string \<Rightarrow> 'b CASStore \<Rightarrow> 'b CASStore res" where
  "WithReadVerifier name s =
     (if name = ''everyread'' then Inr (s\<lparr>st_verifier := everyReadVerifier\<rparr>)
      else if name = ''verifiedcache'' then Inr (s\<lparr>st_verifier := verifiedCache []\<rparr>)
      else Inl (Wrap EINVAL))"

section \<open>The scrub\<close>

fun referenced_loop :: "(string \<times> bytes) list \<Rightarrow> string list" where
  "referenced_loop [] = []"
| "referenced_loop ((k, v) # rest) =
     (if length v < 24 then referenced_loop rest
      else case decodeObjectMeta v of
        Inl _ \<Rightarrow> referenced_loop rest
      | Inr m \<Rightarrow> if sint (RefCount m) > 0 then k # referenced_loop rest else referenced_loop rest)"

definition referencedBlobs :: "'b CASStore \<Rightarrow> string list" where
  "referencedBlobs s = referenced_loop (bucketObjects (st_db s))"

definition quarantine :: "'b BlobStore \<Rightarrow> bool \<Rightarrow> string \<Rightarrow> 'b CASStore \<Rightarrow> err option \<times> 'b CASStore" where
  "quarantine bs commit hash s =
     (case DeleteBlob bs hash (st_blobs s) of
        (Some e, b) \<Rightarrow> (Some e, s\<lparr>st_blobs := b\<rparr>)
      | (None, b) \<Rightarrow>
          (let (e, d) = Update commit (\<lambda>d. Inr (d\<lparr>bucketObjects := b_del hash (bucketObjects d)\<rparr>)) (st_db s)
           in (e, s\<lparr>st_blobs := b, st_db := d\<rparr>)))"

text \<open>
  \<^verbatim>\<open>scrubBlob\<close>: whether it was canceled, whether it quarantined the blob, or the error.
  \<open>closing\<close> is the store's done channel, \<open>close_err\<close> the result of closing the stream.
\<close>

definition scrubBlob ::
  "'b BlobStore \<Rightarrow> bool \<Rightarrow> err option \<Rightarrow> bool \<Rightarrow> string \<Rightarrow> 'b CASStore \<Rightarrow> (bool \<times> bool) res \<times> 'b CASStore" where
  "scrubBlob bs closing close_err commit hash s =
     (if closing then (Inr (True, False), s)
      else case GetBlob bs hash (st_blobs s) of
        Inl e \<Rightarrow> if e = Bare ENOENT then (Inr (False, False), s) else (Inl e, s)
      | Inr rc \<Rightarrow>
          (case HashReader rc of
             Inl e \<Rightarrow> (Inl e, s)
           | Inr digest \<Rightarrow>
               (case close_err of
                  Some e \<Rightarrow> (Inl e, s)
                | None \<Rightarrow>
                    if digest \<noteq> hash then
                      (case quarantine bs commit hash s of
                         (Some e, s') \<Rightarrow> (Inl e, s')
                       | (None, s') \<Rightarrow> (Inr (False, True), s'))
                    else (Inr (False, False), s\<lparr>st_verifier := MarkTrusted (st_verifier s) hash\<rparr>))))"

text \<open>
  One pass. \<open>env\<close> gives each blob the answers of its environment: whether the store is closing,
  the result of closing the stream, and whether the transaction commits. The result lists the
  quarantined hashes, which the code logs.
\<close>

fun scrub_loop ::
  "'b BlobStore \<Rightarrow> (string \<Rightarrow> bool \<times> err option \<times> bool) \<Rightarrow> string list \<Rightarrow> 'b CASStore \<Rightarrow>
   string list \<times> 'b CASStore" where
  "scrub_loop bs env [] s = ([], s)"
| "scrub_loop bs env (h # hs) s =
     (case env h of (closing, cerr, commit) \<Rightarrow>
        (case scrubBlob bs closing cerr commit h s of
           (Inl e, s') \<Rightarrow> scrub_loop bs env hs s'
         | (Inr (canceled, q), s') \<Rightarrow>
             if canceled then ([], s')
             else (case scrub_loop bs env hs s' of (qs, s'') \<Rightarrow> (if q then h # qs else qs, s''))))"

definition runScrub ::
  "'b BlobStore \<Rightarrow> (string \<Rightarrow> bool \<times> err option \<times> bool) \<Rightarrow> 'b CASStore \<Rightarrow> string list \<times> 'b CASStore" where
  "runScrub bs env s = scrub_loop bs env (referencedBlobs s) s"

lemma referenced_loop_set:
  "k \<in> set (referenced_loop es) \<longleftrightarrow>
     (\<exists>v m. (k, v) \<in> set es \<and> length v \<ge> 24 \<and> decodeObjectMeta v = Inr m \<and> sint (RefCount m) > 0)"
  by (induction es rule: referenced_loop.induct) (auto split: sum.splits)

lemma MarkTrusted_inv [simp]:
  "cas_inv content sound n (s\<lparr>st_verifier := v\<rparr>) = cas_inv content sound n s"
  by (simp add: cas_inv_def)

context cas_backend
begin

lemma scrubBlob_clean:
  assumes "cas_inv content sound n s" "content_hash h"
  shows "\<exists>r v. scrubBlob bs closing cerr commit h s = (r, s\<lparr>st_verifier := v\<rparr>) \<and> (\<forall>c. r \<noteq> Inr (c, True))"
proof -
  have same: "s\<lparr>st_verifier := st_verifier s\<rparr> = s" by simp
  have "HashReader rc = Inr d \<Longrightarrow> d = h" if "GetBlob bs h (st_blobs s) = Inr rc" for rc d
    using that get_ok [OF _ assms(2), of "st_blobs s" "fst rc"] assms
    by (cases rc) (auto simp: HashReader_eq cas_inv_def split: option.splits)
  then show ?thesis
    by (cases "closing"; cases "GetBlob bs h (st_blobs s)"; cases "HashReader (projr (GetBlob bs h (st_blobs s)))"; cases cerr)
      (auto simp: scrubBlob_def intro: exI [of _ "st_verifier s"] exI [of _ "MarkTrusted (st_verifier s) h"])
qed

lemma scrub_clean:
  "cas_inv content sound n s \<Longrightarrow> \<forall>h \<in> set hs. content_hash h \<Longrightarrow>
     fst (scrub_loop bs env hs s) = [] \<and> (\<exists>v. snd (scrub_loop bs env hs s) = s\<lparr>st_verifier := v\<rparr>)"
proof (induction hs arbitrary: s)
  case Nil
  then show ?case by (auto intro: exI [of _ "st_verifier s"])
next
  case (Cons h hs)
  obtain closing cerr commit where x: "env h = (closing, cerr, commit)" by (cases "env h")
  have "content_hash h" using Cons.prems(2) by simp
  then obtain r v where r: "scrubBlob bs closing cerr commit h s = (r, s\<lparr>st_verifier := v\<rparr>)" "\<forall>c. r \<noteq> Inr (c, True)"
    using scrubBlob_clean [OF Cons.prems(1)] by blast
  have IH: "fst (scrub_loop bs env hs (s\<lparr>st_verifier := v\<rparr>)) = [] \<and>
      (\<exists>w. snd (scrub_loop bs env hs (s\<lparr>st_verifier := v\<rparr>)) = s\<lparr>st_verifier := w\<rparr>)"
    using Cons.IH [of "s\<lparr>st_verifier := v\<rparr>"] Cons.prems by simp
  show ?case
  proof (cases r)
    case (Inl e)
    then show ?thesis using r IH by (simp add: x)
  next
    case (Inr p)
    then obtain c where "p = (c, False)" using r(2) by (cases p) (metis (full_types))
    then show ?thesis using Inr r IH by (auto simp: x split_def)
  qed
qed

lemma referencedBlobs_hashes:
  assumes "cas_inv content sound n s" "h \<in> set (referencedBlobs s)"
  shows "content_hash h"
proof -
  have inv: "b_inv (bucketObjects (st_db s))" "\<And>v. b_get (bucketObjects (st_db s)) h = Some v \<Longrightarrow> content_hash h"
    using assms(1) by (auto simp: cas_inv_def meta_inv_def core_inv_def object_ok_def)
  obtain v where "(h, v) \<in> set (bucketObjects (st_db s))"
    using assms(2) by (auto simp: referencedBlobs_def referenced_loop_set)
  then have "b_get (bucketObjects (st_db s)) h \<noteq> None"
    unfolding b_get_def map_of_eq_None_iff by (metis fst_conv image_eqI)
  then show ?thesis using inv(2) by blast
qed

lemma runScrub_clean:
  assumes "cas_inv content sound n s"
  shows "fst (runScrub bs env s) = []" "\<exists>v. snd (runScrub bs env s) = s\<lparr>st_verifier := v\<rparr>"
  using scrub_clean [OF assms, of "referencedBlobs s" env] referencedBlobs_hashes [OF assms]
  by (auto simp: runScrub_def)

lemma runScrub_inv:
  assumes "cas_inv content sound n s"
  shows "cas_inv content sound n (snd (runScrub bs env s))"
proof -
  obtain v where "snd (runScrub bs env s) = s\<lparr>st_verifier := v\<rparr>" using runScrub_clean(2) [OF assms] by blast
  then show ?thesis using assms by simp
qed

lemma quarantine_forgets:
  assumes "sound (st_blobs s)" "content_hash h" "b_inv (bucketObjects (st_db s))"
    "GetBlob bs h (st_blobs s) = Inr (cs, None)" "HashBytes (concat cs) \<noteq> h"
    "scrubBlob bs False None True h s = (Inr r, s')"
  shows "r = (False, True)" "content (st_blobs s') h = None" "b_get (bucketObjects (st_db s')) h = None"
proof -
  have ne: "HashReader (cs, None) = Inr (HashBytes (concat cs))" by (simp add: HashReader_eq)
  obtain e b where db: "DeleteBlob bs h (st_blobs s) = (e, b)" by fastforce
  have e: "e = None" using assms(4-6) db ne
    by (cases e) (auto simp: scrubBlob_def quarantine_def)
  then have s': "r = (False, True)" "s' = s\<lparr>st_blobs := b, st_db := (st_db s)
      \<lparr>bucketObjects := b_del h (bucketObjects (st_db s))\<rparr>\<rparr>"
    using assms(4-6) db ne by (auto simp: scrubBlob_def quarantine_def Update_def Let_def)
  show "r = (False, True)" "content (st_blobs s') h = None" "b_get (bucketObjects (st_db s')) h = None"
    using s' del_ok [OF assms(1,2)] db e assms(3) by (simp_all add: bucket_law)
qed

end

section \<open>The scrub on the local backend\<close>

text \<open>
  C24: a scrub of a store in which every object is intact quarantines nothing and touches neither
  metadata nor blobs, whatever the host answers.
\<close>

theorem runScrub_intact:
  assumes "cas_inv local_content (\<lambda>_. True) n s"
  shows "fst (runScrub local_ops env s) = [] \<and>
    st_db (snd (runScrub local_ops env s)) = st_db s \<and> st_blobs (snd (runScrub local_ops env s)) = st_blobs s"
proof -
  obtain v where "snd (runScrub local_ops env s) = s\<lparr>st_verifier := v\<rparr>"
    using local_cas.runScrub_clean(2) [OF assms] by blast
  then show ?thesis using local_cas.runScrub_clean(1) [OF assms] by simp
qed

lemma demo_inv: "cas_inv local_content (\<lambda>_. True) 1 demo_store"
proof -
  have "cas_inv local_content (\<lambda>_. True) 0 (newCASStore ''/srv/momo'' empty_local)"
    by (rule cas_inv_new) (simp_all add: local_content_def empty_local_def)
  from local_cas.Put_inv [OF this, of demo_hash None "[[1, 2], [3]]" None True 100 "''f''" 3 "[]"]
  show ?thesis by (simp add: demo_put) (simp add: demo_hash_def)
qed

theorem runScrub_intact_witness:
  "fst (runScrub local_ops (\<lambda>_. (False, None, True)) demo_store) = [] \<and>
   st_db (snd (runScrub local_ops (\<lambda>_. (False, None, True)) demo_store)) = st_db demo_store \<and>
   st_blobs (snd (runScrub local_ops (\<lambda>_. (False, None, True)) demo_store)) = st_blobs demo_store"
  by (rule runScrub_intact [OF demo_inv])

text \<open>
  When the scrub reads a blob whose bytes no longer hash to its address and does not fail, it
  reports the blob, and afterwards neither the bytes nor the object record are there.
\<close>

theorem scrubBlob_quarantines:
  assumes "content_hash h" "b_inv (bucketObjects (st_db s))"
    "Local_GetBlob h (st_blobs s) = Inr (cs, None)" "HashBytes (concat cs) \<noteq> h"
    "scrubBlob local_ops False None True h s = (Inr r, s')"
  shows "r = (False, True) \<and> local_content (st_blobs s') h = None \<and> b_get (bucketObjects (st_db s')) h = None"
  using local_cas.quarantine_forgets [where s = s and h = h and cs = cs and r = r and s' = s'] assms by (simp add: local_ops_def)

text \<open>An address that the bytes stored under it do not have.\<close>

definition rot_hash :: string where
  "rot_hash = (if HashBytes [9] = replicate 64 CHR ''0'' then replicate 64 CHR ''1'' else replicate 64 CHR ''0'')"

definition rotten_store :: "LocalBlobStore CASStore" where
  "rotten_store = (newCASStore ''/srv/momo'' empty_local)
     \<lparr>st_db := initBuckets\<lparr>bucketObjects := [(rot_hash, encode \<lparr>Size = 1, RefCount = 1, DeletedAt = 0,
        VectorClock = [], ShardKey = [], MetadataReplicas = []\<rparr>)]\<rparr>,
      st_blobs := empty_local\<lparr>lb_files := [blobPath ''/srv/momo'' rot_hash \<mapsto> [9]]\<rparr>\<rparr>"

lemma rot_hash_facts:
  "content_hash rot_hash" "HashBytes [9] \<noteq> rot_hash"
  by (auto simp: rot_hash_def content_hash_def hextable_def)

lemma rotten_get: "Local_GetBlob rot_hash (st_blobs rotten_store) = Inr ([[9]], None)"
  using content_hash_no_traversal [OF rot_hash_facts(1)]
  by (simp add: Local_GetBlob_def rotten_store_def empty_local_def quiet_host_def)

lemma rotten_scrub: "\<exists>s'. scrubBlob local_ops False None True rot_hash rotten_store = (Inr (False, True), s')"
proof -
  have del: "\<exists>b. Local_DeleteBlob rot_hash (st_blobs rotten_store) = (None, b)"
    using content_hash_no_traversal [OF rot_hash_facts(1)]
    by (simp add: Local_DeleteBlob_def rotten_store_def empty_local_def quiet_host_def)
  show ?thesis using del rot_hash_facts(2)
    by (auto simp: scrubBlob_def local_ops_def rotten_get HashReader_eq quarantine_def Update_def Let_def)
qed

theorem scrubBlob_quarantines_witness:
  "\<exists>s'. scrubBlob local_ops False None True rot_hash rotten_store = (Inr (False, True), s') \<and>
     local_content (st_blobs s') rot_hash = None \<and> b_get (bucketObjects (st_db s')) rot_hash = None"
proof -
  obtain s' where s': "scrubBlob local_ops False None True rot_hash rotten_store = (Inr (False, True), s')"
    using rotten_scrub by blast
  have inv: "b_inv (bucketObjects (st_db rotten_store))" by (simp add: rotten_store_def b_inv_def)
  show ?thesis
    using scrubBlob_quarantines [OF rot_hash_facts(1) inv rotten_get _ s'] rot_hash_facts(2) s' by simp
qed

end
