(* ===== verification/Rebuild.thy ===== *)
theory Rebuild
  imports Integrity
begin

text \<open>
  Self-healing, \<^verbatim>\<open>src/src/storage/rebuild.go\<close>: quarantine marks, the verified fetch from a surviving
  replica, the read path that falls back to it, and the repair pass; and the two operations of
  \<^verbatim>\<open>src/src/storage/storage.go\<close> that read content, \<open>Get\<close> and \<open>VerifyChecksum\<close>. The cluster seam
  \<^verbatim>\<open>RebuildSource\<close> is a record of functions about which nothing is assumed: a survivor may serve
  any bytes. Repairs of one pass run one after the other in the model.
\<close>

section \<open>Quarantine marks\<close>

definition quarantineMark :: "bool \<Rightarrow> string \<Rightarrow> 'b CASStore \<Rightarrow> err option \<times> 'b CASStore" where
  "quarantineMark commit hash s =
     (let (e, d) = Update commit (\<lambda>d. res_bind (b_put hash [1] (bucketQuarantine d))
            (\<lambda>q. Inr (d\<lparr>bucketQuarantine := q\<rparr>))) (st_db s)
      in (e, s\<lparr>st_db := d\<rparr>))"

definition quarantineClear :: "bool \<Rightarrow> string \<Rightarrow> 'b CASStore \<Rightarrow> err option \<times> 'b CASStore" where
  "quarantineClear commit hash s =
     (let (e, d) = Update commit (\<lambda>d. Inr (d\<lparr>bucketQuarantine := b_del hash (bucketQuarantine d)\<rparr>)) (st_db s)
      in (e, s\<lparr>st_db := d\<rparr>))"

definition quarantined :: "string \<Rightarrow> 'b CASStore \<Rightarrow> bool" where
  "quarantined hash s \<longleftrightarrow> b_get (bucketQuarantine (st_db s)) hash \<noteq> None"

definition quarantinedHashes :: "'b CASStore \<Rightarrow> string list" where
  "quarantinedHashes s = map fst (bucketQuarantine (st_db s))"

section \<open>The cluster seam\<close>

record Peer =
  pr_ID :: int
  pr_Domain :: string

record RebuildSource =
  Survivors :: "string \<Rightarrow> Peer list res"
  Fetch :: "string \<Rightarrow> Peer \<Rightarrow> stream res"
  Restore :: "string \<Rightarrow> stream \<Rightarrow> err option"

text \<open>Which steps on the temporary file fail.\<close>

record tmp_env =
  te_mkdir :: bool
  te_create :: bool
  te_write :: bool
  te_close :: bool
  te_open :: bool

definition storeVerified ::
  "'b BlobStore \<Rightarrow> tmp_env \<Rightarrow> string \<Rightarrow> stream \<Rightarrow> 'b CASStore \<Rightarrow> bool \<times> 'b CASStore" where
  "storeVerified bs te hash src s =
     (if te_mkdir te then (False, s)
      else if te_create te then (False, s)
      else if te_write te \<or> snd src \<noteq> None then (False, s)
      else if EncodeToString (Sum256 (concat (fst src))) \<noteq> hash then (False, s)
      else if te_close te then (False, s)
      else if te_open te then (False, s)
      else case PutBlob bs hash ([concat (fst src)], None) (st_blobs s) of
        (Some e, b) \<Rightarrow> (False, s\<lparr>st_blobs := b\<rparr>)
      | (None, b) \<Rightarrow> (True, s\<lparr>st_blobs := b\<rparr>))"

text \<open>
  The loop over the survivors. For each of them \<open>env\<close> says how the temporary file behaves and
  whether the transactions that mark and clear commit.
\<close>

fun fetch_loop ::
  "'b BlobStore \<Rightarrow> RebuildSource \<Rightarrow> (Peer \<Rightarrow> tmp_env \<times> bool \<times> bool) \<Rightarrow> string \<Rightarrow> Peer list \<Rightarrow> 'b CASStore \<Rightarrow>
   stream res \<times> 'b CASStore" where
  "fetch_loop bs src env hash [] s = (Inl (Bare ENOENT), s)"
| "fetch_loop bs src env hash (peer # rest) s =
     (case Fetch src hash peer of
        Inl _ \<Rightarrow> fetch_loop bs src env hash rest s
      | Inr rc \<Rightarrow>
          (case env peer of (te, mark, clear) \<Rightarrow>
             (case storeVerified bs te hash rc s of
                (False, s1) \<Rightarrow> fetch_loop bs src env hash rest (snd (quarantineMark mark hash s1))
              | (True, s1) \<Rightarrow>
                  (case GetBlob bs hash (st_blobs s1) of
                     Inl e \<Rightarrow> (Inl e, s1)
                   | Inr f \<Rightarrow>
                       (Inr f, snd (quarantineClear clear hash
                          (s1\<lparr>st_verifier := MarkTrusted (st_verifier s1) hash\<rparr>)))))))"

definition fetchVerifiedToLocal ::
  "'b BlobStore \<Rightarrow> RebuildSource option \<Rightarrow> (Peer \<Rightarrow> tmp_env \<times> bool \<times> bool) \<Rightarrow> string \<Rightarrow> 'b CASStore \<Rightarrow>
   stream res \<times> 'b CASStore" where
  "fetchVerifiedToLocal bs rebuildSource env hash s =
     (case rebuildSource of
        None \<Rightarrow> (Inl (Bare ENOENT), s)
      | Some src \<Rightarrow>
          (case Survivors src hash of
             Inl e \<Rightarrow> (Inl (wrap e), s)
           | Inr survivors \<Rightarrow> fetch_loop bs src env hash survivors s))"

section \<open>Reading\<close>

definition openVerifiedBlob ::
  "'b BlobStore \<Rightarrow> RebuildSource option \<Rightarrow> (Peer \<Rightarrow> tmp_env \<times> bool \<times> bool) \<Rightarrow> string \<Rightarrow> 'b CASStore \<Rightarrow>
   served res \<times> 'b CASStore" where
  "openVerifiedBlob bs rebuildSource env hash s =
     (let flagged = quarantined hash s;
          raw = (\<lambda>f. \<lparr>sv_src = f, sv_expected = None, sv_on_verified = None, sv_on_corrupt = None\<rparr>);
          degrade =
            (if \<not> st_degradedRead s \<or> rebuildSource = None then (Inl (Bare ENOENT), s)
             else case fetchVerifiedToLocal bs rebuildSource env hash s of
               (Inl e, s') \<Rightarrow> (Inl e, s')
             | (Inr f, s') \<Rightarrow> (Inr (raw f), s'))
      in case GetBlob bs hash (st_blobs s) of
           Inr f \<Rightarrow>
             if \<not> flagged then
               (if st_VerifyOnRead s then
                  (if st_degradedRead s \<and> rebuildSource \<noteq> None
                   then (Inr \<lparr>sv_src = f, sv_expected = Some hash, sv_on_verified = None,
                              sv_on_corrupt = Some hash\<rparr>, s)
                   else (Inr (Verify (st_verifier s) f hash), s))
                else (Inr (raw f), s))
             else degrade
         | Inl e \<Rightarrow> if e \<noteq> Bare ENOENT \<and> \<not> is_not_exist e then (Inl e, s) else degrade)"

text \<open>Reading what was opened to its end, with the callbacks the readers fire.\<close>

definition served_stream :: "served \<Rightarrow> stream" where
  "served_stream sv =
     (case sv_expected sv of
        None \<Rightarrow> sv_src sv
      | Some h \<Rightarrow> (fst (sv_src sv), fst (snd (ReadAll (newVerifyingReader False (sv_src sv) h)))))"

definition read_served :: "bool \<Rightarrow> served \<Rightarrow> 'b CASStore \<Rightarrow> bytes \<times> err option \<times> 'b CASStore" where
  "read_served commit sv s =
     (case sv_expected sv of
        None \<Rightarrow> (concat (fst (sv_src sv)), snd (sv_src sv), s)
      | Some h \<Rightarrow>
          (case ReadAll (newVerifyingReader False (sv_src sv) h) of (p, e, evs, _) \<Rightarrow>
             let s1 = (case sv_on_verified sv of
                   Some k \<Rightarrow> if OnVerified \<in> set evs then s\<lparr>st_verifier := MarkTrusted (st_verifier s) k\<rparr> else s
                 | None \<Rightarrow> s);
                 s2 = (case sv_on_corrupt sv of
                   Some k \<Rightarrow> if OnCorrupt \<in> set evs then snd (quarantineMark commit k s1) else s1
                 | None \<Rightarrow> s1)
             in (p, e, s2)))"

definition Get ::
  "'b BlobStore \<Rightarrow> RebuildSource option \<Rightarrow> (Peer \<Rightarrow> tmp_env \<times> bool \<times> bool) \<Rightarrow> string \<Rightarrow> 'b CASStore \<Rightarrow>
   (served \<times> FileMetadata) res \<times> 'b CASStore" where
  "Get bs rebuildSource env name s =
     (case GetHashForName name s of
        Inl e \<Rightarrow> (Inl e, s)
      | Inr hash \<Rightarrow>
          (case openVerifiedBlob bs rebuildSource env hash s of
             (Inl e, s') \<Rightarrow> (Inl e, s')
           | (Inr f, s') \<Rightarrow>
               (case meta_view name hash s' of
                  Inl e \<Rightarrow> (Inl e, s')
                | Inr meta \<Rightarrow> (Inr (f, meta), s'))))"

definition VerifyChecksum ::
  "'b BlobStore \<Rightarrow> RebuildSource option \<Rightarrow> (Peer \<Rightarrow> tmp_env \<times> bool \<times> bool) \<Rightarrow> bool \<Rightarrow> string \<Rightarrow>
   ChecksumRef list \<Rightarrow> 'b CASStore \<Rightarrow> err option \<times> 'b CASStore" where
  "VerifyChecksum bs rebuildSource env commit name refs s =
     (if refs = [] then (None, s)
      else case Get bs rebuildSource env name s of
        (Inl e, s') \<Rightarrow> (Some e, s')
      | (Inr (rc, meta), s') \<Rightarrow>
          (VerifyStream (served_stream rc) refs,
           if order (NewChecksumSetFromRefs refs) = [] then s' else snd (snd (read_served commit rc s'))))"

section \<open>Repairing\<close>

record RebuildConfig =
  rc_Interval :: int
  rc_Workers :: int
  rc_Target :: int
  rc_Source :: "RebuildSource option"
  rc_DegradedRead :: bool

text \<open>
  The part of \<^verbatim>\<open>StartRebuild\<close> that the read path observes. The source and the target it also
  stores are arguments of the operations that use them.
\<close>

definition StartRebuild :: "RebuildConfig \<Rightarrow> 'b CASStore \<Rightarrow> 'b CASStore" where
  "StartRebuild cfg s = s\<lparr>st_degradedRead := rc_DegradedRead cfg\<rparr>"

fun dedup_loop :: "string list \<Rightarrow> string list \<Rightarrow> string list \<Rightarrow> string list" where
  "dedup_loop [] seen all = all"
| "dedup_loop (h # hs) seen all =
     (if h \<in> set seen then dedup_loop hs seen all else dedup_loop hs (h # seen) (all @ [h]))"

definition rebuildSet :: "'b CASStore \<Rightarrow> string list" where
  "rebuildSet s = dedup_loop (referencedBlobs s @ quarantinedHashes s) [] []"

definition localCopyVerified :: "'b BlobStore \<Rightarrow> string \<Rightarrow> 'b CASStore \<Rightarrow> bool" where
  "localCopyVerified bs hash s =
     (case GetBlob bs hash (st_blobs s) of
        Inl _ \<Rightarrow> False
      | Inr rc \<Rightarrow> (case HashReader rc of Inl _ \<Rightarrow> False | Inr digest \<Rightarrow> digest = hash))"

text \<open>
  The first component is the stream handed to \<^verbatim>\<open>Restore\<close>, when it is called. \<open>closing\<close> is the
  done channel, \<open>clear\<close> whether the final transaction commits.
\<close>

definition repairBlob ::
  "'b BlobStore \<Rightarrow> (Peer \<Rightarrow> tmp_env \<times> bool \<times> bool) \<Rightarrow> bool \<Rightarrow> bool \<Rightarrow> string \<Rightarrow> RebuildConfig \<Rightarrow>
   RebuildSource option \<Rightarrow> 'b CASStore \<Rightarrow> stream option \<times> 'b CASStore" where
  "repairBlob bs env closing clear hash cfg rebuildSource s =
     (case rc_Source cfg of
        None \<Rightarrow> (None, s)
      | Some src \<Rightarrow>
          if rc_Target cfg \<le> 0 \<or> closing then (None, s)
          else (case Survivors src hash of
             Inl _ \<Rightarrow> (None, s)
           | Inr survivors \<Rightarrow>
               let localOK = localCopyVerified bs hash s;
                   verified = int (length survivors) + (if localOK then 1 else 0)
               in if \<not> quarantined hash s \<and> verified \<ge> rc_Target cfg then (None, s)
                  else
                    let (stream, s1) =
                      (case (if localOK then GetBlob bs hash (st_blobs s) else Inl (Bare ENOENT)) of
                         Inr f \<Rightarrow> (Inr f, s)
                       | Inl _ \<Rightarrow> fetchVerifiedToLocal bs rebuildSource env hash s)
                    in case stream of
                         Inl _ \<Rightarrow> (None, s1)
                       | Inr f \<Rightarrow>
                           (case Restore src hash f of
                              Some _ \<Rightarrow> (Some f, s1)
                            | None \<Rightarrow>
                                (Some f, (snd (quarantineClear clear hash s1))
                                   \<lparr>st_repairs := st_repairs s1 + 1\<rparr>))))"

text \<open>One pass over the working set, one repair after the other.\<close>

fun rebuild_loop ::
  "'b BlobStore \<Rightarrow> (string \<Rightarrow> Peer \<Rightarrow> tmp_env \<times> bool \<times> bool) \<Rightarrow> (string \<Rightarrow> bool \<times> bool) \<Rightarrow> RebuildConfig \<Rightarrow>
   RebuildSource option \<Rightarrow> string list \<Rightarrow> 'b CASStore \<Rightarrow> (string \<times> stream) list \<times> 'b CASStore" where
  "rebuild_loop bs env flags cfg src [] s = ([], s)"
| "rebuild_loop bs env flags cfg src (h # hs) s =
     (case flags h of (closing, clear) \<Rightarrow>
        if closing then ([], s)
        else (case repairBlob bs (env h) closing clear h cfg src s of (st, s1) \<Rightarrow>
          (case rebuild_loop bs env flags cfg src hs s1 of (sts, s2) \<Rightarrow>
             (case st of None \<Rightarrow> sts | Some f \<Rightarrow> (h, f) # sts, s2))))"

definition runRebuild ::
  "'b BlobStore \<Rightarrow> (string \<Rightarrow> Peer \<Rightarrow> tmp_env \<times> bool \<times> bool) \<Rightarrow> (string \<Rightarrow> bool \<times> bool) \<Rightarrow> RebuildConfig \<Rightarrow>
   RebuildSource option \<Rightarrow> 'b CASStore \<Rightarrow> (string \<times> stream) list \<times> 'b CASStore" where
  "runRebuild bs env flags cfg src s = rebuild_loop bs env flags cfg src (rebuildSet s) s"

section \<open>What a verified store leaves behind\<close>

lemma mark_clear_blobs [simp]:
  "st_blobs (snd (quarantineMark c h s)) = st_blobs s" "st_blobs (snd (quarantineClear c h s)) = st_blobs s"
  by (simp_all add: quarantineMark_def quarantineClear_def split_def Let_def)

lemma storeVerified_local:
  assumes "storeVerified local_ops te h r s = (ok, s')"
  shows "if ok then HashBytes (concat (fst r)) = h \<and> snd r = None \<and> local_content (st_blobs s') h = Some (concat (fst r))
         else s' = s"
proof (cases rule: Local_PutBlob_cases [of h "([concat (fst r)], None)" "st_blobs s"])
  case (err e)
  then show ?thesis using assms by (auto simp: storeVerified_def local_ops_def split: if_splits)
next
  case ok
  then show ?thesis using assms
    by (auto simp: storeVerified_def local_ops_def local_content_def HashBytes_def split: if_splits)
qed

lemma Local_GetBlob_content:
  "Local_GetBlob h b = Inr (cs, e) \<Longrightarrow> e = None \<and> local_content b h = Some (concat cs)"
  by (auto simp: Local_GetBlob_def local_content_def split: if_splits option.splits)

lemma fetch_loop_local:
  "fetch_loop local_ops src env h ps s = (Inr (cs, e), s') \<Longrightarrow>
     e = None \<and> HashBytes (concat cs) = h \<and> local_content (st_blobs s') h = Some (concat cs)"
proof (induction ps arbitrary: s)
  case (Cons p ps)
  show ?case
  proof (cases "Fetch src h p")
    case (Inl x)
    then show ?thesis using Cons by simp
  next
    case (Inr rc)
    obtain te mk cl where env: "env p = (te, mk, cl)" by (cases "env p")
    obtain ok s1 where st: "storeVerified local_ops te h rc s = (ok, s1)" by fastforce
    show ?thesis
    proof (cases ok)
      case False
      then show ?thesis using Cons.prems Inr env st
        by (intro Cons.IH [of "snd (quarantineMark mk h s1)"]) simp
    next
      case True
      note sv = storeVerified_local [OF st]
      have g: "Local_GetBlob h (st_blobs s1) = Inr (cs, e)" "st_blobs s' = st_blobs s1"
        using Cons.prems Inr env st True by (auto simp: local_ops_def split: sum.splits)
      show ?thesis using Local_GetBlob_content [OF g(1)] sv True g(2) by auto
    qed
  qed
qed simp

lemma fetchVerifiedToLocal_local:
  "fetchVerifiedToLocal local_ops src env h s = (Inr (cs, e), s') \<Longrightarrow>
     e = None \<and> HashBytes (concat cs) = h \<and> local_content (st_blobs s') h = Some (concat cs)"
  by (auto simp: fetchVerifiedToLocal_def split: option.splits sum.splits dest: fetch_loop_local)

section \<open>Reads never deliver corrupt content\<close>

lemma Verify_served:
  "sv_src (Verify v f h) = f" "sv_expected (Verify v f h) = Some h"
  by (cases v; simp add: every_Verify_def cache_Verify_def)+

lemma read_served_verified:
  assumes "sv_expected sv = Some h" "read_served commit sv s = (p, None, s')"
  shows "HashBytes p = h"
proof -
  obtain cs e where src: "sv_src sv = (cs, e)" by fastforce
  obtain q x evs v where r: "ReadAll (newVerifyingReader False (cs, e) h) = (q, x, evs, v)"
    by (cases "ReadAll (newVerifyingReader False (cs, e) h)") auto
  have "p = q" "x = None" using assms r by (simp_all add: read_served_def src Let_def)
  then show ?thesis
    using ReadAll_loop [of "newVerifyingReader False (cs, e) h" cs e] r
    by (auto simp: newVerifyingReader_def split: option.splits if_splits)
qed

lemma openVerifiedBlob_served:
  assumes "openVerifiedBlob local_ops src env h s = (Inr sv, s')" "st_VerifyOnRead s"
  shows "sv_expected sv = Some h \<or>
    (sv_expected sv = None \<and> snd (sv_src sv) = None \<and> HashBytes (concat (fst (sv_src sv))) = h)"
  using assms
  by (auto simp: openVerifiedBlob_def Let_def Verify_served split: sum.splits prod.splits if_splits
      dest!: fetchVerifiedToLocal_local)

lemma read_served_hash:
  assumes "openVerifiedBlob local_ops src env h s = (Inr sv, s1)" "st_VerifyOnRead s"
    "read_served commit sv s2 = (p, None, s3)"
  shows "HashBytes p = h"
  using openVerifiedBlob_served [OF assms(1,2)]
proof
  assume "sv_expected sv = Some h"
  then show ?thesis using assms(3) by (rule read_served_verified)
next
  assume "sv_expected sv = None \<and> snd (sv_src sv) = None \<and> HashBytes (concat (fst (sv_src sv))) = h"
  then show ?thesis using assms(3) by (simp add: read_served_def)
qed

text \<open>
  C2: with verification on, whatever the local files hold and whatever the survivors serve, content
  that \<open>Get\<close> opens and that is read to a clean end of file has the SHA-256 its metadata names.
\<close>

theorem Get_never_corrupt:
  assumes "st_VerifyOnRead s" "Get local_ops src env nm s = (Inr (sv, meta), s1)"
    "read_served commit sv s1 = (p, None, s2)"
  shows "HashBytes p = fm_Hash meta"
proof -
  obtain h where h: "openVerifiedBlob local_ops src env h s = (Inr sv, s1)" "meta_view nm h s1 = Inr meta"
    using assms(2) by (auto simp: Get_def split: sum.splits prod.splits)
  then have "fm_Hash meta = h"
    by (auto simp: meta_view_def res_bind_Inr_conv split: option.splits if_splits)
  then show ?thesis using read_served_hash [OF h(1) assms(1,3)] by simp
qed

section \<open>Repairs only propagate verified content\<close>

lemma localCopyVerified_local:
  "localCopyVerified local_ops h s \<Longrightarrow> GetBlob local_ops h (st_blobs s) = Inr (cs, e) \<Longrightarrow>
     e = None \<and> HashBytes (concat cs) = h"
  by (auto simp: localCopyVerified_def HashReader_eq split: option.splits)

lemma repairBlob_verified:
  assumes "repairBlob local_ops env closing clear h cfg src s = (Some (cs, e), s')"
  shows "e = None \<and> HashBytes (concat cs) = h"
  using assms
  by (auto simp: repairBlob_def Let_def split: option.splits sum.splits prod.splits if_splits
      dest: localCopyVerified_local fetchVerifiedToLocal_local)

lemma rebuild_loop_verified:
  "(h, cs, e) \<in> set (fst (rebuild_loop local_ops env flags cfg src hs s)) \<Longrightarrow>
     e = None \<and> HashBytes (concat cs) = h"
proof (induction hs arbitrary: s)
  case (Cons k hs)
  obtain closing clear where fl: "flags k = (closing, clear)" by fastforce
  obtain st s1 where rp: "repairBlob local_ops (env k) closing clear k cfg src s = (st, s1)" by fastforce
  show ?case
  proof (cases "st = Some (cs, e) \<and> h = k")
    case True
    then show ?thesis using repairBlob_verified rp by blast
  next
    case False
    then have "(h, cs, e) \<in> set (fst (rebuild_loop local_ops env flags cfg src hs s1))"
      using Cons.prems fl rp by (auto simp: split_def split: if_splits option.splits)
    then show ?thesis by (rule Cons.IH)
  qed
qed simp

text \<open>
  C7: every stream a rebuild pass hands to the cluster for re-replication under a hash ends cleanly
  and has that hash, whatever the local files hold and whatever the survivors serve.
\<close>

theorem runRebuild_verified:
  assumes "(h, cs, e) \<in> set (fst (runRebuild local_ops env flags cfg src s))"
  shows "e = None \<and> HashBytes (concat cs) = h"
  using assms unfolding runRebuild_def by (rule rebuild_loop_verified)

section \<open>A verified survivor is enough\<close>

definition no_faults :: tmp_env where
  "no_faults = \<lparr>te_mkdir = False, te_create = False, te_write = False, te_close = False, te_open = False\<rparr>"

lemma meta_view_cong:
  assumes "bucketObjects (st_db s) = bucketObjects (st_db s')" "bucketPaths (st_db s) = bucketPaths (st_db s')"
    "bucketModTimes (st_db s) = bucketModTimes (st_db s')"
  shows "meta_view nm k s = meta_view nm k s'"
  unfolding meta_view_def assms ..

lemma mark_clear_meta [simp]:
  "meta_view nm k (snd (quarantineMark c h s)) = meta_view nm k s"
  "meta_view nm k (snd (quarantineClear c h s)) = meta_view nm k s"
  by (rule meta_view_cong; auto simp: quarantineMark_def quarantineClear_def Update_def Let_def res_bind_Inr_conv
      split: prod.splits sum.splits)+

lemma meta_view_frame [simp]:
  "meta_view nm k (s\<lparr>st_verifier := v\<rparr>) = meta_view nm k s" "meta_view nm k (s\<lparr>st_blobs := b\<rparr>) = meta_view nm k s"
  by (rule meta_view_cong; simp)+

lemma storeVerified_meta [simp]: "meta_view nm k (snd (storeVerified bs te h r s)) = meta_view nm k s"
  by (auto simp: storeVerified_def split: prod.splits option.splits)

lemma fetch_loop_meta: "meta_view nm k (snd (fetch_loop bs src env h ps s)) = meta_view nm k s"
proof (induction ps arbitrary: s)
  case (Cons p ps)
  obtain te mk cl where env: "env p = (te, mk, cl)" by (cases "env p")
  show ?case
  proof (cases "Fetch src h p")
    case (Inr rc)
    obtain ok s1 where st: "storeVerified bs te h rc s = (ok, s1)" by fastforce
    then have "meta_view nm k s1 = meta_view nm k s" using storeVerified_meta [of nm k bs te h rc s] by simp
    then show ?thesis using Inr env st Cons.IH by (cases ok; cases "GetBlob bs h (st_blobs s1)") simp_all
  qed (simp add: Cons.IH)
qed simp

lemma storeVerified_succeeds:
  assumes "HashBytes (concat cs) = h" "first_error (Local_put_checks h ([], None) (st_blobs s)) = None"
  shows "fst (storeVerified local_ops no_faults h (cs, None) s)"
proof -
  have "Local_put_checks h ([concat cs], None) (st_blobs s) = Local_put_checks h ([], None) (st_blobs s)"
    by (simp add: Local_put_checks_def)
  then show ?thesis using assms
    by (simp add: storeVerified_def no_faults_def HashBytes_def local_ops_def Local_PutBlob_def)
qed

lemma storeVerified_get:
  assumes "storeVerified local_ops te h r s = (True, s1)" "local_healthy (st_blobs s)" "content_hash h"
  shows "\<exists>f. GetBlob local_ops h (st_blobs s1) = Inr f"
proof -
  have c: "local_content (st_blobs s1) h = Some (concat (fst r))" using storeVerified_local [OF assms(1)] by simp
  have "local_healthy (st_blobs s1)" using assms(1,2) local.put_healthy [OF TrueI assms(3), of "st_blobs s"]
    by (auto simp: storeVerified_def split: if_splits prod.splits option.splits)
      (metis snd_conv)
  then show ?thesis using local.get_healthy [OF TrueI assms(3) _ c] by blast
qed

lemma fetch_loop_live:
  "p \<in> set ps \<Longrightarrow> Fetch src h p = Inr (cs, None) \<Longrightarrow> HashBytes (concat cs) = h \<Longrightarrow> fst (env p) = no_faults \<Longrightarrow>
     first_error (Local_put_checks h ([], None) (st_blobs s)) = None \<Longrightarrow> local_healthy (st_blobs s) \<Longrightarrow>
     \<exists>f. fst (fetch_loop local_ops src env h ps s) = Inr f"
proof (induction ps arbitrary: s)
  case (Cons q ps)
  have ch: "content_hash h" using Cons.prems(3) content_hash_HashBytes by metis
  obtain te mk cl where env: "env q = (te, mk, cl)" by (cases "env q")
  show ?case
  proof (cases "Fetch src h q")
    case (Inl e)
    then have "p \<in> set ps" using Cons.prems(1,2) by auto
    then show ?thesis using Cons.IH [of s] Cons.prems Inl by simp
  next
    case (Inr rc)
    obtain ok s1 where st: "storeVerified local_ops te h rc s = (ok, s1)" by fastforce
    show ?thesis
    proof (cases ok)
      case True
      then show ?thesis using storeVerified_get [of te h rc s s1] st Cons.prems(6) ch Inr env by auto
    next
      case False
      have "q \<noteq> p" using storeVerified_succeeds [OF Cons.prems(3,5)] Cons.prems(2,4) Inr env st False by auto
      moreover have "s1 = s" using storeVerified_local [OF st] False by simp
      ultimately show ?thesis
        using Cons.IH [of "snd (quarantineMark mk h s)"] Cons.prems Inr env st False by simp
    qed
  qed
qed simp


section \<open>A store that lost its blob\<close>

text \<open>The bytes are gone; the first survivor serves other bytes, the second the right ones.\<close>

definition peers2 :: "Peer list" where
  "peers2 = [\<lparr>pr_ID = 1, pr_Domain = ''r1''\<rparr>, \<lparr>pr_ID = 2, pr_Domain = ''r2''\<rparr>]"

definition mixed_source :: RebuildSource where
  "mixed_source = \<lparr>Survivors = (\<lambda>_. Inr peers2),
     Fetch = (\<lambda>_ p. Inr (if pr_ID p = 1 then [[9]] else [[1, 2], [3]], None)),
     Restore = (\<lambda>_ _. None)\<rparr>"

abbreviation calm :: "Peer \<Rightarrow> tmp_env \<times> bool \<times> bool" where
  "calm \<equiv> \<lambda>_. (no_faults, True, True)"

definition lost_store :: "LocalBlobStore CASStore" where
  "lost_store = demo_store\<lparr>st_degradedRead := True, st_blobs := empty_local\<rparr>"

definition demo_meta :: FileMetadata where
  "demo_meta = \<lparr>fm_Name = ''f'', fm_Hash = demo_hash, fm_Size = 3, fm_RemotePath = [], fm_ModTime = 100,
     fm_S3Headers = None, fm_Checksums = []\<rparr>"

lemma demo_lookup:
  "GetHashForName ''f'' demo_store = Inr demo_hash" "meta_view ''f'' demo_hash demo_store = Inr demo_meta"
  by (simp_all add: demo_store_def GetHashForName_def meta_view_def initBuckets_def b_get_def newCASStore_def
      decode_plain plain_meta_def demo_meta_def mod_time_def codec)

lemma lost_lookup:
  "GetHashForName ''f'' lost_store = Inr demo_hash" "meta_view ''f'' demo_hash lost_store = Inr demo_meta"
proof -
  have "GetHashForName ''f'' lost_store = GetHashForName ''f'' demo_store"
    by (simp add: GetHashForName_def lost_store_def)
  then show "GetHashForName ''f'' lost_store = Inr demo_hash" by (simp add: demo_lookup)
  have "meta_view ''f'' demo_hash lost_store = meta_view ''f'' demo_hash demo_store"
    by (rule meta_view_cong) (simp_all add: lost_store_def)
  then show "meta_view ''f'' demo_hash lost_store = Inr demo_meta" by (simp add: demo_lookup)
qed

lemma lost_host:
  "first_error (Local_put_checks demo_hash ([], None) (st_blobs lost_store)) = None"
  "local_healthy (st_blobs lost_store)" "local_content (st_blobs lost_store) demo_hash = None"
  "st_degradedRead lost_store" "st_VerifyOnRead lost_store"
  by (simp_all add: lost_store_def demo_store_def newCASStore_def Local_put_checks_def checkDiskSpace_def
      empty_local_def quiet_host_def local_healthy_def local_content_def)

lemma demo_served:
  "Survivors mixed_source demo_hash = Inr peers2" "peers2 ! 1 \<in> set peers2"
  "Fetch mixed_source demo_hash (peers2 ! 1) = Inr ([[1, 2], [3]], None)"
  "HashBytes (concat [[1, 2], [3]]) = demo_hash"
  by (simp_all add: mixed_source_def peers2_def demo_hash_def)

lemmas lost_facts = lost_lookup lost_host demo_served


section \<open>A store with its blob\<close>

lemma demo_blob: "GetBlob local_ops demo_hash (st_blobs demo_store) = Inr ([[1, 2, 3]], None)"
  by (simp add: local_ops_def Local_GetBlob_def demo_store_def newCASStore_def empty_local_def quiet_host_def)

lemma demo_unmarked: "\<not> quarantined demo_hash demo_store" "st_VerifyOnRead demo_store"
  "\<not> st_degradedRead demo_store" "st_verifier demo_store = everyReadVerifier"
  by (simp_all add: quarantined_def demo_store_def newCASStore_def initBuckets_def)

lemma demo_get:
  "Get local_ops None calm ''f'' demo_store =
     (Inr (every_Verify ([[1, 2, 3]], None) demo_hash, demo_meta), demo_store)"
  by (simp add: Get_def demo_lookup openVerifiedBlob_def demo_blob demo_unmarked)

lemma demo_read:
  "\<exists>s2. read_served True (every_Verify ([[1, 2, 3]], None) demo_hash) demo_store = ([1, 2, 3], None, s2)"
proof -
  let ?r = "ReadAll (newVerifyingReader False ([[1, 2, 3]], None) demo_hash)"
  have "fst ?r = [1, 2, 3]" "fst (snd ?r) = None"
    using ReadAll_loop [of "newVerifyingReader False ([[1, 2, 3]], None) demo_hash" "[[1, 2, 3]]" None]
    by (simp_all add: newVerifyingReader_def demo_hash_def)
  then show ?thesis by (cases ?r) (simp add: read_served_def every_Verify_def Let_def)
qed

theorem Get_never_corrupt_witness:
  "\<exists>sv s1 p s2. Get local_ops None calm ''f'' demo_store = (Inr (sv, demo_meta), s1) \<and>
     read_served True sv s1 = (p, None, s2) \<and> p = [1, 2, 3] \<and> HashBytes p = fm_Hash demo_meta"
proof -
  obtain s2 where r: "read_served True (every_Verify ([[1, 2, 3]], None) demo_hash) demo_store = ([1, 2, 3], None, s2)"
    using demo_read by blast
  show ?thesis using Get_never_corrupt [OF demo_unmarked(2) demo_get r] demo_get r by blast
qed

definition lone_config :: RebuildConfig where
  "lone_config = \<lparr>rc_Interval = 0, rc_Workers = 4, rc_Target = 3,
     rc_Source = Some \<lparr>Survivors = (\<lambda>_. Inr []), Fetch = (\<lambda>_ _. Inl (Bare ENOENT)), Restore = (\<lambda>_ _. None)\<rparr>, rc_DegradedRead = False\<rparr>"

lemma encode_long: "\<not> length (encode m) < 24"
  by (simp add: encode_def Let_def codec)

lemma demo_rebuildSet: "rebuildSet demo_store = [demo_hash]"
  by (simp add: rebuildSet_def referencedBlobs_def quarantinedHashes_def demo_store_def newCASStore_def
      initBuckets_def decode_plain plain_meta_def encode_long)

lemma demo_rebuild:
  "(demo_hash, [[1, 2, 3]], None) \<in>
     set (fst (runRebuild local_ops (\<lambda>_. calm) (\<lambda>_. (False, True)) lone_config (rc_Source lone_config) demo_store))"
  by (simp add: runRebuild_def demo_rebuildSet repairBlob_def lone_config_def localCopyVerified_def demo_blob
      HashReader_eq Let_def split_def demo_hash_def [symmetric])

theorem runRebuild_verified_witness:
  "(demo_hash, [[1, 2, 3]], None) \<in>
     set (fst (runRebuild local_ops (\<lambda>_. calm) (\<lambda>_. (False, True)) lone_config (rc_Source lone_config) demo_store)) \<and>
   HashBytes (concat [[1, 2, 3]]) = demo_hash"
  using runRebuild_verified [OF demo_rebuild] demo_rebuild by simp

end
