(* ===== verification/Cas_Run.thy ===== *)
theory Cas_Run
  imports Rebuild
begin

text \<open>
  Histories of a store: every sequence of puts, deletes, tombstones from peers, collections,
  scrubs, degraded reads, rebuild passes and cache or header updates, with any clock, any faults
  of the host and any failed commits in between. Each operation is one step of a history. The invariant holds in every state such a history
  reaches, and with it what users of the store rely on.
\<close>

section \<open>Steps that only touch other parts of the state\<close>

lemma cas_inv_cong:
  assumes "bucketObjects (st_db s') = bucketObjects (st_db s)" "bucketNamespace (st_db s') = bucketNamespace (st_db s)"
    "bucketTombstones (st_db s') = bucketTombstones (st_db s)" "bucketPaths (st_db s') = bucketPaths (st_db s)"
    "bucketModTimes (st_db s') = bucketModTimes (st_db s)" "st_blobs s' = st_blobs s"
  shows "cas_inv content sound n s' = cas_inv content sound n s"
  unfolding cas_inv_def meta_inv_def core_inv_def object_ok_def live_def assms ..

lemma mark_clear_inv [simp]:
  "cas_inv content sound n (snd (quarantineMark c h s)) = cas_inv content sound n s"
  "cas_inv content sound n (snd (quarantineClear c h s)) = cas_inv content sound n s"
  by (rule cas_inv_cong; auto simp: quarantineMark_def quarantineClear_def Update_def Let_def res_bind_Inr_conv
      split: prod.splits sum.splits)+

lemma setCachedMeta_inv: "cas_inv content sound n (setCachedMeta now nm m s) = cas_inv content sound n s"
  by (rule cas_inv_cong) (simp_all add: setCachedMeta_def Let_def)

lemma PutS3Meta_inv: "cas_inv content sound n (snd (PutS3Meta jl c nm hs s)) = cas_inv content sound n s"
  by (rule cas_inv_cong; auto simp: PutS3Meta_def Update_def Let_def res_bind_Inr_conv
      split: prod.splits sum.splits option.splits)

lemma repairs_inv [simp]: "cas_inv content sound n (s\<lparr>st_repairs := r\<rparr>) = cas_inv content sound n s"
  by (rule cas_inv_cong) simp_all

context cas_backend
begin

lemma storeVerified_inv:
  assumes s: "cas_inv content sound n s"
  shows "cas_inv content sound n (snd (storeVerified bs te h r s))"
proof (cases "HashBytes (concat (fst r)) = h")
  case False
  then show ?thesis using s by (auto simp: storeVerified_def HashBytes_def)
next
  case True
  have h: "content_hash h" using True content_hash_HashBytes by metis
  obtain e b where p: "PutBlob bs h ([concat (fst r)], None) (st_blobs s) = (e, b)" by fastforce
  have i: "sound (st_blobs s)" using s by (simp add: cas_inv_def)
  have b: "sound b" "\<And>k. content_hash k \<Longrightarrow> k \<noteq> h \<Longrightarrow> content b k = content (st_blobs s) k"
    using put_sound [OF i h, of "([concat (fst r)], None)"] put_other [OF i h, of _ "([concat (fst r)], None)"] p by simp_all
  have here: "content b h = content (st_blobs s) h \<or> content b h = Some (concat (fst r))"
    using put_ok [OF i h, of "[concat (fst r)]" None b] put_err [OF i h, of _ _ b] p by (cases e) auto
  have "HashBytes c = k" if "content_hash k" "content b k = Some c" for k c
    using that s here b(2) [of k] True by (cases "k = h") (auto simp: cas_inv_def)
  moreover have "content b k \<noteq> None" if "b_get (bucketNamespace (st_db s)) nm = Some k" for nm k
    using that s here b(2) [of k] named_hash [OF s that] by (cases "k = h") (auto simp: cas_inv_def)
  ultimately have "cas_inv content sound n (s\<lparr>st_blobs := b\<rparr>)" using s b(1) by (simp add: cas_inv_def)
  then show ?thesis using s p by (auto simp: storeVerified_def split: option.splits)
qed

lemma fetch_loop_inv:
  "cas_inv content sound n s \<Longrightarrow> cas_inv content sound n (snd (fetch_loop bs src env h ps s))"
proof (induction ps arbitrary: s)
  case (Cons p ps)
  obtain te mk cl where env: "env p = (te, mk, cl)" by (cases "env p")
  show ?case
  proof (cases "Fetch src h p")
    case (Inr rc)
    obtain ok s1 where st: "storeVerified bs te h rc s = (ok, s1)" by fastforce
    have "cas_inv content sound n s1" using storeVerified_inv [OF Cons.prems, of te h rc] st by simp
    then show ?thesis using Inr env st Cons.IH by (cases ok; cases "GetBlob bs h (st_blobs s1)") simp_all
  qed (simp add: Cons.IH Cons.prems)
qed simp

lemma fetchVerifiedToLocal_inv:
  "cas_inv content sound n s \<Longrightarrow> cas_inv content sound n (snd (fetchVerifiedToLocal bs src env h s))"
  by (simp add: fetchVerifiedToLocal_def fetch_loop_inv split: option.split sum.split)

lemma openVerifiedBlob_inv:
  assumes "cas_inv content sound n s"
  shows "cas_inv content sound n (snd (openVerifiedBlob bs src env h s))"
  using assms fetchVerifiedToLocal_inv [OF assms, of src env h]
  by (auto simp: openVerifiedBlob_def Let_def split: sum.splits prod.splits)

lemma Get_inv:
  assumes "cas_inv content sound n s"
  shows "cas_inv content sound n (snd (Get bs src env nm s))"
proof (cases "GetHashForName nm s")
  case (Inr h)
  obtain r s1 where o: "openVerifiedBlob bs src env h s = (r, s1)" by fastforce
  have "cas_inv content sound n s1" using openVerifiedBlob_inv [OF assms, of src env h] o by simp
  then show ?thesis using Inr o by (simp add: Get_def split: sum.split)
qed (simp add: Get_def assms)

lemma read_served_inv:
  "cas_inv content sound n s \<Longrightarrow> cas_inv content sound n (snd (snd (read_served c sv s)))"
  by (auto simp: read_served_def Let_def split: option.splits prod.splits)

lemma repairBlob_inv:
  assumes "cas_inv content sound n s"
  shows "cas_inv content sound n (snd (repairBlob bs env closing clear h cfg src s))"
  using assms fetchVerifiedToLocal_inv [OF assms, of src env h]
  by (auto simp: repairBlob_def Let_def split: option.split sum.split prod.split)

lemma rebuild_loop_inv:
  "cas_inv content sound n s \<Longrightarrow> cas_inv content sound n (snd (rebuild_loop bs env flags cfg src hs s))"
proof (induction hs arbitrary: s)
  case (Cons h hs)
  obtain cl cr where f: "flags h = (cl, cr)" by fastforce
  obtain st s1 where r: "repairBlob bs (env h) cl cr h cfg src s = (st, s1)" by fastforce
  have "cas_inv content sound n s1" using repairBlob_inv [OF Cons.prems, of "env h" cl cr h cfg src] r by simp
  then show ?case using f r Cons by (cases cl) (simp_all add: split_def)
qed simp

end

section \<open>Histories\<close>

text \<open>
  \<open>medium\<close> is how the backend's medium may change between operations. A put carries the bytes
  its hash was computed from, or a stream that fails; the counter counts the puts.
\<close>

inductive cas_run :: "'b BlobStore \<Rightarrow> ('b \<Rightarrow> 'b \<Rightarrow> bool) \<Rightarrow> 'b CASStore \<Rightarrow> nat \<Rightarrow> 'b CASStore \<Rightarrow> bool"
  for bs medium s0 where
  start: "cas_run bs medium s0 0 s0"
| put: "cas_run bs medium s0 n s \<Longrightarrow> content_hash h \<Longrightarrow> (fin = None \<longrightarrow> HashBytes (concat cs) = h) \<Longrightarrow>
    cas_run bs medium s0 (Suc n) (snd (Put bs barrier commit now nm h sz rp (Some (cs, fin)) s))"
| delete: "cas_run bs medium s0 n s \<Longrightarrow> cas_run bs medium s0 n (snd (Delete bs commit commit2 now nm s))"
| tombstone: "cas_run bs medium s0 n s \<Longrightarrow>
    cas_run bs medium s0 n (snd (ApplyTombstone bs commit commit2 nm at s))"
| collect: "cas_run bs medium s0 n s \<Longrightarrow>
    cas_run bs medium s0 n (snd (runGC bs commit commit2 now retention s))"
| scrub: "cas_run bs medium s0 n s \<Longrightarrow> cas_run bs medium s0 n (snd (runScrub bs senv s))"
| get: "cas_run bs medium s0 n s \<Longrightarrow> cas_run bs medium s0 n (snd (Get bs src env nm s))"
| read: "cas_run bs medium s0 n s \<Longrightarrow> cas_run bs medium s0 n (snd (snd (read_served commit sv s)))"
| rebuild: "cas_run bs medium s0 n s \<Longrightarrow> cas_run bs medium s0 n (snd (runRebuild bs renv flags cfg src s))"
| arm: "cas_run bs medium s0 n s \<Longrightarrow> cas_run bs medium s0 n (StartRebuild cfg s)"
| cache: "cas_run bs medium s0 n s \<Longrightarrow> cas_run bs medium s0 n (setCachedMeta t nm m s)"
| headers: "cas_run bs medium s0 n s \<Longrightarrow> cas_run bs medium s0 n (snd (PutS3Meta json_len commit nm hdrs s))"
| medium: "cas_run bs medium s0 n s \<Longrightarrow> medium (st_blobs s) b \<Longrightarrow> cas_run bs medium s0 n (s\<lparr>st_blobs := b\<rparr>)"

context cas_backend
begin

lemma cas_run_inv:
  assumes run: "cas_run bs medium s0 n s" and init: "cas_inv content sound 0 s0"
    and med: "\<And>b b'. medium b b' \<Longrightarrow> sound b \<Longrightarrow> sound b' \<and> content b' = content b"
    and n: "n \<le> 2 ^ 63 - 1"
  shows "cas_inv content sound n s"
  using run n
proof (induction rule: cas_run.induct)
  case (put n s h fin cs barrier commit now nm sz rp)
  then show ?case using Put_inv [of n s h fin cs barrier commit now nm sz rp] by simp
next
  case (medium n s b)
  then have i: "cas_inv content sound n s" by simp
  then have "sound (st_blobs s)" by (simp add: cas_inv_def)
  then have "sound b" "content b = content (st_blobs s)" using med [OF medium.hyps(2)] by auto
  then show ?case using i by (simp add: cas_inv_def)
next
  case (rebuild n s renv flags cfg src)
  then show ?case using rebuild_loop_inv [of n s] by (simp add: runRebuild_def)
next
  case (arm n s cfg)
  then show ?case using cas_inv_cong [of "StartRebuild cfg s" s] by (simp add: StartRebuild_def)
qed (simp_all add: init Delete_inv ApplyTombstone_inv runGC_inv runScrub_inv Get_inv read_served_inv
    setCachedMeta_inv PutS3Meta_inv)

end

section \<open>The local store\<close>

text \<open>Between operations the host may start or stop failing any kind of system call.\<close>

definition host_change :: "LocalBlobStore \<Rightarrow> LocalBlobStore \<Rightarrow> bool" where
  "host_change b b' \<longleftrightarrow> b' = b\<lparr>lb_host := lb_host b'\<rparr>"

lemma local_run_inv:
  assumes "cas_run local_ops host_change (newCASStore base b) n s" "lb_files b = Map.empty" "n \<le> 2 ^ 63 - 1"
  shows "cas_inv local_content (\<lambda>_. True) n s"
proof (rule local_cas.cas_run_inv [OF assms(1) _ _ assms(3)])
  show "cas_inv local_content (\<lambda>_. True) 0 (newCASStore base b)"
    by (rule cas_inv_new) (simp_all add: local_content_def assms(2))
next
  fix x y assume "host_change x y"
  then have "y = x\<lparr>lb_host := lb_host y\<rparr>" by (simp add: host_change_def)
  then have "lb_files y = lb_files x" "lb_base y = lb_base x"
    by (metis LocalBlobStore.select_convs(3) LocalBlobStore.surjective LocalBlobStore.update_convs(4),
        metis LocalBlobStore.select_convs(1) LocalBlobStore.surjective LocalBlobStore.update_convs(4))
  then show "True \<and> local_content y = local_content x" by (simp add: local_content_def fun_eq_iff)
qed



section \<open>The store as a map from names to hashes\<close>

text \<open>What a user of the store sees: the names that resolve, with their content hashes.\<close>

definition names :: "'b CASStore \<Rightarrow> (string \<rightharpoonup> string)" where
  "names s = (\<lambda>x. case GetHashForName x s of Inl _ \<Rightarrow> None | Inr h \<Rightarrow> Some h)"

lemma names_eq:
  "names s x = (if b_get (bucketTombstones (st_db s)) x \<noteq> None then None else b_get (bucketNamespace (st_db s)) x)"
  by (simp add: names_def GetHashForName_def split: option.split)

lemma names_blobs [simp]: "names (s\<lparr>st_blobs := b\<rparr>) = names s"
  by (simp add: fun_eq_iff names_eq)

lemma Put_names:
  assumes inv: "core_inv (st_db s)"
    and put: "Put bs barrier commit now nm h sz rp content s = (e, s')"
  shows "names s' = (if e = None then (names s)(nm \<mapsto> h) else names s)"
proof (cases "HasPathTraversalChars h")
  case True
  then show ?thesis using put by (auto simp: Put_def PutWithMetadata_def)
next
  case False
  obtain e1 b where st: "put_blob_step bs barrier h content s = (e1, b)" by fastforce
  show ?thesis
  proof (cases e1)
    case (Some x)
    then show ?thesis using put False st by (auto simp: Put_def PutWithMetadata_def)
  next
    case None
    show ?thesis
    proof (cases rule: Update_cases [of commit "put_tx now nm h sz rp [] [] []" "st_db s"])
      case (err x)
      then show ?thesis using put False st None by (auto simp: Put_def PutWithMetadata_def)
    next
      case (ok d')
      then have s': "e = None" "st_db s' = d'" using put False st None by (auto simp: Put_def PutWithMetadata_def)
      from ok(3) have d': "bucketNamespace d' = b_upd nm h (bucketNamespace (st_db s))"
        "bucketTombstones d' = b_del nm (bucketTombstones (st_db s))"
        by (rule put_tx_okD, simp)+
      show ?thesis using s' inv by (auto simp: fun_eq_iff names_eq d' core_inv_def bucket_law)
    qed
  qed
qed

lemma Delete_names:
  assumes inv: "core_inv (st_db s)" and del: "Delete bs commit commit2 now nm s = (e, s')"
  shows "names s' = (if e = None then (names s)(nm := None) else names s)"
proof (cases "Update_val commit (delete_tx now nm) (st_db s)")
  case (Inl x)
  then show ?thesis using del by (auto simp: Delete_def)
next
  case (Inr r)
  obtain d k where r: "r = (d, k)" by fastforce
  have tx: "delete_tx now nm (st_db s) = Inr (d, k)"
    using Inr r by (auto simp: Update_val_def split: sum.splits if_splits)
  have e: "e = None" "bucketNamespace (st_db s') = bucketNamespace d" "bucketTombstones (st_db s') = bucketTombstones d"
    using del Inr r by (auto simp: Delete_def Let_def split: if_splits prod.splits option.splits)
  obtain ts where ts: "ts = b_upd nm (PutUint64 now) (bucketTombstones (st_db s))"
    and dr: "drop_reference now nm ((st_db s)\<lparr>bucketTombstones := ts\<rparr>) = Inr (d, k)"
    using tx by (auto simp: delete_tx_def res_bind_Inr_conv put_or_ok_iff)
  from dr have "bucketNamespace d = b_del nm (bucketNamespace (st_db s))" "bucketTombstones d = ts"
    by (rule drop_reference_okD, simp_all)+
  then show ?thesis using e ts inv by (auto simp: fun_eq_iff names_eq core_inv_def bucket_law)
qed

text \<open>
  C3: on any backend, a put that succeeds maps its name to its hash and changes no other name, and
  a put that fails, at whatever step, changes none.
\<close>

theorem Put_refines:
  assumes "core_inv (st_db s)" "Put bs barrier commit now nm h sz rp content s = (e, s')"
  shows "names s' = (if e = None then (names s)(nm \<mapsto> h) else names s)"
  using assms by (rule Put_names)

theorem Put_refines_witness:
  "names demo_store = (names (newCASStore ''/srv/momo'' empty_local))(''f'' \<mapsto> demo_hash)"
  using Put_refines [OF _ demo_put] by (simp add: newCASStore_def core_inv_def initBuckets_def)

text \<open>
  C4: on any backend, a delete that succeeds makes its name unknown and changes no other name, and a
  delete that fails changes none.
\<close>

theorem Delete_refines:
  assumes "core_inv (st_db s)" "Delete bs commit commit2 now nm s = (e, s')"
  shows "names s' = (if e = None then (names s)(nm := None) else names s)"
  using assms by (rule Delete_names)

theorem Delete_refines_witness:
  "names (snd (Delete local_ops False True 200 ''f'' demo_store)) = names demo_store \<and>
   names (snd (Delete local_ops True True 200 ''g'' demo_store)) = (names demo_store)(''g'' := None)"
proof -
  have inv: "core_inv (st_db demo_store)" using demo_inv by (simp add: cas_inv_def meta_inv_def)
  have "fst (Delete local_ops False True 200 ''f'' demo_store) \<noteq> None"
    by (auto simp: Delete_def Update_val_def split: sum.split)
  moreover have "fst (Delete local_ops True True 200 ''g'' demo_store) = None"
    by (simp add: Delete_def Update_val_def delete_tx_def drop_reference_def demo_store_def b_get_def MaxKeySize_def Let_def)
  ultimately show ?thesis
    using Delete_refines [OF inv, of local_ops False True 200 "''f''"]
      Delete_refines [OF inv, of local_ops True True 200 "''g''"] by (metis prod.collapse)
qed

end
