(* ===== verification/Object_Lock.thy ===== *)
theory Object_Lock
  imports Cas_Run
begin

text \<open>
  Object lock, \<^verbatim>\<open>src/src/storage/objectlock.go\<close>: per-version retention and legal holds, and the
  bucket versioning status it depends on (\<^verbatim>\<open>src/src/storage/versioning.go\<close>). \<open>now\<close> is the
  clock in Unix seconds.
\<close>

section \<open>The model\<close>

definition nul :: char where "nul = CHR 0x00"

definition versionKey :: "string \<Rightarrow> string \<Rightarrow> string \<Rightarrow> string" where
  "versionKey bucket key versionID = bucket @ [nul] @ key @ [nul] @ versionID"

definition lockStatusKey :: "string \<Rightarrow> string \<Rightarrow> string \<Rightarrow> string" where
  "lockStatusKey bucket key versionID = bucket @ [nul] @ key @ [nul] @ versionID"

definition VersioningEnabled :: string where "VersioningEnabled = ''Enabled''"
definition VersioningSuspended :: string where "VersioningSuspended = ''Suspended''"
definition LockModeCompliance :: string where "LockModeCompliance = ''COMPLIANCE''"
definition LockModeGovernance :: string where "LockModeGovernance = ''GOVERNANCE''"

text \<open>A transaction on the database of a store.\<close>

definition store_tx :: "bool \<Rightarrow> (metadb \<Rightarrow> metadb res) \<Rightarrow> 'b CASStore \<Rightarrow> err option \<times> 'b CASStore" where
  "store_tx commit body s = (let (e, d) = Update commit body (st_db s) in (e, s\<lparr>st_db := d\<rparr>))"

definition SetBucketVersioning :: "bool \<Rightarrow> string \<Rightarrow> string \<Rightarrow> 'b CASStore \<Rightarrow> err option \<times> 'b CASStore" where
  "SetBucketVersioning commit bucket status s =
     (if status \<noteq> VersioningEnabled \<and> status \<noteq> VersioningSuspended then (Some (Wrap EINVAL), s)
      else store_tx commit (\<lambda>d. res_bind (b_put bucket status (bucketVersioning d))
        (\<lambda>b. Inr (d\<lparr>bucketVersioning := b\<rparr>))) s)"

definition BucketVersioning :: "string \<Rightarrow> 'b CASStore \<Rightarrow> string option" where
  "BucketVersioning bucket s = b_get (bucketVersioning (st_db s)) bucket"

definition IsVersioned :: "string \<Rightarrow> 'b CASStore \<Rightarrow> bool" where
  "IsVersioned bucket s \<longleftrightarrow> BucketVersioning bucket s = Some VersioningEnabled"

definition lockedAt :: "ObjectLockState \<Rightarrow> int \<Rightarrow> bool" where
  "lockedAt l now = (if lk_LegalHoldOn l then True else if lk_Mode l = [] then False else lk_RetainUntil l > now)"

definition SetBucketObjectLock :: "bool \<Rightarrow> string \<Rightarrow> 'b CASStore \<Rightarrow> err option \<times> 'b CASStore" where
  "SetBucketObjectLock commit bucket s =
     (if bucket = [] then (Some (Bare EINVAL), s)
      else store_tx commit (\<lambda>d.
        let cur = (case b_get (bucketVersioning d) bucket of Some v \<Rightarrow> v | None \<Rightarrow> []) in
        if cur = VersioningSuspended then Inl (Bare EPERM)
        else res_bind (if cur \<noteq> VersioningEnabled then b_put bucket VersioningEnabled (bucketVersioning d)
                       else Inr (bucketVersioning d)) (\<lambda>vs.
             res_bind (b_put bucket [CHR 0x01] (bucketObjectLockCfg d)) (\<lambda>cfg.
             Inr (d\<lparr>bucketVersioning := vs, bucketObjectLockCfg := cfg\<rparr>)))) s)"

definition BucketObjectLockEnabled :: "string \<Rightarrow> 'b CASStore \<Rightarrow> bool res" where
  "BucketObjectLockEnabled bucket s =
     (if bucket = [] then Inl (Bare EINVAL)
      else Inr (b_get (bucketObjectLockCfg (st_db s)) bucket \<noteq> None))"

definition validateLockState :: "ObjectLockState \<Rightarrow> err option" where
  "validateLockState state =
     (if lk_Mode state \<notin> {[], LockModeCompliance, LockModeGovernance} then Some (Bare EINVAL)
      else if lk_Mode state \<noteq> [] \<and> lk_RetainUntil state \<le> 0 then Some (Bare EINVAL)
      else None)"

definition checkLockTighten :: "int \<Rightarrow> ObjectLockState \<Rightarrow> ObjectLockState \<Rightarrow> bool \<Rightarrow> err option" where
  "checkLockTighten now existing next bypassGovernance =
     (if lk_RetainUntil existing > now then
        (if lk_Mode existing = LockModeCompliance then
           (if lk_Mode next = LockModeGovernance \<or>
               (lk_Mode next = LockModeCompliance \<and> lk_RetainUntil next < lk_RetainUntil existing) \<or>
               (lk_Mode next = [] \<and> lk_RetainUntil next = 0)
            then Some (Bare EPERM) else None)
         else if lk_Mode existing = LockModeGovernance then
           (if \<not> bypassGovernance \<and> lk_RetainUntil next < lk_RetainUntil existing then Some (Bare EPERM) else None)
         else None)
      else None)"

definition no_lock :: ObjectLockState where
  "no_lock = \<lparr>lk_Mode = [], lk_RetainUntil = 0, lk_LegalHoldOn = False\<rparr>"

definition lock_tx ::
  "int \<Rightarrow> string \<Rightarrow> string \<Rightarrow> string \<Rightarrow> bool \<Rightarrow> (ObjectLockState \<Rightarrow> ObjectLockState) \<Rightarrow> metadb \<Rightarrow> metadb res" where
  "lock_tx now bucket key versionID bypass mutate d =
     res_bind
       (case b_get (bucketLockState d) (lockStatusKey bucket key versionID) of
          Some raw \<Rightarrow> (case Unmarshal raw of
              None \<Rightarrow> Inl (Plain ''corrupt lock record'') | Some st \<Rightarrow> Inr st)
        | None \<Rightarrow> if b_get (bucketObjectVersions d) (versionKey bucket key versionID) = None
                  then Inl (Bare ENOENT) else Inr no_lock)
       (\<lambda>existing.
          let next = mutate existing in
          case validateLockState next of
            Some e \<Rightarrow> Inl e
          | None \<Rightarrow>
              (case checkLockTighten now existing next bypass of
                 Some e \<Rightarrow> Inl e
               | None \<Rightarrow> res_bind (b_put (lockStatusKey bucket key versionID) (Json next) (bucketLockState d))
                   (\<lambda>b. Inr (d\<lparr>bucketLockState := b\<rparr>))))"

definition mutateVersionLock ::
  "bool \<Rightarrow> int \<Rightarrow> string \<Rightarrow> string \<Rightarrow> string \<Rightarrow> bool \<Rightarrow> (ObjectLockState \<Rightarrow> ObjectLockState) \<Rightarrow>
   'b CASStore \<Rightarrow> err option \<times> 'b CASStore" where
  "mutateVersionLock commit now bucket key versionID bypass mutate s =
     (if bucket = [] \<or> key = [] \<or> versionID = [] then (Some (Bare EINVAL), s)
      else store_tx commit (lock_tx now bucket key versionID bypass mutate) s)"

definition PutVersionLock where
  "PutVersionLock commit now bucket key versionID state bypass s =
     mutateVersionLock commit now bucket key versionID bypass (\<lambda>_. state) s"

definition PutVersionRetention where
  "PutVersionRetention commit now bucket key versionID mode until bypass s =
     mutateVersionLock commit now bucket key versionID bypass
       (\<lambda>st. st\<lparr>lk_Mode := mode, lk_RetainUntil := until\<rparr>) s"

definition PutVersionLegalHold where
  "PutVersionLegalHold commit now bucket key versionID on s =
     mutateVersionLock commit now bucket key versionID False (\<lambda>st. st\<lparr>lk_LegalHoldOn := on\<rparr>) s"

definition VersionLock :: "string \<Rightarrow> string \<Rightarrow> string \<Rightarrow> 'b CASStore \<Rightarrow> ObjectLockState option res" where
  "VersionLock bucket key versionID s =
     (if bucket = [] \<or> key = [] \<or> versionID = [] then Inl (Bare EINVAL)
      else case b_get (bucketLockState (st_db s)) (lockStatusKey bucket key versionID) of
        None \<Rightarrow> Inr None
      | Some raw \<Rightarrow> (case Unmarshal raw of
            None \<Rightarrow> Inl (Plain ''corrupt lock record'') | Some st \<Rightarrow> Inr (Some st)))"

definition lockDeniesTx :: "metadb \<Rightarrow> string \<Rightarrow> string \<Rightarrow> string \<Rightarrow> int \<Rightarrow> bool \<Rightarrow> bool res" where
  "lockDeniesTx d bucket key versionID now bypass =
     (case b_get (bucketLockState d) (lockStatusKey bucket key versionID) of
        None \<Rightarrow> Inr False
      | Some raw \<Rightarrow>
          (case Unmarshal raw of
             None \<Rightarrow> Inl (Plain ''corrupt lock record'')
           | Some state \<Rightarrow>
               if \<not> lockedAt state now then Inr False
               else if bypass \<and> lk_Mode state = LockModeGovernance \<and> \<not> lk_LegalHoldOn state then Inr False
               else Inr True))"

section \<open>Retention only tightens\<close>

lemmas lock_modes = LockModeCompliance_def LockModeGovernance_def

text \<open>
  C20: a lock write that succeeds while a COMPLIANCE retention is active, and that names a retention
  mode, leaves a COMPLIANCE retention with at least the same deadline, with or without the governance
  bypass.
\<close>

theorem compliance_only_extended:
  assumes "lock_tx now bucket key vid bypass mutate d = Inr d'" "b_inv (bucketLockState d)"
    "b_get (bucketLockState d) (lockStatusKey bucket key vid) = Some (Json old)"
    "lk_Mode old = LockModeCompliance" "lk_RetainUntil old > now" "lk_Mode (mutate old) \<noteq> []"
  shows "\<exists>new. b_get (bucketLockState d') (lockStatusKey bucket key vid) = Some (Json new) \<and>
    lk_Mode new = LockModeCompliance \<and> lk_RetainUntil new \<ge> lk_RetainUntil old"
  using assms
  by (auto simp: lock_tx_def res_bind_Inr_conv Let_def b_put_ok_iff bucket_law validateLockState_def
      checkLockTighten_def lock_modes split: option.splits if_splits)

definition locked_db :: metadb where
  "locked_db = initBuckets\<lparr>bucketLockState := [(lockStatusKey ''b'' ''k'' ''v'',
     Json \<lparr>lk_Mode = ''COMPLIANCE'', lk_RetainUntil = 2000, lk_LegalHoldOn = False\<rparr>)]\<rparr>"

lemma locked_db_extend:
  "\<exists>d'. lock_tx 1000 ''b'' ''k'' ''v'' False (\<lambda>st. st\<lparr>lk_RetainUntil := 3000\<rparr>) locked_db = Inr d'"
  by (simp add: lock_tx_def locked_db_def b_get_def validateLockState_def checkLockTighten_def lock_modes
      b_put_def lockStatusKey_def MaxKeySize_def)

theorem compliance_only_extended_witness:
  "\<exists>d' new. lock_tx 1000 ''b'' ''k'' ''v'' False (\<lambda>st. st\<lparr>lk_RetainUntil := 3000\<rparr>) locked_db = Inr d' \<and>
     b_get (bucketLockState d') (lockStatusKey ''b'' ''k'' ''v'') = Some (Json new) \<and>
     lk_Mode new = LockModeCompliance \<and> lk_RetainUntil new \<ge> 2000"
proof -
  obtain d' where d': "lock_tx 1000 ''b'' ''k'' ''v'' False (\<lambda>st. st\<lparr>lk_RetainUntil := 3000\<rparr>) locked_db = Inr d'"
    using locked_db_extend by blast
  show ?thesis
    using compliance_only_extended [OF d', of "\<lparr>lk_Mode = ''COMPLIANCE'', lk_RetainUntil = 2000, lk_LegalHoldOn = False\<rparr>"] d'
    by (auto simp: locked_db_def b_inv_def b_get_def lock_modes)
qed

text \<open>
  The check that guards COMPLIANCE retention lets one write remove it: an empty mode with a non-zero
  deadline is accepted while the retention is active, and the version is no longer locked.
\<close>

theorem compliance_dropped:
  assumes "lk_Mode old = LockModeCompliance" "lk_RetainUntil old > now" "\<not> lk_LegalHoldOn old" "until \<noteq> 0"
    "next = old\<lparr>lk_Mode := [], lk_RetainUntil := until\<rparr>"
  shows "lockedAt old now \<and> validateLockState next = None \<and> checkLockTighten now old next False = None \<and>
    \<not> lockedAt next now"
  using assms by (simp add: lockedAt_def validateLockState_def checkLockTighten_def lock_modes)

theorem compliance_dropped_witness:
  "lockedAt \<lparr>lk_Mode = ''COMPLIANCE'', lk_RetainUntil = 2000, lk_LegalHoldOn = False\<rparr> 1000 \<and>
   validateLockState \<lparr>lk_Mode = [], lk_RetainUntil = 1, lk_LegalHoldOn = False\<rparr> = None \<and>
   checkLockTighten 1000 \<lparr>lk_Mode = ''COMPLIANCE'', lk_RetainUntil = 2000, lk_LegalHoldOn = False\<rparr>
     \<lparr>lk_Mode = [], lk_RetainUntil = 1, lk_LegalHoldOn = False\<rparr> False = None \<and>
   \<not> lockedAt \<lparr>lk_Mode = [], lk_RetainUntil = 1, lk_LegalHoldOn = False\<rparr> 1000"
  using compliance_dropped [of "\<lparr>lk_Mode = ''COMPLIANCE'', lk_RetainUntil = 2000, lk_LegalHoldOn = False\<rparr>" 1000 1
      "\<lparr>lk_Mode = [], lk_RetainUntil = 1, lk_LegalHoldOn = False\<rparr>"]
  by (simp add: LockModeCompliance_def)

end
