(* ===== verification/Versioning.thy ===== *)
theory Versioning
  imports Object_Lock
begin

text \<open>
  Object versions, \<^verbatim>\<open>src/src/storage/versioning.go\<close>: recording versions and delete markers, applying
  replicated records, the latest version, listing with markers, and deleting a version under object
  lock. The records of a key lie in one range of the bucket, which the code scans with a cursor; it
  slices each key to the length of the range's prefix, and a slice past the end of a key panics,
  since the cursor's keys have no spare capacity. The panic is recovered as an EIO error and rolls
  the transaction back.
\<close>

section \<open>Recording\<close>

text \<open>\<^verbatim>\<open>json.Marshal\<close> of a record: the key is not serialized.\<close>

definition marshal_rec :: "VersionRecord \<Rightarrow> VersionRecord json" where
  "marshal_rec r = Json (r\<lparr>vr_Key := []\<rparr>)"

text \<open>\<open>b\<close> are the sixteen random bytes.\<close>

definition newVersionID :: "bytes option \<Rightarrow> string res" where
  "newVersionID rnd =
     (case rnd of
        None \<Rightarrow> Inl (Plain ''failed to generate version id'')
      | Some b0 \<Rightarrow>
          let b = b0[6 := (b0 ! 6 AND 0x0f) OR 0x40, 8 := (b0 ! 8 AND 0x3f) OR 0x80] in
          Inr (EncodeToString (sub_slice 0 4 b) @ ''-'' @ EncodeToString (sub_slice 4 6 b) @ ''-'' @
               EncodeToString (sub_slice 6 8 b) @ ''-'' @ EncodeToString (sub_slice 8 10 b) @ ''-'' @
               EncodeToString (sub_slice 10 16 b)))"

definition version_prefix :: "string \<Rightarrow> string \<Rightarrow> string" where
  "version_prefix bucket key = bucket @ [nul] @ key @ [nul]"

definition Seek :: "string \<Rightarrow> 'v bucket \<Rightarrow> 'v bucket" where
  "Seek k b = dropWhile (\<lambda>(x, _). x < k) b"

fun range_scan :: "string \<Rightarrow> VersionRecord json bucket \<Rightarrow> (string \<times> VersionRecord) list res" where
  "range_scan pre [] = Inr []"
| "range_scan pre ((k, v) # rest) =
     (if length k < length pre then Inl (Wrap EIO)
      else if take (length pre) k \<noteq> pre then Inr []
      else case Unmarshal v of
        None \<Rightarrow> Inl (Plain ''corrupt version record'')
      | Some r \<Rightarrow> res_bind (range_scan pre rest) (\<lambda>rs. Inr ((k, r) # rs)))"

definition demote :: "(string \<times> VersionRecord) list \<Rightarrow> VersionRecord json bucket \<Rightarrow> VersionRecord json bucket" where
  "demote rs b = foldl (\<lambda>b (k, r). if vr_IsLatest r then b_upd k (marshal_rec (r\<lparr>vr_IsLatest := False\<rparr>)) b else b) b rs"

definition putVersion ::
  "string \<Rightarrow> string \<Rightarrow> VersionRecord \<Rightarrow> VersionRecord json bucket \<Rightarrow> VersionRecord json bucket res" where
  "putVersion bucket key r b =
     (let pre = version_prefix bucket key in
      res_bind (range_scan pre (Seek pre b)) (\<lambda>rs.
        b_put (versionKey bucket key (vr_VersionID r)) (marshal_rec r) (demote rs b)))"

definition newer :: "VersionRecord \<Rightarrow> VersionRecord \<Rightarrow> bool" where
  "newer r best \<longleftrightarrow> sint (vr_Timestamp r) > sint (vr_Timestamp best) \<or>
     (vr_Timestamp r = vr_Timestamp best \<and> vr_VersionID r > vr_VersionID best)"

definition latestVersionTx :: "string \<Rightarrow> string \<Rightarrow> VersionRecord json bucket \<Rightarrow> VersionRecord option res" where
  "latestVersionTx bucket key b =
     (let pre = version_prefix bucket key in
      res_bind (range_scan pre (Seek pre b)) (\<lambda>rs.
        Inr (map_option (\<lambda>r. r\<lparr>vr_Key := key\<rparr>)
          (foldl (\<lambda>best (k, r). case best of None \<Rightarrow> Some r | Some x \<Rightarrow> if newer r x then Some r else Some x)
             None rs))))"

definition version_tx ::
  "(VersionRecord json bucket \<Rightarrow> VersionRecord json bucket res) \<Rightarrow> metadb \<Rightarrow> metadb res" where
  "version_tx f d = res_bind (f (bucketObjectVersions d)) (\<lambda>b. Inr (d\<lparr>bucketObjectVersions := b\<rparr>))"

text \<open>The second component of a result is the record passed to the replication hook.\<close>

definition RecordVersion ::
  "bytes option \<Rightarrow> bool \<Rightarrow> 64 word \<Rightarrow> string \<Rightarrow> string \<Rightarrow> string \<Rightarrow> 64 word \<Rightarrow> 'b CASStore \<Rightarrow>
   (string \<times> VersionRecord) res \<times> 'b CASStore" where
  "RecordVersion rnd commit now bucket key hash sz s =
     (case newVersionID rnd of
        Inl e \<Rightarrow> (Inl e, s)
      | Inr vid \<Rightarrow>
          let r = \<lparr>vr_VersionID = vid, vr_Hash = hash, vr_Size = sz, vr_Timestamp = now, vr_IsLatest = True,
                   vr_IsDeleteMarker = False, vr_Key = []\<rparr> in
          case store_tx commit (version_tx (putVersion bucket key r)) s of
            (Some e, s') \<Rightarrow> (Inl e, s')
          | (None, s') \<Rightarrow> (Inr (vid, r), s'))"

definition RecordDeleteMarker ::
  "bytes option \<Rightarrow> bool \<Rightarrow> 64 word \<Rightarrow> string \<Rightarrow> string \<Rightarrow> 'b CASStore \<Rightarrow>
   (string \<times> VersionRecord) res \<times> 'b CASStore" where
  "RecordDeleteMarker rnd commit now bucket key s =
     (case newVersionID rnd of
        Inl e \<Rightarrow> (Inl e, s)
      | Inr vid \<Rightarrow>
          let r = \<lparr>vr_VersionID = vid, vr_Hash = [], vr_Size = 0, vr_Timestamp = now, vr_IsLatest = True,
                   vr_IsDeleteMarker = True, vr_Key = []\<rparr> in
          case store_tx commit (version_tx (putVersion bucket key r)) s of
            (Some e, s') \<Rightarrow> (Inl e, s')
          | (None, s') \<Rightarrow> (Inr (vid, r), s'))"

definition applyReplicatedRecord ::
  "string \<Rightarrow> string \<Rightarrow> VersionRecord \<Rightarrow> VersionRecord json bucket \<Rightarrow> VersionRecord json bucket res" where
  "applyReplicatedRecord bucket key r b =
     (let k = versionKey bucket key (vr_VersionID r);
          demoted = b_put k (marshal_rec (r\<lparr>vr_IsLatest := False\<rparr>)) b
      in if b_get b k = Some (Json r) then Inr b
         else if vr_IsLatest r then
           res_bind (latestVersionTx bucket key b) (\<lambda>latest.
             case latest of
               None \<Rightarrow> putVersion bucket key r b
             | Some l \<Rightarrow> if sint (vr_Timestamp r) \<ge> sint (vr_Timestamp l) then putVersion bucket key r b
                         else demoted)
         else demoted)"

definition PutVersionRecord ::
  "bool \<Rightarrow> string \<Rightarrow> string \<Rightarrow> VersionRecord \<Rightarrow> 'b CASStore \<Rightarrow> err option \<times> 'b CASStore" where
  "PutVersionRecord commit bucket key r s =
     (if bucket = [] \<or> key = [] \<or> vr_VersionID r = [] then (Some (Bare EINVAL), s)
      else store_tx commit (version_tx (applyReplicatedRecord bucket key (r\<lparr>vr_Key := []\<rparr>))) s)"

definition LatestVersion :: "string \<Rightarrow> string \<Rightarrow> 'b CASStore \<Rightarrow> VersionRecord option res" where
  "LatestVersion bucket key s = latestVersionTx bucket key (bucketObjectVersions (st_db s))"

definition GetVersion :: "string \<Rightarrow> string \<Rightarrow> string \<Rightarrow> 'b CASStore \<Rightarrow> VersionRecord res" where
  "GetVersion bucket key versionID s =
     (case b_get (bucketObjectVersions (st_db s)) (versionKey bucket key versionID) of
        None \<Rightarrow> Inl (Bare ENOENT)
      | Some v \<Rightarrow> (case Unmarshal v of
            None \<Rightarrow> Inl (Plain ''corrupt version record'') | Some r \<Rightarrow> Inr (r\<lparr>vr_Key := key\<rparr>)))"

section \<open>Listing\<close>

record versionEntry =
  ve_key :: string
  ve_rec :: VersionRecord

record VersionPage =
  vp_Records :: "VersionRecord list"
  vp_NextKeyMarker :: string
  vp_NextVersionID :: string
  vp_IsTruncated :: bool

fun scan_loop :: "string \<Rightarrow> string \<Rightarrow> VersionRecord json bucket \<Rightarrow> versionEntry list res" where
  "scan_loop head pre [] = Inr []"
| "scan_loop head pre ((full, v) # later) =
     (if length full \<le> length head \<or> take (length head) full \<noteq> head then Inr []
      else let rest = drop (length head) full in
        case IndexByte rest nul of
          None \<Rightarrow> scan_loop head pre later
        | Some i \<Rightarrow>
            let key = take i rest in
            if pre \<noteq> [] \<and> take (length pre) key \<noteq> pre then scan_loop head pre later
            else (case Unmarshal v of
               None \<Rightarrow> Inl (Plain ''corrupt version record'')
             | Some r \<Rightarrow> res_bind (scan_loop head pre later)
                 (\<lambda>es. Inr (\<lparr>ve_key = key, ve_rec = r\<rparr> # es))))"

definition scanVersionEntries :: "string \<Rightarrow> string \<Rightarrow> VersionRecord json bucket \<Rightarrow> versionEntry list res" where
  "scanVersionEntries bucket pre b = scan_loop (bucket @ [nul]) pre (Seek (bucket @ [nul]) b)"

definition entry_lt :: "versionEntry \<Rightarrow> versionEntry \<Rightarrow> bool" where
  "entry_lt x y =
     (if ve_key x \<noteq> ve_key y then ve_key x < ve_key y
      else if vr_Timestamp (ve_rec x) \<noteq> vr_Timestamp (ve_rec y)
        then sint (vr_Timestamp (ve_rec x)) > sint (vr_Timestamp (ve_rec y))
      else vr_VersionID (ve_rec x) > vr_VersionID (ve_rec y))"

definition sortVersionEntries :: "versionEntry list \<Rightarrow> versionEntry list" where
  "sortVersionEntries es = SliceStable entry_lt es"

fun resume_loop :: "versionEntry list \<Rightarrow> string \<Rightarrow> string \<Rightarrow> versionEntry list" where
  "resume_loop [] keyMarker vid = []"
| "resume_loop (e # es) keyMarker vid =
     (if ve_key e = keyMarker \<and> vr_VersionID (ve_rec e) = vid then es
      else if ve_key e > keyMarker then e # es
      else resume_loop es keyMarker vid)"

definition resumeAfterMarker :: "versionEntry list \<Rightarrow> string \<Rightarrow> string \<Rightarrow> versionEntry list" where
  "resumeAfterMarker es keyMarker vid =
     (if keyMarker = [] \<or> vid = [] then es else resume_loop es keyMarker vid)"

definition paginate :: "versionEntry list \<Rightarrow> int \<Rightarrow> VersionPage" where
  "paginate es maxKeys =
     (let trunc = maxKeys > 0 \<and> int (length es) > maxKeys;
          es' = (if trunc then take (nat maxKeys) es else es)
      in \<lparr>vp_Records = map (\<lambda>e. (ve_rec e)\<lparr>vr_Key := ve_key e\<rparr>) es',
          vp_NextKeyMarker = (if trunc \<and> es' \<noteq> [] then ve_key (last es') else []),
          vp_NextVersionID = (if trunc \<and> es' \<noteq> [] then vr_VersionID (ve_rec (last es')) else []),
          vp_IsTruncated = trunc\<rparr>)"

definition ListVersions ::
  "string \<Rightarrow> string \<Rightarrow> string \<Rightarrow> string \<Rightarrow> int \<Rightarrow> 'b CASStore \<Rightarrow> VersionPage res" where
  "ListVersions bucket pre keyMarker vid maxKeys s =
     res_bind (scanVersionEntries bucket pre (bucketObjectVersions (st_db s))) (\<lambda>es.
       Inr (paginate (resumeAfterMarker (sortVersionEntries es) keyMarker vid) maxKeys))"

section \<open>Deleting\<close>

definition rePointLatest ::
  "string \<Rightarrow> string \<Rightarrow> bool \<Rightarrow> VersionRecord json bucket \<Rightarrow> VersionRecord json bucket res" where
  "rePointLatest bucket key wasLatest b =
     (if \<not> wasLatest then Inr b
      else res_bind (latestVersionTx bucket key b) (\<lambda>next.
        case next of
          None \<Rightarrow> Inr b
        | Some r \<Rightarrow>
            if vr_IsLatest r then Inr b
            else b_put (versionKey bucket key (vr_VersionID r)) (marshal_rec (r\<lparr>vr_IsLatest := True\<rparr>)) b))"

definition delete_version_tx ::
  "string \<Rightarrow> string \<Rightarrow> string \<Rightarrow> int \<Rightarrow> bool \<Rightarrow> metadb \<Rightarrow> (metadb \<times> VersionRecord) res" where
  "delete_version_tx bucket key versionID now bypass d =
     (let k = versionKey bucket key versionID; b = bucketObjectVersions d in
      case b_get b k of
        None \<Rightarrow> Inl (Bare ENOENT)
      | Some v \<Rightarrow>
          (case Unmarshal v of
             None \<Rightarrow> Inl (Plain ''corrupt version record'')
           | Some deleted \<Rightarrow>
               res_bind (if \<not> vr_IsDeleteMarker deleted then lockDeniesTx d bucket key versionID now bypass
                         else Inr False) (\<lambda>denied.
                 if denied then Inl (Bare EACCES)
                 else res_bind (rePointLatest bucket key (vr_IsLatest deleted) (b_del k b)) (\<lambda>b'.
                   Inr (d\<lparr>bucketObjectVersions := b'\<rparr>, deleted)))))"

definition DeleteVersion ::
  "bool \<Rightarrow> string \<Rightarrow> string \<Rightarrow> string \<Rightarrow> int \<Rightarrow> bool \<Rightarrow> 'b CASStore \<Rightarrow> VersionRecord res \<times> 'b CASStore" where
  "DeleteVersion commit bucket key versionID now bypass s =
     (case Update_val commit (delete_version_tx bucket key versionID now bypass) (st_db s) of
        Inl e \<Rightarrow> (Inl e, s)
      | Inr (d, deleted) \<Rightarrow> (Inr deleted, s\<lparr>st_db := d\<rparr>))"

definition GetVersionContent ::
  "'b BlobStore \<Rightarrow> string \<Rightarrow> string \<Rightarrow> string \<Rightarrow> 'b CASStore \<Rightarrow> (stream \<times> VersionRecord) res" where
  "GetVersionContent bs bucket key versionID s =
     res_bind (GetVersion bucket key versionID s) (\<lambda>r.
       if vr_IsDeleteMarker r then Inl (Bare ENOENT)
       else res_bind (GetBlob bs (vr_Hash r) (st_blobs s)) (\<lambda>rc. Inr (rc, r)))"

definition RepointNamespace :: "bool \<Rightarrow> string \<Rightarrow> string \<Rightarrow> 'b CASStore \<Rightarrow> err option \<times> 'b CASStore" where
  "RepointNamespace commit name hash s =
     (if hash = [] then store_tx commit (\<lambda>d. Inr (d\<lparr>bucketNamespace := b_del name (bucketNamespace d)\<rparr>)) s
      else store_tx commit (\<lambda>d. res_bind (b_put name hash (bucketNamespace d))
        (\<lambda>b. Inr (d\<lparr>bucketNamespace := b\<rparr>))) s)"

section \<open>Locked versions cannot be deleted\<close>

text \<open>
  C8: a data version under a legal hold or an active COMPLIANCE retention cannot be deleted, not even with
  the governance bypass: the call returns EACCES and changes nothing.
\<close>

theorem DeleteVersion_worm:
  assumes "b_get (bucketObjectVersions (st_db s)) (versionKey bucket key vid) = Some (Json r)"
    "\<not> vr_IsDeleteMarker r"
    "b_get (bucketLockState (st_db s)) (lockStatusKey bucket key vid) = Some (Json l)"
    "lk_LegalHoldOn l \<or> (lk_Mode l = LockModeCompliance \<and> lk_RetainUntil l > now)"
  shows "DeleteVersion commit bucket key vid now bypass s = (Inl (Bare EACCES), s)"
  using assms
  by (auto simp: DeleteVersion_def Update_val_def delete_version_tx_def lockDeniesTx_def lockedAt_def lock_modes Let_def)

definition held_store :: "LocalBlobStore CASStore" where
  "held_store = (newCASStore ''/srv/momo'' empty_local)\<lparr>st_db := initBuckets
     \<lparr>bucketObjectVersions := [(versionKey ''b'' ''k'' ''v'', Json \<lparr>vr_VersionID = ''v'', vr_Hash = ''h'',
        vr_Size = 1, vr_Timestamp = 5, vr_IsLatest = True, vr_IsDeleteMarker = False, vr_Key = []\<rparr>)],
      bucketLockState := [(lockStatusKey ''b'' ''k'' ''v'',
        Json \<lparr>lk_Mode = ''COMPLIANCE'', lk_RetainUntil = 2000, lk_LegalHoldOn = False\<rparr>)]\<rparr>\<rparr>"

theorem DeleteVersion_worm_witness:
  "DeleteVersion True ''b'' ''k'' ''v'' 1000 True held_store = (Inl (Bare EACCES), held_store)"
  by (rule DeleteVersion_worm, (simp add: held_store_def b_get_def lock_modes)+)

section \<open>Pages neither skip nor repeat a version\<close>

lemma entry_lt_order: "strict_weak_order entry_lt"
proof
  fix x y show "entry_lt x y \<Longrightarrow> \<not> entry_lt y x" by (auto simp: entry_lt_def split: if_splits)
next
  fix x y z assume *: "\<not> entry_lt x y" "\<not> entry_lt y z"
  have ts: "vr_Timestamp (ve_rec a) = vr_Timestamp (ve_rec b)"
    if "sint (vr_Timestamp (ve_rec a)) = sint (vr_Timestamp (ve_rec b))" for a b
    using that by (simp add: signed_word_eqI)
  show "\<not> entry_lt x z"
    using * ts [of x y] ts [of y z] ts [of x z] by (auto simp: entry_lt_def split: if_splits)
qed

interpretation entry_order: strict_weak_order entry_lt by (rule entry_lt_order)

definition entry_id :: "versionEntry \<Rightarrow> string \<times> string" where
  "entry_id e = (ve_key e, vr_VersionID (ve_rec e))"

lemma resume_loop_at:
  "sorted_wrt (\<lambda>a b. \<not> entry_lt b a) es \<Longrightarrow> distinct (map entry_id es) \<Longrightarrow> i < length es \<Longrightarrow>
     resume_loop es (ve_key (es ! i)) (vr_VersionID (ve_rec (es ! i))) = drop (Suc i) es"
proof (induction es arbitrary: i)
  case (Cons e es)
  show ?case
  proof (cases i)
    case (Suc j)
    have j: "es ! j \<in> set es" "j < length es" using Cons.prems(3) Suc by auto
    have "\<not> entry_lt (es ! j) e" using Cons.prems(1) j by simp
    then have "\<not> ve_key e > ve_key (es ! j)" by (auto simp: entry_lt_def split: if_splits)
    moreover have "entry_id e \<noteq> entry_id (es ! j)" using Cons.prems(2) j by auto
    ultimately show ?thesis using Cons Suc by (auto simp: entry_id_def)
  qed simp
qed simp

lemma resumeAfterMarker_drop: "\<exists>j. resumeAfterMarker es m v = drop j es"
proof -
  have "\<exists>j. resume_loop es m v = drop j es"
  proof (induction es)
    case (Cons e es)
    then obtain j where "resume_loop es m v = drop j es" by blast
    then have "resume_loop (e # es) m v \<in> {drop 1 (e # es), drop 0 (e # es), drop (Suc j) (e # es)}" by simp
    then show ?case by blast
  qed simp
  then show ?thesis by (auto simp: resumeAfterMarker_def intro: exI [of _ 0])
qed

lemma next_page_resumes:
  assumes sorted: "sorted_wrt (\<lambda>a b. \<not> entry_lt b a) es" and dist: "distinct (map entry_id es)"
    and ne: "\<forall>e \<in> set es. ve_key e \<noteq> [] \<and> vr_VersionID (ve_rec e) \<noteq> []"
    and p: "p = paginate (resumeAfterMarker es m v) k" "vp_IsTruncated p"
  shows "resumeAfterMarker es (vp_NextKeyMarker p) (vp_NextVersionID p) = drop (nat k) (resumeAfterMarker es m v)"
proof -
  obtain j where j: "resumeAfterMarker es m v = drop j es" using resumeAfterMarker_drop by blast
  have k: "0 < nat k" "nat k < length (drop j es)" using p by (auto simp: paginate_def j Let_def)
  let ?i = "j + nat k - 1"
  have i: "?i < length es" "Suc ?i = j + nat k" using k by auto
  have "last (take (nat k) (drop j es)) = es ! ?i"
    using k by (simp add: last_conv_nth)
  then have mk: "vp_NextKeyMarker p = ve_key (es ! ?i)" "vp_NextVersionID p = vr_VersionID (ve_rec (es ! ?i))"
    using p k by (auto simp: paginate_def j Let_def)
  have "resumeAfterMarker es (vp_NextKeyMarker p) (vp_NextVersionID p) = drop (j + nat k) es"
    using resume_loop_at [OF sorted dist i(1)] ne i nth_mem [OF i(1)] by (simp add: resumeAfterMarker_def mk)
  then show ?thesis by (simp add: j add.commute)
qed

text \<open>
  C15: following the markers of a truncated page continues exactly where the page stopped: the records of
  the page and all records after its markers are, in order, all records after the page's own start.
\<close>

theorem ListVersions_resumes:
  assumes "scanVersionEntries bucket pre (bucketObjectVersions (st_db s)) = Inr es"
    "distinct (map entry_id es)" "\<forall>e \<in> set es. ve_key e \<noteq> [] \<and> vr_VersionID (ve_rec e) \<noteq> []"
    "ListVersions bucket pre m v k s = Inr page" "vp_IsTruncated page"
    "ListVersions bucket pre (vp_NextKeyMarker page) (vp_NextVersionID page) 0 s = Inr later"
    "ListVersions bucket pre m v 0 s = Inr whole"
  shows "vp_Records page @ vp_Records later = vp_Records whole"
proof -
  let ?es = "sortVersionEntries es"
  have p: "page = paginate (resumeAfterMarker ?es m v) k" using assms(1,4) by (simp add: ListVersions_def)
  have mset: "mset (map entry_id ?es) = mset (map entry_id es)" by (simp add: sortVersionEntries_def)
  have "resumeAfterMarker ?es (vp_NextKeyMarker page) (vp_NextVersionID page) =
      drop (nat k) (resumeAfterMarker ?es m v)"
    by (rule next_page_resumes [OF _ _ _ p assms(5)])
      (use assms(2,3) mset in \<open>auto simp: sortVersionEntries_def entry_order.sorted_SliceStable
          simp del: mset_map dest: mset_eq_imp_distinct_iff\<close>)
  moreover have "vp_Records page = map (\<lambda>e. (ve_rec e)\<lparr>vr_Key := ve_key e\<rparr>) (take (nat k) (resumeAfterMarker ?es m v))"
    using assms(5) by (auto simp: p paginate_def Let_def)
  ultimately show ?thesis using assms(1,6,7)
    by (auto simp: ListVersions_def paginate_def simp flip: map_append)
qed

definition two_versions :: "LocalBlobStore CASStore" where
  "two_versions = (newCASStore ''/srv/momo'' empty_local)\<lparr>st_db := initBuckets
     \<lparr>bucketObjectVersions := map (\<lambda>(vid, t). (versionKey ''b'' ''k'' vid, Json \<lparr>vr_VersionID = vid, vr_Hash = ''h'',
        vr_Size = 1, vr_Timestamp = t, vr_IsLatest = (t = 9), vr_IsDeleteMarker = False, vr_Key = []\<rparr>))
        [(''v'', 5), (''w'', 9)]\<rparr>\<rparr>"

lemma two_versions_scan:
  "scanVersionEntries ''b'' [] (bucketObjectVersions (st_db two_versions)) =
     Inr (map (\<lambda>(vid, t). \<lparr>ve_key = ''k'', ve_rec = \<lparr>vr_VersionID = vid, vr_Hash = ''h'', vr_Size = 1,
       vr_Timestamp = t, vr_IsLatest = (t = 9), vr_IsDeleteMarker = False, vr_Key = []\<rparr>\<rparr>) [(''v'', 5), (''w'', 9)])"
  by (simp add: two_versions_def scanVersionEntries_def Seek_def versionKey_def nul_def Let_def)

theorem ListVersions_resumes_witness:
  "\<exists>page later whole. ListVersions ''b'' [] [] [] 1 two_versions = Inr page \<and> vp_IsTruncated page \<and>
     ListVersions ''b'' [] (vp_NextKeyMarker page) (vp_NextVersionID page) 0 two_versions = Inr later \<and>
     ListVersions ''b'' [] [] [] 0 two_versions = Inr whole \<and> length (vp_Records whole) = 2 \<and>
     vp_Records page @ vp_Records later = vp_Records whole"
proof -
  obtain page where page: "ListVersions ''b'' [] [] [] 1 two_versions = Inr page" "vp_IsTruncated page"
    by (simp add: ListVersions_def two_versions_scan resumeAfterMarker_def paginate_def sortVersionEntries_def entry_lt_def)
  obtain later where later: "ListVersions ''b'' [] (vp_NextKeyMarker page) (vp_NextVersionID page) 0 two_versions = Inr later"
    by (simp add: ListVersions_def two_versions_scan)
  obtain whole where whole: "ListVersions ''b'' [] [] [] 0 two_versions = Inr whole" "length (vp_Records whole) = 2"
    by (simp add: ListVersions_def two_versions_scan resumeAfterMarker_def paginate_def sortVersionEntries_def entry_lt_def)
  show ?thesis
    using ListVersions_resumes [OF two_versions_scan _ _ page later whole(1)] page later whole
    by (auto simp: entry_id_def)
qed

section \<open>The latest version\<close>

lemma past_prefix: "p \<le> k \<Longrightarrow> take (length p) k \<noteq> p \<Longrightarrow> p @ t < (k :: string)"
proof (induction p arbitrary: k)
  case (Cons c p)
  then show ?case by (cases k) auto
qed simp

lemma append_less: "x < y \<Longrightarrow> length y < length x \<Longrightarrow> x @ u < y @ (w :: string)"
proof (induction x arbitrary: y)
  case (Cons c x)
  then show ?case by (cases y) auto
qed simp

lemma range_scan_spec:
  "b_inv b \<Longrightarrow> \<forall>(k, v) \<in> set b. p \<le> k \<Longrightarrow> range_scan p b = Inr rs \<Longrightarrow>
     set rs = {(k, r). \<exists>v. (k, v) \<in> set b \<and> take (length p) k = p \<and> Unmarshal v = Some r} \<and>
     (\<forall>(k, v) \<in> set b. take (length p) k = p \<longrightarrow> Unmarshal v \<noteq> None) \<and> distinct (map fst rs)"
proof (induction p b arbitrary: rs rule: range_scan.induct)
  case (2 p k v rest)
  have sorted: "b_inv rest" "\<forall>(k', v') \<in> set rest. k < k'" using "2.prems"(1) by (auto simp: b_inv_def)
  show ?case
  proof (cases "take (length p) k = p")
    case False
    have "take (length p) k' \<noteq> p" if "(k', v') \<in> set rest" for k' v'
    proof
      assume "take (length p) k' = p"
      then have "k' = p @ drop (length p) k'" by (metis append_take_drop_id)
      moreover have "p @ drop (length p) k' < k" using past_prefix [of p k] "2.prems"(2) False by auto
      ultimately show False using sorted(2) that by fastforce
    qed
    moreover have "rs = []" using "2.prems"(3) False by (auto split: if_splits)
    ultimately show ?thesis using False by auto
  next
    case True
    then have len: "\<not> length k < length p" by (metis length_take min.absorb_iff2 not_less)
    obtain r rs' where r: "Unmarshal v = Some r" "range_scan p rest = Inr rs'" "rs = (k, r) # rs'"
      using "2.prems"(3) True len by (auto simp: res_bind_Inr_conv split: option.splits)
    have IH: "set rs' = {(k, r). \<exists>v. (k, v) \<in> set rest \<and> take (length p) k = p \<and> Unmarshal v = Some r} \<and>
        (\<forall>(k, v) \<in> set rest. take (length p) k = p \<longrightarrow> Unmarshal v \<noteq> None) \<and> distinct (map fst rs')"
      using "2.IH" [OF len _ r(1) sorted(1) _ r(2)] "2.prems"(2) True by auto
    then show ?thesis using r True sorted(2) by (auto; force)
  qed
qed auto

lemma Seek_facts:
  assumes "b_inv b"
  shows "b_inv (Seek p b)" "\<forall>(k, v) \<in> set (Seek p b). p \<le> k"
    "(k, v) \<in> set (Seek p b) \<longleftrightarrow> (k, v) \<in> set b \<and> p \<le> k"
proof -
  have s: "sorted_wrt (\<lambda>x y. fst x < fst y) b" using assms by (simp add: b_inv_def sorted_wrt_map)
  have eq: "Seek p b = filter (\<lambda>(k, v). p \<le> k) b"
    using s
  proof (induction b)
    case (Cons x b)
    have "filter (\<lambda>(k, v). p \<le> k) b = b" if "\<not> fst x < p"
      using Cons.prems that by (fastforce intro!: filter_True)
    then show ?case using Cons by (cases x) (auto simp: Seek_def)
  qed (simp add: Seek_def)
  show "b_inv (Seek p b)" using s by (simp add: eq b_inv_def sorted_wrt_map sorted_wrt_filter)
  show "\<forall>(k, v) \<in> set (Seek p b). p \<le> k" "(k, v) \<in> set (Seek p b) \<longleftrightarrow> (k, v) \<in> set b \<and> p \<le> k"
    by (auto simp: eq)
qed

lemma prefix_le: "take (length p) k = p \<Longrightarrow> p \<le> (k :: string)"
proof (induction p arbitrary: k)
  case (Cons c p)
  then show ?case by (cases k) auto
qed simp

lemma range_scan_bucket:
  assumes "b_inv b" "range_scan p (Seek p b) = Inr rs"
  shows "(k, r) \<in> set rs \<longleftrightarrow> (\<exists>v. b_get b k = Some v \<and> take (length p) k = p \<and> Unmarshal v = Some r)"
    "distinct (map fst rs)"
proof -
  note sp = range_scan_spec [OF Seek_facts(1,2) [OF assms(1)] assms(2)]
  have dist: "distinct (map fst b)" using assms(1) by (simp add: b_inv_def strict_sorted_iff)
  show "(k, r) \<in> set rs \<longleftrightarrow> (\<exists>v. b_get b k = Some v \<and> take (length p) k = p \<and> Unmarshal v = Some r)"
    using sp Seek_facts(3) [OF assms(1)] prefix_le [of p k] by (auto simp: b_get_def dist)
  show "distinct (map fst rs)" using sp by simp
qed

lemma demote_get:
  "b_inv b \<Longrightarrow> distinct (map fst rs) \<Longrightarrow> b_inv (demote rs b) \<and>
     b_get (demote rs b) k =
       (case map_of rs k of Some r \<Rightarrow> if vr_IsLatest r then Some (marshal_rec (r\<lparr>vr_IsLatest := False\<rparr>)) else b_get b k
        | None \<Rightarrow> b_get b k)"
proof (induction rs arbitrary: b)
  case (Cons x rs)
  obtain j r where x: "x = (j, r)" by fastforce
  let ?b = "if vr_IsLatest r then b_upd j (marshal_rec (r\<lparr>vr_IsLatest := False\<rparr>)) b else b"
  have inv: "b_inv ?b" using Cons.prems(1) by (simp add: b_inv_b_upd)
  have "map_of rs j = None" using Cons.prems(2) x by (simp add: map_of_eq_None_iff)
  moreover have "demote (x # rs) b = demote rs ?b" by (simp add: demote_def x)
  ultimately show ?case using Cons.IH [OF inv] Cons.prems x
    by (auto simp: bucket_law split: option.splits)
qed (simp add: demote_def)

text \<open>
  C16: recording a version makes it the only latest one of its key: the new record is stored, every other
  record in the key's range loses the flag, and no record outside the range changes.
\<close>

theorem putVersion_latest:
  assumes "b_inv b" "putVersion bucket key r b = Inr b'"
  shows "b_get b' (versionKey bucket key (vr_VersionID r)) = Some (marshal_rec r) \<and>
    (\<forall>k x. k \<noteq> versionKey bucket key (vr_VersionID r) \<longrightarrow>
       take (length (version_prefix bucket key)) k = version_prefix bucket key \<longrightarrow>
       b_get b' k = Some (Json x) \<longrightarrow> \<not> vr_IsLatest x) \<and>
    (\<forall>k. take (length (version_prefix bucket key)) k \<noteq> version_prefix bucket key \<longrightarrow> b_get b' k = b_get b k)"
proof -
  let ?p = "version_prefix bucket key" and ?K = "versionKey bucket key (vr_VersionID r)"
  obtain rs where rs: "range_scan ?p (Seek ?p b) = Inr rs" and b': "b' = b_upd ?K (marshal_rec r) (demote rs b)"
    using assms(2) by (auto simp: putVersion_def Let_def res_bind_Inr_conv b_put_ok_iff)
  note sc = range_scan_bucket [OF assms(1) rs]
  note dm = demote_get [OF assms(1) sc(2)]
  have K: "take (length ?p) ?K = ?p" by (simp add: version_prefix_def versionKey_def)
  have get: "b_get b' k = (if k = ?K then Some (marshal_rec r) else b_get (demote rs b) k)" for k
    using dm by (simp add: b' bucket_law)
  have "\<not> vr_IsLatest x"
    if "k \<noteq> ?K" "take (length ?p) k = ?p" "b_get b' k = Some (Json x)" for k x
  proof (cases "map_of rs k")
    case None
    then have nin: "\<forall>y. (k, y) \<notin> set rs" by (force simp: map_of_eq_None_iff)
    have "b_get b k = Some (Json x)" using that dm [of k] None get by simp
    then have "(k, x) \<in> set rs" using sc(1) [of k x] that(2) by simp
    with nin show ?thesis by blast
  next
    case (Some y)
    then have "\<exists>v. b_get b k = Some v \<and> Unmarshal v = Some y" using sc(1) [of k y] map_of_SomeD by fastforce
    then show ?thesis using that dm [of k] Some get
      by (auto simp: marshal_rec_def Unmarshal_def split: if_splits json.splits)
  qed
  moreover have "b_get b' k = b_get b k" if "take (length ?p) k \<noteq> ?p" for k
  proof -
    have "map_of rs k = None" using sc(1) [of k] that map_of_SomeD [of rs k] by (cases "map_of rs k") auto
    then show ?thesis using that K get dm [of k] by auto
  qed
  ultimately show ?thesis using get by auto
qed

text \<open>
  Recording the first version of a key fails with EIO when the bucket's next key is so much shorter
  that the cursor's key is shorter than the scanned prefix: the slice of the key panics.
\<close>

theorem putVersion_short_neighbour:
  assumes "key < other" "length other + length vid < length key"
  shows "putVersion bucket key r [(versionKey bucket other vid, v)] = Inl (Wrap EIO)"
proof -
  have "key @ [nul] < other @ ([nul] @ vid)" using append_less [OF assms(1)] assms(2) by simp
  then have "version_prefix bucket key < versionKey bucket other vid"
    by (induction bucket) (simp_all add: version_prefix_def versionKey_def)
  then show ?thesis using assms(2)
    by (auto simp: putVersion_def Seek_def version_prefix_def versionKey_def Let_def)
qed

theorem putVersion_short_neighbour_witness:
  "putVersion ''b'' (replicate 60 CHR ''a'') \<lparr>vr_VersionID = ''v'', vr_Hash = ''h'', vr_Size = 1, vr_Timestamp = 5,
     vr_IsLatest = True, vr_IsDeleteMarker = False, vr_Key = []\<rparr>
     [(versionKey ''b'' ''z'' (replicate 36 CHR ''0''), BadJson)] = Inl (Wrap EIO)"
proof (rule putVersion_short_neighbour)
  have "replicate 60 CHR ''a'' = CHR ''a'' # replicate 59 CHR ''a''" by (simp add: numeral_eq_Suc)
  then show "replicate 60 CHR ''a'' < ''z''" by (simp add: less_char_def)
qed simp

theorem putVersion_latest_witness:
  "\<exists>b'. putVersion ''b'' ''k'' \<lparr>vr_VersionID = ''w'', vr_Hash = ''h'', vr_Size = 1, vr_Timestamp = 9,
       vr_IsLatest = True, vr_IsDeleteMarker = False, vr_Key = []\<rparr> (bucketObjectVersions (st_db held_store)) = Inr b' \<and>
     (\<forall>x. b_get b' (versionKey ''b'' ''k'' ''v'') = Some (Json x) \<longrightarrow> \<not> vr_IsLatest x)"
proof -
  let ?r = "\<lparr>vr_VersionID = ''w'', vr_Hash = ''h'', vr_Size = 1, vr_Timestamp = 9,
       vr_IsLatest = True, vr_IsDeleteMarker = False, vr_Key = []\<rparr>"
  obtain b' where b': "putVersion ''b'' ''k'' ?r (bucketObjectVersions (st_db held_store)) = Inr b'"
    by (simp add: putVersion_def held_store_def Seek_def version_prefix_def versionKey_def Let_def b_put_def MaxKeySize_def)
  have inv: "b_inv (bucketObjectVersions (st_db held_store))" by (simp add: held_store_def b_inv_def)
  have "versionKey ''b'' ''k'' ''v'' \<noteq> versionKey ''b'' ''k'' ''w''"
    "take (length (version_prefix ''b'' ''k'')) (versionKey ''b'' ''k'' ''v'') = version_prefix ''b'' ''k''"
    by (simp_all add: versionKey_def version_prefix_def)
  then show ?thesis using putVersion_latest [OF inv b'] b' by fastforce
qed

end
