(* ===== verification/Bucket_Policies.thy ===== *)
theory Bucket_Policies
  imports Versioning
begin

text \<open>
  Per-bucket policies: the lifecycle rules of \<^verbatim>\<open>src/src/storage/lifecycle.go\<close> and the event
  notifications of \<^verbatim>\<open>src/src/storage/notification.go\<close>. The age of an object in days is computed in
  floating point and is a parameter of the model, as are the answers of a webhook.
\<close>

section \<open>Lifecycle\<close>

definition LifecycleEnabled :: string where "LifecycleEnabled = ''Enabled''"

record LifecycleOutcome =
  lo_Expired :: int
  lo_Transitioned :: int

definition SetBucketLifecycle :: "bool \<Rightarrow> string \<Rightarrow> LifecycleConfig \<Rightarrow> 'b CASStore \<Rightarrow> err option \<times> 'b CASStore" where
  "SetBucketLifecycle commit bucket cfg s =
     (if bucket = [] then (Some (Wrap EINVAL), s)
      else store_tx commit (\<lambda>d. res_bind (b_put bucket (Json cfg) (bucketLifecycle d))
        (\<lambda>b. Inr (d\<lparr>bucketLifecycle := b\<rparr>))) s)"

definition BucketLifecycle :: "string \<Rightarrow> 'b CASStore \<Rightarrow> LifecycleConfig option res" where
  "BucketLifecycle bucket s =
     (case b_get (bucketLifecycle (st_db s)) bucket of
        None \<Rightarrow> Inr None
      | Some raw \<Rightarrow> (case Unmarshal raw of None \<Rightarrow> Inl (Wrap EIO) | Some cfg \<Rightarrow> Inr (Some cfg)))"

definition DeleteBucketLifecycle :: "bool \<Rightarrow> string \<Rightarrow> 'b CASStore \<Rightarrow> err option \<times> 'b CASStore" where
  "DeleteBucketLifecycle commit bucket s =
     store_tx commit (\<lambda>d. Inr (d\<lparr>bucketLifecycle := b_del bucket (bucketLifecycle d)\<rparr>)) s"

definition SetStorageClass ::
  "(string bucket \<Rightarrow> nat) \<Rightarrow> bool \<Rightarrow> string \<Rightarrow> string \<Rightarrow> 'b CASStore \<Rightarrow> err option \<times> 'b CASStore" where
  "SetStorageClass json_len commit name class s =
     (let headers = (case GetS3Meta name s of None \<Rightarrow> [] | Some h \<Rightarrow> h);
          cur = (case b_get headers ''x-amz-storage-class'' of None \<Rightarrow> [] | Some c \<Rightarrow> c)
      in if cur = class then (None, s)
         else PutS3Meta json_len commit name (b_upd ''x-amz-storage-class'' class headers) s)"

fun matchingRule :: "LifecycleRule list \<Rightarrow> string \<Rightarrow> LifecycleRule option" where
  "matchingRule [] name = None"
| "matchingRule (r # rs) name =
     (if lr_Status r \<noteq> LifecycleEnabled then matchingRule rs name
      else if take (length (lr_Prefix r)) name = lr_Prefix r then Some r
      else matchingRule rs name)"

text \<open>What the environment decides while one object is treated.\<close>

record life_env =
  le_rnd :: "bytes option"
  le_marker :: bool
  le_commit :: bool
  le_commit2 :: bool
  le_now :: "64 word"

definition expireObject ::
  "'b BlobStore \<Rightarrow> life_env \<Rightarrow> string \<Rightarrow> string \<Rightarrow> bool \<Rightarrow> 'b CASStore \<Rightarrow> err option \<times> 'b CASStore" where
  "expireObject bs env bucket name versioned s =
     (if versioned then
        (case RecordDeleteMarker (le_rnd env) (le_marker env) (le_now env) bucket name s of
           (Inl e, s') \<Rightarrow> (Some e, s')
         | (Inr _, s') \<Rightarrow> Delete bs (le_commit env) (le_commit2 env) (le_now env) name s')
      else Delete bs (le_commit env) (le_commit2 env) (le_now env) name s)"

definition applyLifecycleRule ::
  "'b BlobStore \<Rightarrow> (64 word \<Rightarrow> int) \<Rightarrow> (string bucket \<Rightarrow> nat) \<Rightarrow> life_env \<Rightarrow> string \<Rightarrow> FileMetadata \<Rightarrow> LifecycleRule \<Rightarrow>
   bool \<Rightarrow> LifecycleOutcome \<Rightarrow> 'b CASStore \<Rightarrow> (err option \<times> LifecycleOutcome) \<times> 'b CASStore" where
  "applyLifecycleRule bs age json_len env bucket obj rule versioned out s =
     (let ageDays = age (fm_ModTime obj) in
      if lr_ExpirationDays rule > 0 \<and> ageDays \<ge> lr_ExpirationDays rule then
        (case expireObject bs env bucket (fm_Name obj) versioned s of
           (Some e, s') \<Rightarrow> ((Some e, out), s')
         | (None, s') \<Rightarrow> ((None, out\<lparr>lo_Expired := lo_Expired out + 1\<rparr>), s'))
      else if lr_TransitionDays rule > 0 \<and> ageDays \<ge> lr_TransitionDays rule \<and> lr_StorageClass rule \<noteq> [] then
        (case SetStorageClass json_len (le_commit env) (fm_Name obj) (lr_StorageClass rule) s of
           (Some e, s') \<Rightarrow> ((Some e, out), s')
         | (None, s') \<Rightarrow> ((None, out\<lparr>lo_Transitioned := lo_Transitioned out + 1\<rparr>), s'))
      else ((None, out), s))"

fun lifecycle_loop ::
  "'b BlobStore \<Rightarrow> (64 word \<Rightarrow> int) \<Rightarrow> (string bucket \<Rightarrow> nat) \<Rightarrow> (string \<Rightarrow> life_env) \<Rightarrow> string \<Rightarrow> LifecycleConfig \<Rightarrow>
   bool \<Rightarrow> FileMetadata list \<Rightarrow> LifecycleOutcome \<Rightarrow> 'b CASStore \<Rightarrow> (err option \<times> LifecycleOutcome) \<times> 'b CASStore" where
  "lifecycle_loop bs age json_len env bucket cfg versioned [] out s = ((None, out), s)"
| "lifecycle_loop bs age json_len env bucket cfg versioned (obj # objs) out s =
     (case matchingRule (lc_Rules cfg) (fm_Name obj) of
        None \<Rightarrow> lifecycle_loop bs age json_len env bucket cfg versioned objs out s
      | Some rule \<Rightarrow>
          if fm_ModTime obj = 0 then lifecycle_loop bs age json_len env bucket cfg versioned objs out s
          else (case applyLifecycleRule bs age json_len (env (fm_Name obj)) bucket obj rule versioned out s of
             ((Some e, out'), s') \<Rightarrow> ((Some e, out'), s')
           | ((None, out'), s') \<Rightarrow> lifecycle_loop bs age json_len env bucket cfg versioned objs out' s'))"

definition EvaluateLifecycle ::
  "'b BlobStore \<Rightarrow> (64 word \<Rightarrow> int) \<Rightarrow> (string bucket \<Rightarrow> nat) \<Rightarrow> (string \<Rightarrow> life_env) \<Rightarrow> string \<Rightarrow> 'b CASStore \<Rightarrow>
   (err option \<times> LifecycleOutcome) \<times> 'b CASStore" where
  "EvaluateLifecycle bs age json_len env bucket s =
     (let out = \<lparr>lo_Expired = 0, lo_Transitioned = 0\<rparr> in
      case BucketLifecycle bucket s of
        Inl e \<Rightarrow> ((Some e, out), s)
      | Inr None \<Rightarrow> ((None, out), s)
      | Inr (Some cfg) \<Rightarrow>
          if lc_Rules cfg = [] then ((None, out), s)
          else (case List_all s of
             Inl e \<Rightarrow> ((Some e, out), s)
           | Inr objects \<Rightarrow>
               lifecycle_loop bs age json_len env bucket cfg (IsVersioned bucket s) objects out s))"

section \<open>Notifications\<close>

record NotificationOutcome =
  no_Dispatched :: int
  no_Failed :: int

definition SetBucketNotification :: "bool \<Rightarrow> string \<Rightarrow> NotificationConfig \<Rightarrow> 'b CASStore \<Rightarrow> err option \<times> 'b CASStore" where
  "SetBucketNotification commit bucket cfg s =
     (if bucket = [] then (Some (Wrap EINVAL), s)
      else store_tx commit (\<lambda>d. res_bind (b_put bucket (Json cfg) (bucketNotification d))
        (\<lambda>b. Inr (d\<lparr>bucketNotification := b\<rparr>))) s)"

definition BucketNotification :: "string \<Rightarrow> 'b CASStore \<Rightarrow> NotificationConfig option res" where
  "BucketNotification bucket s =
     (case b_get (bucketNotification (st_db s)) bucket of
        None \<Rightarrow> Inr None
      | Some raw \<Rightarrow> (case Unmarshal raw of None \<Rightarrow> Inl (Wrap EIO) | Some cfg \<Rightarrow> Inr (Some cfg)))"

definition DeleteBucketNotification :: "bool \<Rightarrow> string \<Rightarrow> 'b CASStore \<Rightarrow> err option \<times> 'b CASStore" where
  "DeleteBucketNotification commit bucket s =
     store_tx commit (\<lambda>d. Inr (d\<lparr>bucketNotification := b_del bucket (bucketNotification d)\<rparr>)) s"

definition ruleMatches :: "NotificationRule \<Rightarrow> string \<Rightarrow> string \<Rightarrow> bool" where
  "ruleMatches rule key eventType =
     (if nr_Status rule \<noteq> ''Enabled'' then False
      else if eventType \<notin> set (nr_Events rule) then False
      else if nr_Prefix rule \<noteq> [] \<and> take (length (nr_Prefix rule)) key \<noteq> nr_Prefix rule then False
      else if nr_Suffix rule \<noteq> [] \<and> \<not> HasSuffix key (nr_Suffix rule) then False
      else True)"

text \<open>
  The delivery loop. \<open>post i\<close> is what attempt \<open>i\<close> gets, a network error or a status. The second
  component counts the attempts made.
\<close>

function http_loop :: "(nat \<Rightarrow> err + int) \<Rightarrow> nat \<Rightarrow> nat \<Rightarrow> err option \<times> nat" where
  "http_loop post retryMax attempt =
     (if attempt < retryMax then
        (case post attempt of
           Inl e \<Rightarrow> http_loop post retryMax (attempt + 1)
         | Inr status \<Rightarrow>
             if status \<ge> 200 \<and> status < 300 then (None, attempt + 1)
             else if status \<ge> 400 \<and> status < 500 then (Some (Wrap EIO), attempt + 1)
             else http_loop post retryMax (attempt + 1))
      else (Some (Plain ''notification webhook delivery failed''), attempt))"
  by pat_completeness auto
termination by (relation "measure (\<lambda>(_, m, a). m - a)") auto

declare http_loop.simps [simp del]

definition dispatchHTTP :: "(nat \<Rightarrow> err + int) \<Rightarrow> int \<Rightarrow> err option \<times> nat" where
  "dispatchHTTP post retryMax = http_loop post (nat (if retryMax < 1 then 1 else retryMax)) 0"

definition dispatchToTarget :: "(string \<Rightarrow> nat \<Rightarrow> err + int) \<Rightarrow> NotificationRule \<Rightarrow> int \<Rightarrow> err option" where
  "dispatchToTarget post rule retryMax =
     (if nr_HTTPUrl rule = [] then Some (Wrap ENOSYS) else fst (dispatchHTTP (post (nr_HTTPUrl rule)) retryMax))"

fun dispatch_loop ::
  "(string \<Rightarrow> nat \<Rightarrow> err + int) \<Rightarrow> string \<Rightarrow> string \<Rightarrow> int \<Rightarrow> NotificationRule list \<Rightarrow> NotificationOutcome \<Rightarrow> NotificationOutcome" where
  "dispatch_loop post key eventType retryMax [] out = out"
| "dispatch_loop post key eventType retryMax (r # rs) out =
     (if \<not> ruleMatches r key eventType then dispatch_loop post key eventType retryMax rs out
      else dispatch_loop post key eventType retryMax rs
        (if dispatchToTarget post r retryMax \<noteq> None then out\<lparr>no_Failed := no_Failed out + 1\<rparr>
         else out\<lparr>no_Dispatched := no_Dispatched out + 1\<rparr>))"

definition DispatchNotification ::
  "(string \<Rightarrow> nat \<Rightarrow> err + int) \<Rightarrow> string \<Rightarrow> string \<Rightarrow> string \<Rightarrow> int \<Rightarrow> 'b CASStore \<Rightarrow> NotificationOutcome res" where
  "DispatchNotification post bucket key eventType retryMax s =
     res_bind (BucketNotification bucket s) (\<lambda>cfg.
       Inr (case cfg of
          None \<Rightarrow> \<lparr>no_Dispatched = 0, no_Failed = 0\<rparr>
        | Some c \<Rightarrow> dispatch_loop post key eventType retryMax (nc_Rules c) \<lparr>no_Dispatched = 0, no_Failed = 0\<rparr>))"

section \<open>Delivery ends\<close>

definition delivered :: "err + int \<Rightarrow> bool" where
  "delivered x \<longleftrightarrow> (case x of Inl _ \<Rightarrow> False | Inr st \<Rightarrow> st \<ge> 200 \<and> st < 300)"

definition retryable :: "err + int \<Rightarrow> bool" where
  "retryable x \<longleftrightarrow> (case x of Inl _ \<Rightarrow> True | Inr st \<Rightarrow> \<not> (st \<ge> 200 \<and> st < 300) \<and> \<not> (st \<ge> 400 \<and> st < 500))"

lemma http_loop_spec:
  "a \<le> m \<Longrightarrow> snd (http_loop post m a) \<le> m \<and>
     (fst (http_loop post m a) = None \<longleftrightarrow>
        (\<exists>i. a \<le> i \<and> i < m \<and> delivered (post i) \<and> (\<forall>j. a \<le> j \<and> j < i \<longrightarrow> retryable (post j))))"
proof (induction post m a rule: http_loop.induct)
  case (1 post m a)
  show ?case
  proof (cases "a < m")
    case False
    then show ?thesis using "1.prems" by (simp add: http_loop.simps)
  next
    case True
    have later: "(\<exists>i. a \<le> i \<and> i < m \<and> delivered (post i) \<and> (\<forall>j. a \<le> j \<and> j < i \<longrightarrow> retryable (post j))) \<longleftrightarrow>
        delivered (post a) \<or> (retryable (post a) \<and>
          (\<exists>i. a + 1 \<le> i \<and> i < m \<and> delivered (post i) \<and> (\<forall>j. a + 1 \<le> j \<and> j < i \<longrightarrow> retryable (post j))))"
      (is "?L \<longleftrightarrow> ?R")
    proof
      assume ?L
      then obtain i where i: "a \<le> i" "i < m" "delivered (post i)" "\<forall>j. a \<le> j \<and> j < i \<longrightarrow> retryable (post j)" by blast
      then show ?R by (cases "i = a") (auto intro!: exI [of _ i])
    next
      assume ?R
      then show ?L
      proof
        assume "delivered (post a)"
        then show ?L using True by (intro exI [of _ a]) auto
      next
        assume r: "retryable (post a) \<and>
          (\<exists>i. a + 1 \<le> i \<and> i < m \<and> delivered (post i) \<and> (\<forall>j. a + 1 \<le> j \<and> j < i \<longrightarrow> retryable (post j)))"
        then obtain i where i: "a + 1 \<le> i" "i < m" "delivered (post i)" "\<forall>j. a + 1 \<le> j \<and> j < i \<longrightarrow> retryable (post j)" by blast
        have "retryable (post j)" if "a \<le> j \<and> j < i" for j using that i(4) r by (cases "j = a") auto
        then show ?L using i by (intro exI [of _ i]) auto
      qed
    qed
    show ?thesis
    proof (cases "post a")
      case (Inl e)
      then show ?thesis using "1.IH"(1) [OF True Inl] True unfolding later
        by (simp add: http_loop.simps [of post m a] delivered_def retryable_def)
    next
      case (Inr st)
      then show ?thesis using "1.IH"(2) [OF True Inr] True unfolding later
        by (auto simp: http_loop.simps [of post m a] delivered_def retryable_def)
    qed
  qed
qed

text \<open>
  A webhook delivery always ends, after at most the configured number of attempts (at least one), and
  succeeds exactly when some attempt gets a 2xx answer and every attempt before it failed in a way
  that is retried, that is, not with a 4xx answer.
\<close>

theorem dispatchHTTP_ends:
  "snd (dispatchHTTP post retryMax) \<le> nat (max 1 retryMax) \<and>
   (fst (dispatchHTTP post retryMax) = None \<longleftrightarrow>
      (\<exists>i < nat (max 1 retryMax). delivered (post i) \<and> (\<forall>j < i. retryable (post j))))"
proof -
  have m: "nat (if retryMax < 1 then 1 else retryMax) = nat (max 1 retryMax)" by (simp add: max_def)
  show ?thesis using http_loop_spec [of 0 "nat (max 1 retryMax)" post] by (simp add: dispatchHTTP_def m)
qed

theorem dispatchHTTP_ends_witness:
  "fst (dispatchHTTP (\<lambda>i. if i = 0 then Inl (Bare ETIMEDOUT) else Inr 200) 3) = None \<and>
   snd (dispatchHTTP (\<lambda>i. if i = 0 then Inl (Bare ETIMEDOUT) else Inr 200) 3) \<le> 3"
proof -
  let ?post = "\<lambda>i :: nat. if i = 0 then Inl (Bare ETIMEDOUT) else Inr (200 :: int)"
  have "\<exists>i < nat (max 1 3). delivered (?post i) \<and> (\<forall>j < i. retryable (?post j))"
    by (rule exI [of _ 1]) (simp add: delivered_def retryable_def)
  then show ?thesis using dispatchHTTP_ends [of ?post 3] by simp
qed

section \<open>Lifecycle only expires what its rules say\<close>

lemma b_inv_b_del: "b_inv b \<Longrightarrow> b_inv (b_del k b)"
  unfolding b_del_def by (rule b_inv_filter)

lemma Delete_core:
  assumes "core_inv (st_db s)"
  shows "core_inv (st_db (snd (Delete bs commit commit2 now nm s)))"
proof (cases "Update_val commit (delete_tx now nm) (st_db s)")
  case (Inl e)
  then show ?thesis using assms by (simp add: Delete_def)
next
  case (Inr r)
  obtain d k where r: "r = (d, k)" by fastforce
  have tx: "delete_tx now nm (st_db s) = Inr (d, k)" using Inr r by (auto simp: Update_val_def split: sum.splits if_splits)
  obtain ts where ts: "ts = b_upd nm (PutUint64 now) (bucketTombstones (st_db s))"
    and dr: "drop_reference now nm ((st_db s)\<lparr>bucketTombstones := ts\<rparr>) = Inr (d, k)"
    using tx by (auto simp: delete_tx_def res_bind_Inr_conv put_or_ok_iff)
  have d: "core_inv d"
    using dr assms ts by (cases rule: drop_reference_okD [OF dr]) (simp_all add: core_inv_def b_inv_b_del b_inv_b_upd)
  then have "core_inv (d\<lparr>bucketObjects := b_del k (bucketObjects d)\<rparr>)" by (simp add: core_inv_def b_inv_b_del)
  then show ?thesis using d Inr r
    by (auto simp: Delete_def Let_def split: prod.split option.split)
qed

lemma other_buckets:
  assumes "\<And>d d'. body d = Inr d' \<Longrightarrow> bucketNamespace d' = bucketNamespace d \<and> bucketTombstones d' = bucketTombstones d \<and>
     (core_inv d \<longrightarrow> core_inv d')"
  shows "names (snd (store_tx commit body s)) = names s" "core_inv (st_db s) \<Longrightarrow> core_inv (st_db (snd (store_tx commit body s)))"
  using assms by (auto simp: store_tx_def Update_def fun_eq_iff names_eq split: sum.splits prod.splits)

lemma RecordDeleteMarker_frame:
  "names (snd (RecordDeleteMarker rnd commit now bucket key s)) = names s"
  "core_inv (st_db s) \<Longrightarrow> core_inv (st_db (snd (RecordDeleteMarker rnd commit now bucket key s)))"
proof -
  have v: "version_tx f d = Inr d' \<Longrightarrow> bucketNamespace d' = bucketNamespace d \<and> bucketTombstones d' = bucketTombstones d \<and>
     (core_inv d \<longrightarrow> core_inv d')" for f d d'
    by (auto simp: version_tx_def res_bind_Inr_conv core_inv_def)
  have fr1: "names (snd (store_tx commit (version_tx f) s)) = names s" for f
    by (rule other_buckets(1), erule v)
  have fr2: "core_inv (st_db (snd (store_tx commit (version_tx f) s)))" if "core_inv (st_db s)" for f
    by (rule other_buckets(2) [OF _ that], erule v)
  have "\<exists>f. snd (RecordDeleteMarker rnd commit now bucket key s) \<in> {s, snd (store_tx commit (version_tx f) s)}"
  proof (cases "newVersionID rnd")
    case (Inr vid)
    let ?f = "putVersion bucket key \<lparr>vr_VersionID = vid, vr_Hash = [], vr_Size = 0, vr_Timestamp = now, vr_IsLatest = True,
                   vr_IsDeleteMarker = True, vr_Key = []\<rparr>"
    obtain e s' where "store_tx commit (version_tx ?f) s = (e, s')" by fastforce
    then show ?thesis using Inr by (intro exI [of _ ?f]) (cases e; simp add: RecordDeleteMarker_def)
  qed (simp add: RecordDeleteMarker_def)
  then show "names (snd (RecordDeleteMarker rnd commit now bucket key s)) = names s"
    "core_inv (st_db s) \<Longrightarrow> core_inv (st_db (snd (RecordDeleteMarker rnd commit now bucket key s)))"
    using fr1 fr2 by auto
qed

lemma PutS3Meta_frame:
  "names (snd (PutS3Meta jl commit nm h s)) = names s"
  "core_inv (st_db s) \<Longrightarrow> core_inv (st_db (snd (PutS3Meta jl commit nm h s)))"
  by (auto simp: PutS3Meta_def Update_def Let_def res_bind_Inr_conv fun_eq_iff names_eq core_inv_def
      split: sum.splits prod.splits option.splits)

lemma SetStorageClass_frame:
  "names (snd (SetStorageClass jl commit nm c s)) = names s"
  "core_inv (st_db s) \<Longrightarrow> core_inv (st_db (snd (SetStorageClass jl commit nm c s)))"
  by (simp_all add: SetStorageClass_def Let_def PutS3Meta_frame)

lemma expireObject_frame:
  assumes "core_inv (st_db s)"
  shows "core_inv (st_db (snd (expireObject bs env bucket nm versioned s)))"
    "names (snd (expireObject bs env bucket nm versioned s)) x = names s x \<or>
     x = nm \<and> names (snd (expireObject bs env bucket nm versioned s)) x = None"
proof -
  let ?m = "snd (RecordDeleteMarker (le_rnd env) (le_marker env) (le_now env) bucket nm s)"
  let ?D = "\<lambda>s. snd (Delete bs (le_commit env) (le_commit2 env) (le_now env) nm s)"
  have m: "core_inv (st_db ?m)" "names ?m = names s" by (simp_all add: RecordDeleteMarker_frame assms)
  have del: "core_inv (st_db (?D s')) \<and> (names (?D s') x = names s' x \<or> x = nm \<and> names (?D s') x = None)"
    if "core_inv (st_db s')" for s'
  proof -
    obtain e s2 where d: "Delete bs (le_commit env) (le_commit2 env) (le_now env) nm s' = (e, s2)" by fastforce
    show ?thesis using Delete_core [OF that, of bs "le_commit env" "le_commit2 env" "le_now env" nm] Delete_names [OF that d] d by simp
  qed
  have "snd (expireObject bs env bucket nm versioned s) \<in> {?m, ?D ?m, ?D s}"
    by (auto simp: expireObject_def split: prod.split sum.split)
  then show "core_inv (st_db (snd (expireObject bs env bucket nm versioned s)))"
    "names (snd (expireObject bs env bucket nm versioned s)) x = names s x \<or>
     x = nm \<and> names (snd (expireObject bs env bucket nm versioned s)) x = None"
    using m del [OF m(1)] del [OF assms] by auto
qed

text \<open>What may have happened to a name: nothing, or expiry under the rule that governs it.\<close>

definition expiry_due :: "(64 word \<Rightarrow> int) \<Rightarrow> LifecycleConfig \<Rightarrow> FileMetadata list \<Rightarrow> string \<Rightarrow> bool" where
  "expiry_due age cfg objs x \<longleftrightarrow> (\<exists>obj \<in> set objs. \<exists>rule. fm_Name obj = x \<and> fm_ModTime obj \<noteq> 0 \<and>
     matchingRule (lc_Rules cfg) x = Some rule \<and> lr_ExpirationDays rule > 0 \<and>
     age (fm_ModTime obj) \<ge> lr_ExpirationDays rule)"

lemma applyLifecycleRule_frame:
  assumes "core_inv (st_db s)" "applyLifecycleRule bs age jl env bucket obj rule versioned out s = (r, s')"
  shows "core_inv (st_db s')" "names s' x = names s x \<or> names s' x = None \<and> x = fm_Name obj \<and>
    lr_ExpirationDays rule > 0 \<and> age (fm_ModTime obj) \<ge> lr_ExpirationDays rule"
proof -
  let ?E = "snd (expireObject bs env bucket (fm_Name obj) versioned s)"
  let ?T = "snd (SetStorageClass jl (le_commit env) (fm_Name obj) (lr_StorageClass rule) s)"
  have "s' = ?E \<and> lr_ExpirationDays rule > 0 \<and> age (fm_ModTime obj) \<ge> lr_ExpirationDays rule \<or> s' = ?T \<or> s' = s"
    using assms(2) by (auto simp: applyLifecycleRule_def Let_def split: if_splits prod.splits option.splits)
  then show "core_inv (st_db s')" "names s' x = names s x \<or> names s' x = None \<and> x = fm_Name obj \<and>
    lr_ExpirationDays rule > 0 \<and> age (fm_ModTime obj) \<ge> lr_ExpirationDays rule"
    using expireObject_frame [OF assms(1), of bs env bucket "fm_Name obj" versioned]
    by (auto simp: SetStorageClass_frame assms(1))
qed

lemma lifecycle_loop_frame:
  "core_inv (st_db s) \<Longrightarrow> lifecycle_loop bs age jl env bucket cfg versioned objs out s = (r, s') \<Longrightarrow>
     names s' x = names s x \<or> names s' x = None \<and> expiry_due age cfg objs x"
proof (induction objs arbitrary: out s)
  case (Cons obj objs)
  have more: "expiry_due age cfg objs x \<Longrightarrow> expiry_due age cfg (obj # objs) x" by (auto simp: expiry_due_def)
  show ?case
  proof (cases "matchingRule (lc_Rules cfg) (fm_Name obj)")
    case None
    then show ?thesis using Cons.IH [OF Cons.prems(1)] Cons.prems(2) more by auto
  next
    case (Some rule)
    show ?thesis
    proof (cases "fm_ModTime obj = 0")
      case True
      then show ?thesis using Cons.IH [OF Cons.prems(1)] Cons.prems(2) more Some by auto
    next
      case False
      obtain e out' s1 where ap: "applyLifecycleRule bs age jl (env (fm_Name obj)) bucket obj rule versioned out s = ((e, out'), s1)"
        by (metis prod.exhaust)
      note fr = applyLifecycleRule_frame [OF Cons.prems(1) ap]
      have here: "names s1 x = names s x \<or> names s1 x = None \<and> expiry_due age cfg (obj # objs) x"
        using fr(2) [of x] Some False by (auto simp: expiry_due_def)
      show ?thesis
      proof (cases e)
        case (Some y)
        then show ?thesis using Cons.prems(2) \<open>matchingRule _ _ = Some rule\<close> False ap here by auto
      next
        case None
        then have "lifecycle_loop bs age jl env bucket cfg versioned objs out' s1 = (r, s')"
          using Cons.prems(2) Some False ap by simp
        from Cons.IH [OF fr(1) this] here more show ?thesis by auto
      qed
    qed
  qed
qed simp

text \<open>
  C21: a lifecycle pass, whatever fails in it, only makes a name unknown when the first enabled rule whose
  prefix matches the name has an expiration and the object is at least that many days old.
\<close>

theorem EvaluateLifecycle_safe:
  assumes "core_inv (st_db s)" "EvaluateLifecycle bs age jl env bucket s = (r, s')" "names s' x \<noteq> names s x"
  shows "\<exists>cfg objs. BucketLifecycle bucket s = Inr (Some cfg) \<and> List_all s = Inr objs \<and> names s' x = None \<and>
    expiry_due age cfg objs x"
proof -
  obtain cfg objs where c: "BucketLifecycle bucket s = Inr (Some cfg)" "List_all s = Inr objs"
    "lifecycle_loop bs age jl env bucket cfg (IsVersioned bucket s) objs \<lparr>lo_Expired = 0, lo_Transitioned = 0\<rparr> s = (r, s')"
    using assms(2,3) by (auto simp: EvaluateLifecycle_def Let_def split: sum.splits option.splits if_splits)
  show ?thesis using lifecycle_loop_frame [OF assms(1) c(3), of x] assms(3) c(1,2) by auto
qed

definition day_rule :: LifecycleRule where
  "day_rule = \<lparr>lr_ID = ''r'', lr_Status = ''Enabled'', lr_Prefix = [], lr_ExpirationDays = 1, lr_TransitionDays = 0, lr_StorageClass = []\<rparr>"

definition aging_store :: "LocalBlobStore CASStore" where
  "aging_store = demo_store\<lparr>st_db := (st_db demo_store)\<lparr>bucketLifecycle := [(''b'', Json \<lparr>lc_Rules = [day_rule]\<rparr>)]\<rparr>\<rparr>"

definition day_env :: life_env where
  "day_env = \<lparr>le_rnd = None, le_marker = True, le_commit = True, le_commit2 = True, le_now = 200\<rparr>"

lemma aging_core: "core_inv (st_db aging_store)" "names aging_store ''f'' = Some demo_hash"
  by (simp_all add: aging_store_def demo_store_def newCASStore_def initBuckets_def core_inv_def b_inv_def names_eq b_get_def)

lemma aging_delete: "\<exists>s'. Delete local_ops True True 200 ''f'' aging_store = (None, s')"
proof -
  have "\<exists>r. delete_tx 200 ''f'' (st_db aging_store) = Inr r"
    by (simp add: delete_tx_def drop_reference_def aging_store_def demo_store_def newCASStore_def initBuckets_def b_get_def
        MaxKeySize_def decode_plain plain_meta_def Let_def)
  then obtain r where "Update_val True (delete_tx 200 ''f'') (st_db aging_store) = Inr r" by (auto simp: Update_val_def)
  then show ?thesis by (cases r) (simp add: Delete_def Let_def)
qed

lemma aging_eval:
  "\<exists>r s'. EvaluateLifecycle local_ops (\<lambda>_. 10) (\<lambda>_. 0) (\<lambda>_. day_env) ''b'' aging_store = (r, s') \<and> names s' ''f'' = None"
proof -
  obtain s' where s': "Delete local_ops True True 200 ''f'' aging_store = (None, s')" using aging_delete by blast
  have "names s' ''f'' = None" using Delete_names [OF aging_core(1) s'] by simp
  moreover have "List_all aging_store = Inr [demo_meta]"
    by (simp add: List_all_def aging_store_def demo_store_def newCASStore_def initBuckets_def b_get_def decode_plain
        plain_meta_def encode_long demo_meta_def mod_time_def codec) (metis encode_long list.size(3) zero_less_numeral)
  ultimately show ?thesis using s'
    by (auto simp: EvaluateLifecycle_def BucketLifecycle_def aging_store_def b_get_def Let_def demo_meta_def day_rule_def
        LifecycleEnabled_def applyLifecycleRule_def expireObject_def IsVersioned_def BucketVersioning_def demo_store_def
        newCASStore_def initBuckets_def day_env_def)
qed

theorem EvaluateLifecycle_safe_witness:
  "\<exists>r s' cfg objs. EvaluateLifecycle local_ops (\<lambda>_. 10) (\<lambda>_. 0) (\<lambda>_. day_env) ''b'' aging_store = (r, s') \<and>
     names s' ''f'' = None \<and> BucketLifecycle ''b'' aging_store = Inr (Some cfg) \<and> expiry_due (\<lambda>_. 10) cfg objs ''f''"
proof -
  obtain r s' where e: "EvaluateLifecycle local_ops (\<lambda>_. 10) (\<lambda>_. 0) (\<lambda>_. day_env) ''b'' aging_store = (r, s')" "names s' ''f'' = None"
    using aging_eval by blast
  then have "names s' ''f'' \<noteq> names aging_store ''f''" by (simp add: aging_core(2))
  from EvaluateLifecycle_safe [OF aging_core(1) e(1) this] e show ?thesis by blast
qed

end
