(* ===== verification/Access_Control.thy ===== *)
theory Access_Control
  imports Object_Lock
begin

text \<open>
  Tenants, access control and the audit log of \<^verbatim>\<open>src/src/storage/storage.go\<close>. The audit log is a chain:
  every entry stores the hash of the one before it. \<open>render\<close> is the JSON rendering of the hashed
  fields of an entry.
\<close>

section \<open>Tenants\<close>

definition PutTenantConfig :: "bool \<Rightarrow> TenantConfig \<Rightarrow> 'b CASStore \<Rightarrow> err option \<times> 'b CASStore" where
  "PutTenantConfig commit tenant s =
     store_tx commit (\<lambda>d. res_bind (b_put (tc_ID tenant) (Json tenant) (bucketTenantMeta d))
       (\<lambda>b. Inr (d\<lparr>bucketTenantMeta := b\<rparr>))) s"

definition GetTenantConfig :: "string \<Rightarrow> 'b CASStore \<Rightarrow> TenantConfig res" where
  "GetTenantConfig tenantID s =
     (case b_get (bucketTenantMeta (st_db s)) tenantID of
        None \<Rightarrow> Inl (Wrap ENOENT)
      | Some v \<Rightarrow> (case Unmarshal v of None \<Rightarrow> Inl (Plain ''json'') | Some t \<Rightarrow> Inr t))"

fun tenants_loop :: "TenantConfig json bucket \<Rightarrow> TenantConfig list res" where
  "tenants_loop [] = Inr []"
| "tenants_loop ((k, v) # rest) =
     (case Unmarshal v of
        None \<Rightarrow> Inl (Plain ''json'')
      | Some t \<Rightarrow> res_bind (tenants_loop rest) (\<lambda>ts. Inr (t # ts)))"

definition ListTenantConfigs :: "'b CASStore \<Rightarrow> TenantConfig list res" where
  "ListTenantConfigs s = tenants_loop (bucketTenantMeta (st_db s))"

definition DeleteTenantConfig :: "bool \<Rightarrow> string \<Rightarrow> 'b CASStore \<Rightarrow> err option \<times> 'b CASStore" where
  "DeleteTenantConfig commit tenantID s =
     store_tx commit (\<lambda>d. Inr (d\<lparr>bucketTenantMeta := b_del tenantID (bucketTenantMeta d)\<rparr>)) s"

fun token_loop :: "string \<Rightarrow> TenantConfig json bucket \<Rightarrow> string res" where
  "token_loop authToken [] = Inl (Wrap ENOENT)"
| "token_loop authToken ((k, v) # rest) =
     (case Unmarshal v of
        None \<Rightarrow> token_loop authToken rest
      | Some cfg \<Rightarrow> if tc_AuthToken cfg = authToken then Inr k else token_loop authToken rest)"

definition GetTenantIDByAuthToken :: "string \<Rightarrow> 'b CASStore \<Rightarrow> string res" where
  "GetTenantIDByAuthToken authToken s =
     (if authToken = [] then Inl (Wrap EINVAL) else token_loop authToken (bucketTenantMeta (st_db s)))"

section \<open>Access control lists\<close>

definition bucketResourcePrefix :: string where "bucketResourcePrefix = ''bucket/''"
definition objectResourcePrefix :: string where "objectResourcePrefix = ''object/''"

definition put_acl :: "bool \<Rightarrow> string \<Rightarrow> ACL \<Rightarrow> 'b CASStore \<Rightarrow> err option \<times> 'b CASStore" where
  "put_acl commit pre acl s =
     (if acl_Name acl = [] then (Some (Wrap EINVAL), s)
      else store_tx commit (\<lambda>d. res_bind (b_put (pre @ acl_Name acl) (Json acl) (bucketACL d))
        (\<lambda>b. Inr (d\<lparr>bucketACL := b\<rparr>))) s)"

text \<open>An absent list reads as the zero value.\<close>

definition get_acl :: "string \<Rightarrow> string \<Rightarrow> 'b CASStore \<Rightarrow> ACL res" where
  "get_acl pre name s =
     (if name = [] then Inl (Wrap EINVAL)
      else case b_get (bucketACL (st_db s)) (pre @ name) of
        None \<Rightarrow> Inr \<lparr>acl_Name = [], acl_Entries = []\<rparr>
      | Some v \<Rightarrow> (case Unmarshal v of None \<Rightarrow> Inl (Plain ''json'') | Some a \<Rightarrow> Inr a))"

definition PutBucketACL where "PutBucketACL commit acl s = put_acl commit bucketResourcePrefix acl s"
definition GetBucketACL where "GetBucketACL bucket s = get_acl bucketResourcePrefix bucket s"
definition PutObjectACL where "PutObjectACL commit acl s = put_acl commit objectResourcePrefix acl s"
definition GetObjectACL where "GetObjectACL key s = get_acl objectResourcePrefix key s"

fun perm_match :: "Permission \<Rightarrow> Permission \<Rightarrow> bool" where
  "perm_match PermRead perm = (perm = PermRead \<or> perm = PermAdmin)"
| "perm_match PermWrite perm = (perm = PermWrite \<or> perm = PermAdmin)"
| "perm_match PermAdmin perm = (perm = PermAdmin)"
| "perm_match PermDelete perm = (perm = PermDelete \<or> perm = PermAdmin)"
| "perm_match (OtherPermission _) perm = False"

definition checkACL :: "ACLEntry \<Rightarrow> string \<Rightarrow> Permission \<Rightarrow> bool" where
  "checkACL acl tenantID perm =
     (if acl_TenantID acl \<noteq> [] \<and> acl_TenantID acl \<noteq> tenantID then False
      else if \<not> perm_match (acl_Permission acl) perm then False
      else (if acl_Effect acl = [] then ''allow'' else acl_Effect acl) = ''allow'')"

definition parseACLResource :: "string \<Rightarrow> (string \<times> string) res" where
  "parseACLResource resource =
     (if take 7 resource = bucketResourcePrefix then Inr (drop 7 resource, [])
      else if take 7 resource = objectResourcePrefix then
        (let rest = drop 7 resource in
         case IndexByte rest CHR ''/'' of
           None \<Rightarrow> Inl (Wrap EINVAL)
         | Some i \<Rightarrow> Inr (take i rest, drop (i + 1) rest))
      else Inl (Wrap EINVAL))"

fun aclAllows :: "ACLEntry list \<Rightarrow> string \<Rightarrow> Permission \<Rightarrow> bool" where
  "aclAllows [] tenantID perm = False"
| "aclAllows (e # es) tenantID perm = (if checkACL e tenantID perm then True else aclAllows es tenantID perm)"

definition Authorize :: "string \<Rightarrow> Permission \<Rightarrow> string \<Rightarrow> 'b CASStore \<Rightarrow> err option" where
  "Authorize tenantID perm resource s =
     (if tenantID = [] then Some (Wrap EINVAL)
      else if tenantID = ''admin'' then None
      else case parseACLResource resource of
        Inl e \<Rightarrow> Some e
      | Inr (bucket, object) \<Rightarrow>
          let try_bucket =
            (if bucket \<noteq> [] then
               (case GetBucketACL bucket s of
                  Inl e \<Rightarrow> Some e
                | Inr a \<Rightarrow> if aclAllows (acl_Entries a) tenantID perm then None else Some (Wrap EACCES))
             else Some (Wrap EACCES))
          in if object \<noteq> [] then
               (case GetObjectACL (bucket @ ''/'' @ object) s of
                  Inl e \<Rightarrow> Some e
                | Inr a \<Rightarrow> if aclAllows (acl_Entries a) tenantID perm then None else try_bucket)
             else try_bucket)"

section \<open>The audit log\<close>

definition entry_hash :: "(AuditLogEntry \<Rightarrow> bytes) \<Rightarrow> AuditLogEntry \<Rightarrow> string \<Rightarrow> string" where
  "entry_hash render e prevHash = EncodeToString (Sum256 (render (e\<lparr>ae_PrevHash := prevHash, ae_EntryHash := []\<rparr>)))"

definition audit_tx :: "(AuditLogEntry \<Rightarrow> bytes) \<Rightarrow> 64 word \<Rightarrow> AuditLogEntry \<Rightarrow> metadb \<Rightarrow> metadb res" where
  "audit_tx render now entry d =
     (let b = bucketAuditLog d;
          prevHash = (if b = [] then []
            else (case Unmarshal (snd (last b)) of Some l \<Rightarrow> ae_EntryHash l | None \<Rightarrow> []));
          e1 = entry\<lparr>ae_Timestamp := now, ae_PrevHash := prevHash\<rparr>;
          e2 = e1\<lparr>ae_EntryHash := entry_hash render e1 prevHash\<rparr>
      in res_bind (b_put (bytes_str (PutUint64 now)) (Json e2) b) (\<lambda>b'. Inr (d\<lparr>bucketAuditLog := b'\<rparr>)))"

definition WriteAuditLog ::
  "(AuditLogEntry \<Rightarrow> bytes) \<Rightarrow> bool \<Rightarrow> 64 word \<Rightarrow> AuditLogEntry \<Rightarrow> 'b CASStore \<Rightarrow> err option \<times> 'b CASStore" where
  "WriteAuditLog render commit now entry s = store_tx commit (audit_tx render now entry) s"

fun verify_loop :: "(AuditLogEntry \<Rightarrow> bytes) \<Rightarrow> string \<Rightarrow> AuditLogEntry json bucket \<Rightarrow> err option" where
  "verify_loop render prevHash [] = None"
| "verify_loop render prevHash ((k, v) # rest) =
     (case Unmarshal v of
        None \<Rightarrow> Some (Plain ''failed to unmarshal audit entry'')
      | Some e \<Rightarrow>
          if ae_PrevHash e \<noteq> prevHash then Some (Plain ''audit log chain broken'')
          else if ae_EntryHash e \<noteq> entry_hash render e prevHash then Some (Plain ''audit log entry hash mismatch'')
          else verify_loop render (ae_EntryHash e) rest)"

definition VerifyAuditLog :: "(AuditLogEntry \<Rightarrow> bytes) \<Rightarrow> 'b CASStore \<Rightarrow> err option" where
  "VerifyAuditLog render s = verify_loop render [] (bucketAuditLog (st_db s))"

definition auditTimeKey :: "64 word \<Rightarrow> string option" where
  "auditTimeKey t = (if sint t \<le> 0 then None else Some (bytes_str (PutUint64 t)))"

text \<open>The bound of the key comparison needs eight bytes; a shorter key panics.\<close>

fun collectAuditEntries :: "string option \<Rightarrow> int \<Rightarrow> AuditLogEntry json bucket \<Rightarrow> AuditLogEntry list \<Rightarrow>
    AuditLogEntry list res" where
  "collectAuditEntries endKey limit [] acc = Inr acc"
| "collectAuditEntries endKey limit ((k, v) # rest) acc =
     (if limit > 0 \<and> int (length acc) \<ge> limit then Inr acc
      else case endKey of
        Some e \<Rightarrow>
          if length k < 8 then Inl (Plain ''panic'')
          else if Uint64 (take 8 (str_bytes k)) > Uint64 (take 8 (str_bytes e)) then Inr acc
          else (case Unmarshal v of
             None \<Rightarrow> collectAuditEntries endKey limit rest acc
           | Some x \<Rightarrow> collectAuditEntries endKey limit rest (acc @ [x]))
      | None \<Rightarrow>
          (case Unmarshal v of
             None \<Rightarrow> collectAuditEntries endKey limit rest acc
           | Some x \<Rightarrow> collectAuditEntries endKey limit rest (acc @ [x])))"

definition GetAuditLogEntries :: "64 word \<Rightarrow> 64 word \<Rightarrow> int \<Rightarrow> 'b CASStore \<Rightarrow> AuditLogEntry list res" where
  "GetAuditLogEntries startTime endTime limit s =
     (let b = bucketAuditLog (st_db s);
          from = (case auditTimeKey startTime of None \<Rightarrow> b | Some k \<Rightarrow> dropWhile (\<lambda>(x, _). x < k) b)
      in collectAuditEntries (auditTimeKey endTime) limit from [])"

section \<open>Who is authorized\<close>

lemma aclAllows_iff: "aclAllows es t p \<longleftrightarrow> (\<exists>e \<in> set es. checkACL e t p)"
  by (induction es) auto


text \<open>
  Two defaults of the check. A deny entry never withdraws what another entry allows, and an entry for
  reading, writing or deleting also grants the admin permission.
\<close>

theorem aclAllows_deny_ignored:
  "aclAllows (es @ [\<lparr>acl_TenantID = t, acl_Permission = q, acl_Effect = ''deny''\<rparr>]) t p = aclAllows es t p \<and>
   aclAllows [\<lparr>acl_TenantID = t, acl_Permission = PermRead, acl_Effect = ''allow''\<rparr>] t PermAdmin"
  by (simp add: aclAllows_iff checkACL_def)

section \<open>The chain of the audit log\<close>

lemma less_snoc:
  "length xs = length ys \<Longrightarrow> xs @ [x] < ys @ [y] \<longleftrightarrow> xs < ys \<or> xs = ys \<and> x < (y :: char)"
  by (induction xs ys rule: list_induct2) auto

lemma byte_char_less: "char_of (unat (a :: byte)) < (char_of (unat (b :: byte)) :: char) \<longleftrightarrow> unat a < unat b"
proof -
  have "unat a < 256" "unat b < 256" using unsigned_less [of a, where 'a = nat] unsigned_less [of b, where 'a = nat] by simp_all
  then show ?thesis by (simp add: less_char_def)
qed

lemma bytes_less_get_be:
  "length as = length bs \<Longrightarrow> bytes_str as < bytes_str bs \<longleftrightarrow> get_be as < get_be bs"
proof (induction as arbitrary: bs rule: rev_induct)
  case (snoc a as)
  then obtain b bs' where bs: "bs = bs' @ [b]" "length as = length bs'" by (cases bs rule: rev_cases) auto
  have ab: "unat a < 256" "unat b < 256" using unsigned_less [of a, where 'a = nat] unsigned_less [of b, where 'a = nat] by simp_all
  have eq: "get_be as = get_be bs' \<longleftrightarrow> as = bs'" using put_get_be [of as "length as"] put_get_be [of bs' "length bs'"] bs(2) by metis
  have "bytes_str (as @ [a]) < bytes_str bs \<longleftrightarrow> bytes_str as < bytes_str bs' \<or> as = bs' \<and> unat a < unat b"
    using less_snoc [of "bytes_str as" "bytes_str bs'"] bs(2) byte_char_less [of a b]
    by (auto simp: bs(1) bytes_str_def dest: arg_cong [of _ _ str_bytes]) (metis bytes_str_def bytes_str_inverse)+
  also have "\<dots> \<longleftrightarrow> get_be (as @ [a]) < get_be bs"
    using snoc.IH [OF bs(2)] eq ab by (auto simp: bs(1))
  finally show ?case .
qed simp

lemma time_key_less: "bytes_str (PutUint64 a) < bytes_str (PutUint64 b) \<longleftrightarrow> a < b"
  using unsigned_less [of a, where 'a = nat] unsigned_less [of b, where 'a = nat]
  by (simp add: bytes_less_get_be PutUint64_def get_put_be mod_less word_less_nat_alt)

definition last_hash :: "string \<Rightarrow> AuditLogEntry json bucket \<Rightarrow> string" where
  "last_hash p b = (if b = [] then p else (case Unmarshal (snd (last b)) of Some l \<Rightarrow> ae_EntryHash l | None \<Rightarrow> []))"

lemma verify_snoc:
  "verify_loop render p (b @ [(k, Json e)]) = None \<longleftrightarrow> verify_loop render p b = None \<and>
     ae_PrevHash e = last_hash p b \<and> ae_EntryHash e = entry_hash render e (last_hash p b)"
proof (induction b arbitrary: p)
  case (Cons x b)
  obtain j v where x: "x = (j, v)" by fastforce
  show ?case
  proof (cases v)
    case (Json y)
    have "last_hash p (x # b) = last_hash (ae_EntryHash y) b" by (simp add: last_hash_def x Json)
    then show ?thesis using Cons.IH by (simp add: x Json)
  qed (simp add: x)
qed (simp add: last_hash_def)

lemma verify_Json: "verify_loop render p (b @ [(k, v)]) = None \<Longrightarrow> \<exists>e. v = Json e"
proof (induction b arbitrary: p)
  case (Cons x b)
  then show ?case by (cases x; cases "snd x") (auto split: if_splits)
qed (cases v; simp)

lemma entry_hash_fields [simp]:
  "entry_hash render (e\<lparr>ae_EntryHash := h\<rparr>) p = entry_hash render e p"
  "entry_hash render (e\<lparr>ae_PrevHash := q\<rparr>) p = entry_hash render e p"
  by (simp_all add: entry_hash_def)

lemma b_upd_last: "\<forall>(k', w) \<in> set b. k' < k \<Longrightarrow> b_upd k v b = b @ [(k, v)]"
  by (induction b) (auto dest: less_asym)

text \<open>
  As long as the clock moves forward, writing keeps the log verifiable: the entry is appended to a
  chain that verifies, and the longer chain verifies.
\<close>

theorem WriteAuditLog_verifies:
  assumes "VerifyAuditLog render s = None"
    "\<forall>(k, v) \<in> set (bucketAuditLog (st_db s)). \<exists>t < now. k = bytes_str (PutUint64 t)"
    "WriteAuditLog render commit now entry s = (None, s')"
  shows "VerifyAuditLog render s' = None \<and>
    (\<exists>e. bucketAuditLog (st_db s') = bucketAuditLog (st_db s) @ [(bytes_str (PutUint64 now), Json e)])"
proof -
  let ?b = "bucketAuditLog (st_db s)" and ?k = "bytes_str (PutUint64 now)"
  let ?e1 = "entry\<lparr>ae_Timestamp := now, ae_PrevHash := last_hash [] ?b\<rparr>"
  let ?e = "?e1\<lparr>ae_EntryHash := entry_hash render ?e1 (last_hash [] ?b)\<rparr>"
  have later: "\<forall>(k', w) \<in> set ?b. k' < ?k" using assms(2) by (fastforce simp: time_key_less)
  have "bucketAuditLog (st_db s') = ?b @ [(?k, Json ?e)]"
    using assms(3) b_upd_last [OF later, of "Json ?e"]
    by (auto simp: WriteAuditLog_def store_tx_def audit_tx_def Update_def Let_def res_bind_Inr_conv b_put_ok_iff
        last_hash_def split: sum.splits if_splits prod.splits)
  then show ?thesis using assms(1) by (simp add: VerifyAuditLog_def verify_snoc)
qed

definition hashed_content :: "(AuditLogEntry \<Rightarrow> bytes) \<Rightarrow> AuditLogEntry json \<Rightarrow> bytes" where
  "hashed_content render v = (case Unmarshal v of Some e \<Rightarrow> render (e\<lparr>ae_EntryHash := []\<rparr>) | None \<Rightarrow> [])"

lemma tamper_evident:
  assumes render_prev: "\<And>x y. render x = render y \<Longrightarrow> ae_PrevHash x = ae_PrevHash y"
  shows "length L = length M \<Longrightarrow> verify_loop render [] L = None \<Longrightarrow> verify_loop render [] M = None \<Longrightarrow>
    last_hash [] L = last_hash [] M \<Longrightarrow>
    (\<forall>i < length L. hashed_content render (snd (L ! i)) = hashed_content render (snd (M ! i))) \<or>
    (\<exists>i < length L. hashed_content render (snd (L ! i)) \<noteq> hashed_content render (snd (M ! i)) \<and>
       Sum256 (hashed_content render (snd (L ! i))) = Sum256 (hashed_content render (snd (M ! i))))"
proof (induction L arbitrary: M rule: rev_induct)
  case (snoc x L)
  obtain y M' where M: "M = M' @ [y]" "length L = length M'" using snoc.prems(1) by (cases M rule: rev_cases) auto
  obtain k e where x: "x = (k, Json e)" using verify_Json [of render "[]" L "fst x" "snd x"] snoc.prems(2) by (cases x) auto
  obtain j f where y: "y = (j, Json f)" using verify_Json [of render "[]" M' "fst y" "snd y"] snoc.prems(3) M by (cases y) auto
  have e: "verify_loop render [] L = None" "ae_PrevHash e = last_hash [] L" "ae_EntryHash e = entry_hash render e (last_hash [] L)"
    using snoc.prems(2) by (simp_all add: x verify_snoc)
  have f: "verify_loop render [] M' = None" "ae_PrevHash f = last_hash [] M'" "ae_EntryHash f = entry_hash render f (last_hash [] M')"
    using snoc.prems(3) by (simp_all add: M y verify_snoc)
  have hc: "hashed_content render (Json e) = render (e\<lparr>ae_EntryHash := []\<rparr>)"
    "hashed_content render (Json f) = render (f\<lparr>ae_EntryHash := []\<rparr>)" by (simp_all add: hashed_content_def)
  have "e\<lparr>ae_PrevHash := last_hash [] L, ae_EntryHash := []\<rparr> = e\<lparr>ae_EntryHash := []\<rparr>"
    "f\<lparr>ae_PrevHash := last_hash [] M', ae_EntryHash := []\<rparr> = f\<lparr>ae_EntryHash := []\<rparr>"
    using e(2) f(2) by (metis AuditLogEntry.update_convs(8) AuditLogEntry.surjective AuditLogEntry.select_convs(8))+
  moreover have "ae_EntryHash e = ae_EntryHash f" using snoc.prems(4) by (simp add: M x y last_hash_def)
  ultimately have sum: "Sum256 (hashed_content render (Json e)) = Sum256 (hashed_content render (Json f))"
    using e(3) f(3) by (simp add: entry_hash_def hc)
  show ?case
  proof (cases "hashed_content render (Json e) = hashed_content render (Json f)")
    case False
    then show ?thesis using sum M x y by (intro disjI2 exI [of _ "length L"]) (simp add: nth_append)
  next
    case True
    then have "ae_PrevHash e = ae_PrevHash f" using render_prev [of "e\<lparr>ae_EntryHash := []\<rparr>" "f\<lparr>ae_EntryHash := []\<rparr>"] by (simp add: hc)
    then have "last_hash [] L = last_hash [] M'" using e(2) f(2) by simp
    from snoc.IH [OF M(2) e(1) f(1) this] show ?thesis
    proof
      assume *: "\<forall>i < length L. hashed_content render (snd (L ! i)) = hashed_content render (snd (M' ! i))"
      then show ?thesis using True M x y by (intro disjI1) (auto simp: nth_append less_Suc_eq)
    next
      assume "\<exists>i < length L. hashed_content render (snd (L ! i)) \<noteq> hashed_content render (snd (M' ! i)) \<and>
        Sum256 (hashed_content render (snd (L ! i))) = Sum256 (hashed_content render (snd (M' ! i)))"
      then obtain i where "i < length L" "hashed_content render (snd (L ! i)) \<noteq> hashed_content render (snd (M' ! i))"
        "Sum256 (hashed_content render (snd (L ! i))) = Sum256 (hashed_content render (snd (M' ! i)))" by blast
      then show ?thesis using M by (intro disjI2 exI [of _ i]) (simp add: nth_append)
    qed
  qed
qed simp


section \<open>A clock that does not move forward\<close>

text \<open>
  An entry written with the clock at or before the time of the only entry breaks the chain: it replaces
  that entry or is stored before it, and the log no longer verifies.
\<close>

theorem WriteAuditLog_clock_back:
  assumes "bucketAuditLog (st_db s) = [(bytes_str (PutUint64 t), Json e)]" "VerifyAuditLog render s = None"
    "now \<le> t" "WriteAuditLog render commit now entry s = (None, s')"
  shows "VerifyAuditLog render s' \<noteq> None"
proof -
  have "length (ae_EntryHash e) = 64"
    using assms(1,2) length_HashBytes by (auto simp: VerifyAuditLog_def entry_hash_def HashBytes_def split: if_splits)
  then have ne: "ae_EntryHash e \<noteq> []" by auto
  have "bytes_str (PutUint64 now) = bytes_str (PutUint64 t) \<or> bytes_str (PutUint64 now) < bytes_str (PutUint64 t)"
    using assms(3) by (auto simp: time_key_less order_le_less)
  then obtain x rest where "bucketAuditLog (st_db s') = (bytes_str (PutUint64 now), Json x) # rest" "ae_PrevHash x = ae_EntryHash e"
    using assms(1,4)
    by (auto simp: WriteAuditLog_def store_tx_def audit_tx_def Update_def Let_def res_bind_Inr_conv b_put_ok_iff
        split: sum.splits if_splits prod.splits)
  then show ?thesis using ne by (simp add: VerifyAuditLog_def)
qed

section \<open>A log of one entry\<close>

text \<open>A rendering that keeps the previous hash apart from the other fields.\<close>

definition demo_render :: "AuditLogEntry \<Rightarrow> bytes" where
  "demo_render e = str_bytes (ae_PrevHash e)"

definition blank_entry :: AuditLogEntry where
  "blank_entry = \<lparr>ae_Timestamp = 0, ae_TenantID = ''t'', ae_Identity = [], ae_Operation = ''PutObject'',
     ae_Resource = ''b/k'', ae_Outcome = ''success'', ae_RequestID = [], ae_PrevHash = [], ae_EntryHash = []\<rparr>"

definition first_entry :: AuditLogEntry where
  "first_entry = blank_entry\<lparr>ae_Timestamp := 7, ae_EntryHash := EncodeToString (Sum256 [])\<rparr>"

definition empty_store :: "LocalBlobStore CASStore" where
  "empty_store = newCASStore ''/srv/momo'' empty_local"

definition logged_store :: "LocalBlobStore CASStore" where
  "logged_store = empty_store\<lparr>st_db := initBuckets\<lparr>bucketAuditLog := [(bytes_str (PutUint64 7), Json first_entry)]\<rparr>\<rparr>"

lemma time_key_ok: "bytes_str (PutUint64 t) \<noteq> []" "length (bytes_str (PutUint64 t)) = 8"
  using length_bytes_str [of "PutUint64 t"] by (auto simp del: length_bytes_str)

lemma first_write: "WriteAuditLog demo_render True 7 blank_entry empty_store = (None, logged_store)"
  using time_key_ok [of 7]
  by (simp add: WriteAuditLog_def store_tx_def audit_tx_def Update_def Let_def b_put_def MaxKeySize_def empty_store_def
      newCASStore_def initBuckets_def logged_store_def first_entry_def blank_entry_def entry_hash_def demo_render_def str_bytes_def)

lemma logged_verifies: "VerifyAuditLog demo_render empty_store = None" "VerifyAuditLog demo_render logged_store = None"
  by (simp_all add: VerifyAuditLog_def empty_store_def newCASStore_def initBuckets_def logged_store_def first_entry_def
      blank_entry_def entry_hash_def demo_render_def str_bytes_def)

theorem WriteAuditLog_verifies_witness:
  "WriteAuditLog demo_render True 7 blank_entry empty_store = (None, logged_store) \<and>
   VerifyAuditLog demo_render logged_store = None"
  using WriteAuditLog_verifies [OF logged_verifies(1) _ first_write] first_write
  by (simp add: empty_store_def newCASStore_def initBuckets_def)

lemma demo_render_prev: "\<forall>x y. demo_render x = demo_render y \<longrightarrow> ae_PrevHash x = ae_PrevHash y"
  by (simp add: demo_render_def)


theorem WriteAuditLog_clock_back_witness:
  "\<exists>s'. WriteAuditLog demo_render True 7 blank_entry logged_store = (None, s') \<and> VerifyAuditLog demo_render s' \<noteq> None"
proof -
  obtain s' where s': "WriteAuditLog demo_render True 7 blank_entry logged_store = (None, s')"
    using time_key_ok [of 7]
    by (simp add: WriteAuditLog_def store_tx_def audit_tx_def Update_def Let_def b_put_def MaxKeySize_def)
  have "bucketAuditLog (st_db logged_store) = [(bytes_str (PutUint64 7), Json first_entry)]" by (simp add: logged_store_def)
  from WriteAuditLog_clock_back [OF this logged_verifies(2) order_refl s'] s' show ?thesis by blast
qed

definition shared_store :: "LocalBlobStore CASStore" where
  "shared_store = empty_store\<lparr>st_db := initBuckets\<lparr>bucketACL := [(''bucket/b'', Json \<lparr>acl_Name = ''b'',
     acl_Entries = [\<lparr>acl_TenantID = ''t'', acl_Permission = PermRead, acl_Effect = []\<rparr>]\<rparr>)]\<rparr>\<rparr>"


end
