(* ===== verification/Durability.thy ===== *)
theory Durability
  imports Blob_Store
begin

text \<open>
  Write durability, \<^verbatim>\<open>src/src/storage/durability.go\<close>: the modes, the per-blob barrier, and the group
  commit barrier as a step relation in which any number of writers interleave. A writer records its
  hash under the lock; the one that finds no flush in flight drains the batch under the lock and
  syncs its directories one by one without it.
\<close>

section \<open>Modes and the simple barriers\<close>

datatype DurabilityMode = DurabilityFSync | DurabilityGroupCommit | DurabilityNone

definition durabilityNames :: "(string \<times> DurabilityMode) list" where
  "durabilityNames = [(''fsync'', DurabilityFSync), (''group-commit'', DurabilityGroupCommit), (''none'', DurabilityNone)]"

fun mode_String :: "DurabilityMode \<Rightarrow> string" where
  "mode_String DurabilityFSync = ''fsync''"
| "mode_String DurabilityGroupCommit = ''group-commit''"
| "mode_String DurabilityNone = ''none''"

definition ParseDurabilityMode :: "string \<Rightarrow> DurabilityMode res" where
  "ParseDurabilityMode s =
     (if s = [] then Inr DurabilityFSync
      else case map_of durabilityNames s of None \<Rightarrow> Inl (Wrap EINVAL) | Some m \<Rightarrow> Inr m)"

text \<open>\<open>ops\<close> is the backend's sync operation, when it has one.\<close>

definition fsync_Commit :: "(string \<Rightarrow> 'b \<Rightarrow> err option) option \<Rightarrow> string \<Rightarrow> 'b \<Rightarrow> err option" where
  "fsync_Commit ops hash b =
     (case ops of None \<Rightarrow> None | Some sync \<Rightarrow> map_option wrap (sync hash b))"

definition none_Commit :: "string \<Rightarrow> 'b \<Rightarrow> err option" where
  "none_Commit hash b = None"

section \<open>Group commit\<close>

datatype writer =
    Idle
  | Winner string
  | Flushing string "string list"
  | AckedWinner string
  | AckedLoser string
  | FailedWinner string

record groupCommitBarrier =
  gc_pending :: "string list"
  gc_flushing :: bool
  gc_synced :: "string list"
  gc_writers :: "nat \<Rightarrow> writer"

definition newGroupCommitBarrier :: groupCommitBarrier where
  "newGroupCommitBarrier = \<lparr>gc_pending = [], gc_flushing = False, gc_synced = [], gc_writers = (\<lambda>_. Idle)\<rparr>"

text \<open>The two critical sections.\<close>

definition gc_record :: "string \<Rightarrow> groupCommitBarrier \<Rightarrow> bool \<times> groupCommitBarrier" where
  "gc_record hash g = (\<not> gc_flushing g, g\<lparr>gc_pending := List.insert hash (gc_pending g), gc_flushing := True\<rparr>)"

definition gc_drain :: "groupCommitBarrier \<Rightarrow> string list \<times> groupCommitBarrier" where
  "gc_drain g = (gc_pending g, g\<lparr>gc_pending := [], gc_flushing := False\<rparr>)"

abbreviation set_writer :: "nat \<Rightarrow> writer \<Rightarrow> groupCommitBarrier \<Rightarrow> groupCommitBarrier" where
  "set_writer t w g \<equiv> g\<lparr>gc_writers := (gc_writers g)(t := w)\<rparr>"

inductive gc_step :: "groupCommitBarrier \<Rightarrow> groupCommitBarrier \<Rightarrow> bool" where
  enter: "gc_writers g t = Idle \<Longrightarrow> gc_record h g = (winner, g') \<Longrightarrow>
    gc_step g (set_writer t (if winner then Winner h else AckedLoser h) g')"
| drain: "gc_writers g t = Winner h \<Longrightarrow> gc_drain g = (batch, g') \<Longrightarrow> set sq = set batch \<Longrightarrow>
    gc_step g (set_writer t (Flushing h sq) g')"
| sync: "gc_writers g t = Flushing h (x # xs) \<Longrightarrow>
    gc_step g (set_writer t (Flushing h xs) (g\<lparr>gc_synced := x # gc_synced g\<rparr>))"
| sync_fail: "gc_writers g t = Flushing h (x # xs) \<Longrightarrow> gc_step g (set_writer t (FailedWinner h) g)"
| ack: "gc_writers g t = Flushing h [] \<Longrightarrow> gc_step g (set_writer t (AckedWinner h) g)"

inductive_cases gc_stepE: "gc_step g g'"

definition gc_reach :: "groupCommitBarrier \<Rightarrow> bool" where
  "gc_reach g \<longleftrightarrow> gc_step\<^sup>*\<^sup>* newGroupCommitBarrier g"

definition gc_inv :: "groupCommitBarrier \<Rightarrow> bool" where
  "gc_inv g \<longleftrightarrow>
     (\<forall>t h. gc_writers g t = Winner h \<longrightarrow> gc_flushing g \<and> h \<in> set (gc_pending g)) \<and>
     (\<forall>t u h k. gc_writers g t = Winner h \<longrightarrow> gc_writers g u = Winner k \<longrightarrow> t = u) \<and>
     (\<forall>t h xs. gc_writers g t = Flushing h xs \<longrightarrow> h \<in> set xs \<union> set (gc_synced g)) \<and>
     (\<forall>t h. gc_writers g t = AckedWinner h \<longrightarrow> h \<in> set (gc_synced g))"

lemma gc_step_inv:
  assumes "gc_step g g'" "gc_inv g"
  shows "gc_inv g'"
  using assms
proof (cases rule: gc_step.cases)
  case (enter t h winner g1)
  then show ?thesis using assms(2) by (auto simp: gc_inv_def gc_record_def split: if_splits) blast+
next
  case (drain t h batch g1 sq)
  then show ?thesis using assms(2) by (auto simp: gc_inv_def gc_drain_def) blast
next
  case (sync t h x xs)
  then show ?thesis using assms(2) by (fastforce simp: gc_inv_def)
qed (fastforce simp: gc_inv_def)+

lemma gc_reach_inv:
  assumes "gc_reach g"
  shows "gc_inv g"
  using assms unfolding gc_reach_def
proof (induction rule: rtranclp_induct)
  case base
  then show ?case by (simp add: newGroupCommitBarrier_def gc_inv_def)
next
  case (step y z)
  then show ?case by (blast intro: gc_step_inv)
qed

text \<open>
  C22: in every interleaving, a writer that flushed a batch and was acknowledged has had its own blob's
  directory synced.
\<close>

theorem group_commit_winner_durable:
  assumes "gc_reach g" "gc_writers g t = AckedWinner h"
  shows "h \<in> set (gc_synced g)"
  using gc_reach_inv [OF assms(1)] assms(2) by (simp add: gc_inv_def)

lemma gc_two_writers:
  "gc_reach \<lparr>gc_pending = [''b'', ''a''], gc_flushing = True, gc_synced = [],
     gc_writers = (\<lambda>_. Idle)(0 := Winner ''a'', 1 := AckedLoser ''b'')\<rparr>"
proof -
  let ?g1 = "\<lparr>gc_pending = [''a''], gc_flushing = True, gc_synced = [], gc_writers = (\<lambda>_. Idle)(0 := Winner ''a'')\<rparr>"
  have "gc_step newGroupCommitBarrier ?g1"
    using gc_step.enter [of newGroupCommitBarrier 0 "''a''" True] by (simp add: gc_record_def newGroupCommitBarrier_def)
  moreover have "gc_step ?g1 \<lparr>gc_pending = [''b'', ''a''], gc_flushing = True, gc_synced = [],
      gc_writers = (\<lambda>_. Idle)(0 := Winner ''a'', 1 := AckedLoser ''b'')\<rparr>"
    using gc_step.enter [of ?g1 1 "''b''" False] by (simp add: gc_record_def)
  ultimately show ?thesis by (simp add: gc_reach_def)
qed

text \<open>
  A writer that joins a batch is acknowledged when it joins: some interleaving acknowledges it with
  no directory synced at all, so a crash then, or a failing flush, loses an acknowledged write.
\<close>

theorem group_commit_loser_early:
  "\<exists>g t h. gc_reach g \<and> gc_writers g t = AckedLoser h \<and> gc_synced g = []"
  by (rule exI, rule exI [of _ 1], rule exI [of _ "''b''"], rule conjI [OF gc_two_writers]) simp

definition solo_done :: groupCommitBarrier where
  "solo_done = \<lparr>gc_pending = [], gc_flushing = False, gc_synced = [''a''], gc_writers = (\<lambda>_. Idle)(0 := AckedWinner ''a'')\<rparr>"

lemma solo_done_reach: "gc_reach solo_done"
proof -
  let ?g1 = "\<lparr>gc_pending = [''a''], gc_flushing = True, gc_synced = [], gc_writers = (\<lambda>_. Idle)(0 := Winner ''a'')\<rparr>"
  let ?g2 = "\<lparr>gc_pending = [], gc_flushing = False, gc_synced = [], gc_writers = (\<lambda>_. Idle)(0 := Flushing ''a'' [''a''])\<rparr>"
  let ?g3 = "\<lparr>gc_pending = [], gc_flushing = False, gc_synced = [''a''], gc_writers = (\<lambda>_. Idle)(0 := Flushing ''a'' [])\<rparr>"
  have "gc_step newGroupCommitBarrier ?g1"
    using gc_step.enter [of newGroupCommitBarrier 0 "''a''" True] by (simp add: gc_record_def newGroupCommitBarrier_def)
  moreover have "gc_step ?g1 ?g2"
    using gc_step.drain [of ?g1 0 "''a''" "[''a'']" _ "[''a'']"] by (simp add: gc_drain_def)
  moreover have "gc_step ?g2 ?g3" using gc_step.sync [of ?g2 0 "''a''" "''a''" "[]"] by simp
  moreover have "gc_step ?g3 solo_done" using gc_step.ack [of ?g3 0 "''a''"] by (simp add: solo_done_def)
  ultimately show ?thesis unfolding gc_reach_def by (meson rtranclp.rtrancl_into_rtrancl rtranclp.rtrancl_refl)
qed

theorem group_commit_winner_durable_witness:
  "gc_reach solo_done \<and> gc_writers solo_done 0 = AckedWinner ''a'' \<and> ''a'' \<in> set (gc_synced solo_done)"
  using group_commit_winner_durable [OF solo_done_reach, of 0 "''a''"] solo_done_reach
  by (simp add: solo_done_def)

lemma Parse_String: "ParseDurabilityMode (mode_String m) = Inr m"
  by (cases m) (simp_all add: ParseDurabilityMode_def durabilityNames_def)

end
