(* ===== verification/Peer_Wire.thy ===== *)
theory Peer_Wire
  imports Momo_Prelude
begin

text \<open>
  The messages peers exchange (\<^verbatim>\<open>src/src/p2p/types.go\<close>): the length-prefixed RPC frame and the
  binary payloads it carries, each with its encoder and its decoder. The decoders check every length
  before they use it; the locale \<open>wire_codec\<close> states what the two halves of a codec promise, and each
  payload is an instance of it.
\<close>

section \<open>Message types\<close>

definition MsgHeartbeat :: byte where "MsgHeartbeat = 1"
definition MsgMembership :: byte where "MsgMembership = 2"
definition MsgSuspect :: byte where "MsgSuspect = 3"
definition MsgQuery :: byte where "MsgQuery = 4"
definition MsgQueryResponse :: byte where "MsgQueryResponse = 5"
definition MsgLeaseRequest :: byte where "MsgLeaseRequest = 6"
definition MsgLeaseGrant :: byte where "MsgLeaseGrant = 7"
definition MsgLeaseRelease :: byte where "MsgLeaseRelease = 8"
definition MsgPing :: byte where "MsgPing = 9"
definition MsgAck :: byte where "MsgAck = 10"
definition MsgIndirectPing :: byte where "MsgIndirectPing = 11"
definition MsgLoad :: byte where "MsgLoad = 24"

definition maxPayloadSize :: nat where "maxPayloadSize = 2 ^ 20"

record RPC =
  rpc_From :: "32 word"
  rpc_Type :: byte
  rpc_Payload :: bytes

record PeerInfo =
  pi_ID :: "32 word"
  pi_Addr :: string

record HeartbeatPayload =
  hb_Peers :: "PeerInfo list"

record QueryPayload =
  qp_Type :: byte
  qp_RequestID :: "64 word"
  qp_Data :: bytes

record QueryResponsePayload =
  qr_RequestID :: "64 word"
  qr_Data :: bytes
  qr_Error :: string

record LeasePayload =
  lp_LeaseID :: "64 word"
  lp_Key :: string
  lp_Expiry :: "64 word"

record PeerLoad =
  pl_DiskUsedPercent :: byte
  pl_InflightRequests :: "32 word"
  pl_ReplicationQueue :: "32 word"
  pl_UpdatedUnixNano :: "64 word"

record PingPayload =
  pp_PingID :: "64 word"
  pp_TargetID :: "32 word"
  pp_Timestamp :: "64 word"

record OPRFEvalRequestPayload =
  oq_RequestID :: "64 word"
  oq_ShareIndex :: byte
  oq_Blinded :: bytes

record OPRFEvalResponsePayload =
  or_RequestID :: "64 word"
  or_ShareIndex :: byte
  or_Error :: string
  or_Eval :: bytes

section \<open>Encoders and decoders\<close>

subsection \<open>Frames\<close>

text \<open>A reader is the bytes it still delivers; \<^verbatim>\<open>io.ReadFull\<close> fails when there are too few.\<close>

definition RPC_Encode :: "RPC \<Rightarrow> bytes" where
  "RPC_Encode r =
     PutUint32 (word_of_nat (1 + 4 + length (rpc_Payload r))) @ [rpc_Type r] @ PutUint32 (rpc_From r)
       @ rpc_Payload r"

definition DecodeRPC :: "bytes \<Rightarrow> (RPC \<times> bytes) res" where
  "DecodeRPC r =
     (if length r < 4 then Inl (Wrap EIO)
      else let totalLen = unat (Uint32 (take 4 r)); rest = drop 4 r in
        if totalLen < 5 \<or> totalLen > 2 ^ 20 then Inl (Wrap EBADMSG)
        else if length rest < totalLen then Inl (Wrap EIO)
        else let body = take totalLen rest in
          Inr (\<lparr>rpc_From = Uint32 (sub_slice 1 5 body), rpc_Type = body ! 0, rpc_Payload = drop 5 body\<rparr>,
               drop totalLen rest))"

subsection \<open>Heartbeats\<close>

definition PeerInfo_bytes :: "PeerInfo \<Rightarrow> bytes" where
  "PeerInfo_bytes p =
     PutUint32 (pi_ID p) @ PutUint16 (word_of_nat (length (pi_Addr p))) @ str_bytes (pi_Addr p)"

definition Heartbeat_Encode :: "HeartbeatPayload \<Rightarrow> bytes" where
  "Heartbeat_Encode h =
     PutUint32 (word_of_nat (length (hb_Peers h))) @ concat (map PeerInfo_bytes (hb_Peers h))"

fun heartbeat_loop :: "bytes \<Rightarrow> nat \<Rightarrow> nat \<Rightarrow> PeerInfo list \<Rightarrow> PeerInfo list res" where
  "heartbeat_loop data off 0 peers = Inr peers"
| "heartbeat_loop data off (Suc n) peers =
     (if off + 6 > length data then Inl (Wrap EBADMSG)
      else let id = Uint32 (sub_slice off (off + 4) data);
               addrLen = unat (Uint16 (sub_slice (off + 4) (off + 6) data)) in
        if off + 6 + addrLen > length data then Inl (Wrap EBADMSG)
        else let addr = bytes_str (sub_slice (off + 6) (off + 6 + addrLen) data) in
          heartbeat_loop data (off + 6 + addrLen) n (peers @ [\<lparr>pi_ID = id, pi_Addr = addr\<rparr>]))"

definition DecodeHeartbeatPayload :: "bytes \<Rightarrow> HeartbeatPayload res" where
  "DecodeHeartbeatPayload data =
     (if length data > maxPayloadSize then Inl (Wrap EBADMSG)
      else if length data < 4 then Inl (Wrap EBADMSG)
      else let count = unat (Uint32 (sub_slice 0 4 data)) in
        if count > (length data - 4) div 6 then Inl (Wrap EINVAL)
        else res_bind (heartbeat_loop data 4 count []) (\<lambda>peers. Inr \<lparr>hb_Peers = peers\<rparr>))"

subsection \<open>Queries\<close>

definition Query_Encode :: "QueryPayload \<Rightarrow> bytes" where
  "Query_Encode q = [qp_Type q] @ PutUint64 (qp_RequestID q) @ qp_Data q"

definition DecodeQueryPayload :: "bytes \<Rightarrow> QueryPayload res" where
  "DecodeQueryPayload data =
     (if length data > maxPayloadSize then Inl (Plain ''query payload too large'')
      else if length data < 9 then Inl (Wrap EBADMSG)
      else Inr \<lparr>qp_Type = data ! 0, qp_RequestID = Uint64 (sub_slice 1 9 data), qp_Data = drop 9 data\<rparr>)"

definition QueryResponse_Encode :: "QueryResponsePayload \<Rightarrow> bytes" where
  "QueryResponse_Encode q =
     PutUint64 (qr_RequestID q) @ PutUint32 (word_of_nat (length (qr_Data q))) @ qr_Data q
       @ PutUint16 (word_of_nat (length (qr_Error q))) @ str_bytes (qr_Error q)"

definition DecodeQueryResponsePayload :: "bytes \<Rightarrow> QueryResponsePayload res" where
  "DecodeQueryResponsePayload data =
     (if length data > maxPayloadSize then Inl (Plain ''query response payload too large'')
      else if length data < 14 then Inl (Wrap EBADMSG)
      else let dataLen = unat (Uint32 (sub_slice 8 12 data)) in
        if 12 + dataLen + 2 > length data then Inl (Wrap EBADMSG)
        else let off = 12 + dataLen; errLen = unat (Uint16 (sub_slice off (off + 2) data)) in
          if off + 2 + errLen > length data then Inl (Wrap EBADMSG)
          else Inr \<lparr>qr_RequestID = Uint64 (sub_slice 0 8 data), qr_Data = sub_slice 12 (12 + dataLen) data,
                    qr_Error = bytes_str (sub_slice (off + 2) (off + 2 + errLen) data)\<rparr>)"

subsection \<open>Leases\<close>

definition Lease_Encode :: "LeasePayload \<Rightarrow> bytes" where
  "Lease_Encode l =
     PutUint64 (lp_LeaseID l) @ PutUint32 (word_of_nat (length (lp_Key l))) @ str_bytes (lp_Key l)
       @ PutUint64 (lp_Expiry l)"

definition DecodeLeasePayload :: "bytes \<Rightarrow> LeasePayload res" where
  "DecodeLeasePayload data =
     (if length data > maxPayloadSize then Inl (Plain ''lease payload too large'')
      else if length data < 20 then Inl (Wrap EBADMSG)
      else let keyLen = unat (Uint32 (sub_slice 8 12 data)) in
        if 12 + keyLen + 8 > length data then Inl (Wrap EBADMSG)
        else let off = 12 + keyLen in
          Inr \<lparr>lp_LeaseID = Uint64 (sub_slice 0 8 data), lp_Key = bytes_str (sub_slice 12 off data),
               lp_Expiry = Uint64 (sub_slice off (off + 8) data)\<rparr>)"

subsection \<open>Load reports and pings\<close>

definition Load_Encode :: "PeerLoad \<Rightarrow> bytes" where
  "Load_Encode l =
     [pl_DiskUsedPercent l, 0, 0, 0] @ PutUint32 (pl_InflightRequests l) @ PutUint32 (pl_ReplicationQueue l)
       @ PutUint64 (pl_UpdatedUnixNano l)"

definition DecodeLoadPayload :: "bytes \<Rightarrow> PeerLoad res" where
  "DecodeLoadPayload data =
     (if length data > maxPayloadSize then Inl (Plain ''load payload too large'')
      else if length data < 20 then Inl (Wrap EBADMSG)
      else if data ! 0 > 100 then Inl (Wrap EBADMSG)
      else Inr \<lparr>pl_DiskUsedPercent = data ! 0, pl_InflightRequests = Uint32 (sub_slice 4 8 data),
                pl_ReplicationQueue = Uint32 (sub_slice 8 12 data),
                pl_UpdatedUnixNano = Uint64 (sub_slice 12 20 data)\<rparr>)"

definition Ping_Encode :: "PingPayload \<Rightarrow> bytes" where
  "Ping_Encode p = PutUint64 (pp_PingID p) @ PutUint32 (pp_TargetID p) @ PutUint64 (pp_Timestamp p)"

definition DecodePingPayload :: "bytes \<Rightarrow> PingPayload res" where
  "DecodePingPayload data =
     (if length data > maxPayloadSize then Inl (Plain ''ping payload too large'')
      else if length data < 20 then Inl (Wrap EBADMSG)
      else Inr \<lparr>pp_PingID = Uint64 (sub_slice 0 8 data), pp_TargetID = Uint32 (sub_slice 8 12 data),
                pp_Timestamp = Uint64 (sub_slice 12 20 data)\<rparr>)"

subsection \<open>OPRF evaluations\<close>

definition OPRFEvalRequest_Encode :: "OPRFEvalRequestPayload \<Rightarrow> bytes" where
  "OPRFEvalRequest_Encode q =
     PutUint64 (oq_RequestID q) @ [oq_ShareIndex q] @ PutUint32 (word_of_nat (length (oq_Blinded q)))
       @ oq_Blinded q"

definition DecodeOPRFEvalRequestPayload :: "bytes \<Rightarrow> OPRFEvalRequestPayload res" where
  "DecodeOPRFEvalRequestPayload data =
     (if length data > maxPayloadSize then Inl (Plain ''oprf request payload too large'')
      else if length data < 13 then Inl (Wrap EBADMSG)
      else let blindedLen = unat (Uint32 (sub_slice 9 13 data)) in
        if 13 + blindedLen > length data then Inl (Wrap EBADMSG)
        else Inr \<lparr>oq_RequestID = Uint64 (sub_slice 0 8 data), oq_ShareIndex = data ! 8,
                  oq_Blinded = sub_slice 13 (13 + blindedLen) data\<rparr>)"

definition OPRFEvalResponse_Encode :: "OPRFEvalResponsePayload \<Rightarrow> bytes" where
  "OPRFEvalResponse_Encode q =
     PutUint64 (or_RequestID q) @ [or_ShareIndex q] @ PutUint16 (word_of_nat (length (or_Error q)))
       @ str_bytes (or_Error q) @ PutUint32 (word_of_nat (length (or_Eval q))) @ or_Eval q"

definition DecodeOPRFEvalResponsePayload :: "bytes \<Rightarrow> OPRFEvalResponsePayload res" where
  "DecodeOPRFEvalResponsePayload data =
     (if length data > maxPayloadSize then Inl (Plain ''oprf response payload too large'')
      else if length data < 11 then Inl (Wrap EBADMSG)
      else let errLen = unat (Uint16 (sub_slice 9 11 data)) in
        if 11 + errLen + 4 > length data then Inl (Wrap EBADMSG)
        else let off = 11 + errLen; evalLen = unat (Uint32 (sub_slice off (off + 4) data)) in
          if off + 4 + evalLen > length data then Inl (Wrap EBADMSG)
          else Inr \<lparr>or_RequestID = Uint64 (sub_slice 0 8 data), or_ShareIndex = data ! 8,
                    or_Error = bytes_str (sub_slice 11 off data),
                    or_Eval = take evalLen (drop (off + 4) data)\<rparr>)"

section \<open>What a codec promises\<close>

text \<open>
  \<open>fits\<close> are the messages a codec is meant for. Decoding an encoding gives the message back, and a
  decoder accepts nothing else than such messages; an exact decoder accepts only encodings, possibly
  with bytes after them, which it ignores.
\<close>

locale wire_codec =
  fixes enc :: "'a \<Rightarrow> bytes" and dec :: "bytes \<Rightarrow> 'a res" and fits :: "'a \<Rightarrow> bool"
  assumes dec_enc: "fits x \<Longrightarrow> dec (enc x) = Inr x"
    and dec_fits: "dec bs = Inr x \<Longrightarrow> fits x"
begin

lemma enc_inj: "fits x \<Longrightarrow> fits y \<Longrightarrow> enc x = enc y \<Longrightarrow> x = y"
  using dec_enc by (metis sum.inject(2))

lemma dec_idem: "dec bs = Inr x \<Longrightarrow> dec (enc x) = Inr x"
  by (rule dec_enc, rule dec_fits)

end

locale exact_codec = wire_codec +
  assumes dec_exact: "dec bs = Inr x \<Longrightarrow> \<exists>rest. bs = enc x @ rest"
begin

lemma dec_iff: "dec bs = Inr x \<Longrightarrow> length bs = length (enc x) \<Longrightarrow> bs = enc x"
  using dec_exact [of bs x] by fastforce

end

lemmas slices = sub_slice_def unat_word_of_length maxPayloadSize_def Let_def

subsection \<open>The payloads\<close>

definition small :: "bytes \<Rightarrow> bool" where
  "small bs \<longleftrightarrow> length bs \<le> maxPayloadSize"

definition fits_query :: "QueryPayload \<Rightarrow> bool" where
  "fits_query q \<longleftrightarrow> small (Query_Encode q)"

definition fits_query_response :: "QueryResponsePayload \<Rightarrow> bool" where
  "fits_query_response q \<longleftrightarrow> length (qr_Error q) < 2 ^ 16 \<and> small (QueryResponse_Encode q)"

definition fits_lease :: "LeasePayload \<Rightarrow> bool" where
  "fits_lease l \<longleftrightarrow> small (Lease_Encode l)"

definition fits_load :: "PeerLoad \<Rightarrow> bool" where
  "fits_load l \<longleftrightarrow> pl_DiskUsedPercent l \<le> 100"

definition fits_oprf_request :: "OPRFEvalRequestPayload \<Rightarrow> bool" where
  "fits_oprf_request q \<longleftrightarrow> small (OPRFEvalRequest_Encode q)"

definition fits_oprf_response :: "OPRFEvalResponsePayload \<Rightarrow> bool" where
  "fits_oprf_response q \<longleftrightarrow> length (or_Error q) < 2 ^ 16 \<and> small (OPRFEvalResponse_Encode q)"

definition fits_heartbeat :: "HeartbeatPayload \<Rightarrow> bool" where
  "fits_heartbeat h \<longleftrightarrow> list_all (\<lambda>p. length (pi_Addr p) < 2 ^ 16) (hb_Peers h) \<and> small (Heartbeat_Encode h)"

definition fits_rpc :: "RPC \<Rightarrow> bool" where
  "fits_rpc r \<longleftrightarrow> length (rpc_Payload r) + 5 \<le> 2 ^ 20"

interpretation query: exact_codec Query_Encode DecodeQueryPayload fits_query
proof unfold_locales
  fix x assume "fits_query x"
  then show "DecodeQueryPayload (Query_Encode x) = Inr x"
    by (simp add: fits_query_def small_def Query_Encode_def DecodeQueryPayload_def slices)
next
  fix bs x assume d: "DecodeQueryPayload bs = Inr x"
  then have b: "length bs \<le> maxPayloadSize" "9 \<le> length bs" and
    x: "x = \<lparr>qp_Type = bs ! 0, qp_RequestID = Uint64 (sub_slice 1 9 bs), qp_Data = drop 9 bs\<rparr>"
    by (auto simp: DecodeQueryPayload_def split: if_splits)
  have "[bs ! 0] = sub_slice 0 1 bs" using sub_slice_one [of 0 bs] b by fastforce
  then have "Query_Encode x = sub_slice 0 1 bs @ sub_slice 1 9 bs @ drop 9 bs"
    using b PutUint_slice(3) [of 1 bs] by (simp add: x Query_Encode_def)
  then have e: "Query_Encode x = bs" by (simp add: sub_slice_join_rest sub_slice_all)
  then show "fits_query x" using b by (simp add: fits_query_def small_def)
  show "\<exists>rest. bs = Query_Encode x @ rest" using e by auto
qed

interpretation ping: exact_codec Ping_Encode DecodePingPayload "\<lambda>_. True"
proof unfold_locales
  fix x show "DecodePingPayload (Ping_Encode x) = Inr x"
    by (simp add: Ping_Encode_def DecodePingPayload_def slices)
next
  fix bs x assume d: "DecodePingPayload bs = Inr x"
  then have b: "20 \<le> length bs" by (auto simp: DecodePingPayload_def split: if_splits)
  then have "Ping_Encode x = sub_slice 0 8 bs @ sub_slice 8 12 bs @ sub_slice 12 20 bs"
    using d PutUint_slice(3) [of 0 bs] PutUint_slice(2) [of 8 bs] PutUint_slice(3) [of 12 bs]
    by (auto simp: DecodePingPayload_def Ping_Encode_def split: if_splits)
  then have "Ping_Encode x = sub_slice 0 20 bs" by (simp add: sub_slice_join)
  then show "\<exists>rest. bs = Ping_Encode x @ rest" using sub_slice_all by metis
qed simp

interpretation load: wire_codec Load_Encode DecodeLoadPayload fits_load
proof unfold_locales
  fix x assume "fits_load x"
  then show "DecodeLoadPayload (Load_Encode x) = Inr x"
    by (simp add: fits_load_def Load_Encode_def DecodeLoadPayload_def slices not_less)
next
  fix bs x assume "DecodeLoadPayload bs = Inr x"
  then show "fits_load x" by (auto simp: fits_load_def DecodeLoadPayload_def split: if_splits)
qed

interpretation query_response: exact_codec QueryResponse_Encode DecodeQueryResponsePayload fits_query_response
proof unfold_locales
  fix x assume "fits_query_response x"
  then have "length (qr_Error x) < 2 ^ 16" "length (qr_Data x) + length (qr_Error x) + 14 \<le> 2 ^ 20"
    by (simp_all add: fits_query_response_def small_def QueryResponse_Encode_def maxPayloadSize_def)
  then show "DecodeQueryResponsePayload (QueryResponse_Encode x) = Inr x"
    by (simp add: QueryResponse_Encode_def DecodeQueryResponsePayload_def slices)
next
  fix bs x assume d: "DecodeQueryResponsePayload bs = Inr x"
  define off where "off = 12 + unat (Uint32 (sub_slice 8 12 bs))"
  define fin where "fin = off + 2 + unat (Uint16 (sub_slice off (off + 2) bs))"
  have b: "length bs \<le> maxPayloadSize" "fin \<le> length bs" and
    x: "x = \<lparr>qr_RequestID = Uint64 (sub_slice 0 8 bs), qr_Data = sub_slice 12 off bs,
             qr_Error = bytes_str (sub_slice (off + 2) fin bs)\<rparr>"
    using d by (auto simp: DecodeQueryResponsePayload_def Let_def off_def fin_def split: if_splits)
  have o: "12 \<le> off" "off + 2 \<le> fin" by (simp_all add: off_def fin_def)
  have l: "(word_of_nat (off - 12) :: 32 word) = Uint32 (sub_slice 8 12 bs)"
    "(word_of_nat (fin - (off + 2)) :: 16 word) = Uint16 (sub_slice off (off + 2) bs)"
    by (simp_all add: off_def fin_def)
  have "QueryResponse_Encode x = sub_slice 0 8 bs @ sub_slice 8 12 bs @ sub_slice 12 off bs
      @ sub_slice off (off + 2) bs @ sub_slice (off + 2) fin bs"
    using b o PutUint_slice(3) [of 0 bs] PutUint_slice(2) [of 8 bs] PutUint_slice(1) [of off bs]
    by (simp add: x QueryResponse_Encode_def l del: of_nat_diff add_2_eq_Suc')
  also have "\<dots> = sub_slice 0 fin bs" using o by (simp add: sub_slice_join)
  finally have e: "QueryResponse_Encode x = sub_slice 0 fin bs" .
  show "fits_query_response x"
    using b o e unat_16_less [of "Uint16 (sub_slice off (off + 2) bs)"]
    by (simp add: fits_query_response_def small_def x fin_def)
  show "\<exists>rest. bs = QueryResponse_Encode x @ rest" using e sub_slice_all by metis
qed

interpretation lease: exact_codec Lease_Encode DecodeLeasePayload fits_lease
proof unfold_locales
  fix x assume "fits_lease x"
  then have "length (lp_Key x) + 20 \<le> 2 ^ 20"
    by (simp add: fits_lease_def small_def Lease_Encode_def maxPayloadSize_def)
  then show "DecodeLeasePayload (Lease_Encode x) = Inr x"
    by (simp add: Lease_Encode_def DecodeLeasePayload_def slices)
next
  fix bs x assume d: "DecodeLeasePayload bs = Inr x"
  define off where "off = 12 + unat (Uint32 (sub_slice 8 12 bs))"
  have b: "length bs \<le> maxPayloadSize" "off + 8 \<le> length bs" and
    x: "x = \<lparr>lp_LeaseID = Uint64 (sub_slice 0 8 bs), lp_Key = bytes_str (sub_slice 12 off bs),
             lp_Expiry = Uint64 (sub_slice off (off + 8) bs)\<rparr>"
    using d by (auto simp: DecodeLeasePayload_def Let_def off_def split: if_splits)
  have o: "12 \<le> off" by (simp add: off_def)
  have l: "(word_of_nat (off - 12) :: 32 word) = Uint32 (sub_slice 8 12 bs)" by (simp add: off_def)
  have "Lease_Encode x = sub_slice 0 8 bs @ sub_slice 8 12 bs @ sub_slice 12 off bs @ sub_slice off (off + 8) bs"
    using b o PutUint_slice(3) [of 0 bs] PutUint_slice(2) [of 8 bs] PutUint_slice(3) [of off bs]
    by (simp add: x Lease_Encode_def l)
  also have "\<dots> = sub_slice 0 (off + 8) bs" using o by (simp add: sub_slice_join)
  finally have e: "Lease_Encode x = sub_slice 0 (off + 8) bs" .
  show "fits_lease x" using b e by (simp add: fits_lease_def small_def)
  show "\<exists>rest. bs = Lease_Encode x @ rest" using e sub_slice_all by metis
qed

interpretation oprf_request: exact_codec OPRFEvalRequest_Encode DecodeOPRFEvalRequestPayload fits_oprf_request
proof unfold_locales
  fix x assume "fits_oprf_request x"
  then have "length (oq_Blinded x) + 13 \<le> 2 ^ 20"
    by (simp add: fits_oprf_request_def small_def OPRFEvalRequest_Encode_def maxPayloadSize_def)
  then show "DecodeOPRFEvalRequestPayload (OPRFEvalRequest_Encode x) = Inr x"
    by (simp add: OPRFEvalRequest_Encode_def DecodeOPRFEvalRequestPayload_def slices nth_append)
next
  fix bs x assume d: "DecodeOPRFEvalRequestPayload bs = Inr x"
  define fin where "fin = 13 + unat (Uint32 (sub_slice 9 13 bs))"
  have b: "length bs \<le> maxPayloadSize" "fin \<le> length bs" and
    x: "x = \<lparr>oq_RequestID = Uint64 (sub_slice 0 8 bs), oq_ShareIndex = bs ! 8, oq_Blinded = sub_slice 13 fin bs\<rparr>"
    using d by (auto simp: DecodeOPRFEvalRequestPayload_def Let_def fin_def split: if_splits)
  have o: "13 \<le> fin" by (simp add: fin_def)
  have l: "(word_of_nat (fin - 13) :: 32 word) = Uint32 (sub_slice 9 13 bs)" by (simp add: fin_def)
  have "[bs ! 8] = sub_slice 8 9 bs" using sub_slice_one [of 8 bs] b o by simp
  then have "OPRFEvalRequest_Encode x = sub_slice 0 8 bs @ sub_slice 8 9 bs @ sub_slice 9 13 bs @ sub_slice 13 fin bs"
    using b o PutUint_slice(3) [of 0 bs] PutUint_slice(2) [of 9 bs]
    by (simp add: x OPRFEvalRequest_Encode_def l)
  also have "\<dots> = sub_slice 0 fin bs" using o by (simp add: sub_slice_join)
  finally have e: "OPRFEvalRequest_Encode x = sub_slice 0 fin bs" .
  show "fits_oprf_request x" using b e by (simp add: fits_oprf_request_def small_def)
  show "\<exists>rest. bs = OPRFEvalRequest_Encode x @ rest" using e sub_slice_all by metis
qed

interpretation oprf_response: exact_codec OPRFEvalResponse_Encode DecodeOPRFEvalResponsePayload fits_oprf_response
proof unfold_locales
  fix x assume "fits_oprf_response x"
  then have "length (or_Error x) < 2 ^ 16" "length (or_Error x) + length (or_Eval x) + 15 \<le> 2 ^ 20"
    by (simp_all add: fits_oprf_response_def small_def OPRFEvalResponse_Encode_def maxPayloadSize_def)
  then show "DecodeOPRFEvalResponsePayload (OPRFEvalResponse_Encode x) = Inr x"
    by (simp add: OPRFEvalResponse_Encode_def DecodeOPRFEvalResponsePayload_def slices nth_append drop_Cons')
next
  fix bs x assume d: "DecodeOPRFEvalResponsePayload bs = Inr x"
  define off where "off = 11 + unat (Uint16 (sub_slice 9 11 bs))"
  define fin where "fin = off + 4 + unat (Uint32 (sub_slice off (off + 4) bs))"
  have b: "length bs \<le> maxPayloadSize" "fin \<le> length bs" and
    x: "x = \<lparr>or_RequestID = Uint64 (sub_slice 0 8 bs), or_ShareIndex = bs ! 8,
             or_Error = bytes_str (sub_slice 11 off bs), or_Eval = sub_slice (off + 4) fin bs\<rparr>"
    using d by (auto simp: DecodeOPRFEvalResponsePayload_def Let_def off_def fin_def sub_slice_def split: if_splits)
  have o: "11 \<le> off" "off + 4 \<le> fin" by (simp_all add: off_def fin_def)
  have l: "(word_of_nat (off - 11) :: 16 word) = Uint16 (sub_slice 9 11 bs)"
    "(word_of_nat (fin - (off + 4)) :: 32 word) = Uint32 (sub_slice off (off + 4) bs)"
    by (simp_all add: off_def fin_def)
  have "[bs ! 8] = sub_slice 8 9 bs" using sub_slice_one [of 8 bs] b o by simp
  then have "OPRFEvalResponse_Encode x = sub_slice 0 8 bs @ sub_slice 8 9 bs @ sub_slice 9 11 bs
      @ sub_slice 11 off bs @ sub_slice off (off + 4) bs @ sub_slice (off + 4) fin bs"
    using b o PutUint_slice(3) [of 0 bs] PutUint_slice(1) [of 9 bs] PutUint_slice(2) [of off bs]
    by (simp add: x OPRFEvalResponse_Encode_def l)
  also have "\<dots> = sub_slice 0 fin bs" using o by (simp add: sub_slice_join)
  finally have e: "OPRFEvalResponse_Encode x = sub_slice 0 fin bs" .
  show "fits_oprf_response x"
    using b o e unat_16_less [of "Uint16 (sub_slice 9 11 bs)"]
    by (simp add: fits_oprf_response_def small_def x off_def)
  show "\<exists>rest. bs = OPRFEvalResponse_Encode x @ rest" using e sub_slice_all by metis
qed

subsection \<open>Heartbeats\<close>

lemma length_PeerInfo_bytes [simp]: "length (PeerInfo_bytes p) = 6 + length (pi_Addr p)"
  by (simp add: PeerInfo_bytes_def)

lemma heartbeat_loop_encoded:
  assumes "list_all (\<lambda>p. length (pi_Addr p) < 2 ^ 16) ps" and "off = length pre"
  shows "heartbeat_loop (pre @ concat (map PeerInfo_bytes ps) @ suf) off (length ps) acc = Inr (acc @ ps)"
  using assms
proof (induction ps arbitrary: pre off acc)
  case (Cons p ps)
  let ?rest = "concat (map PeerInfo_bytes ps) @ suf"
  let ?data = "pre @ concat (map PeerInfo_bytes (p # ps)) @ suf"
  have a: "length (pi_Addr p) < 2 ^ 16" using Cons.prems by simp
  have d: "?data = pre @ PutUint32 (pi_ID p) @ PutUint16 (word_of_nat (length (pi_Addr p)))
      @ str_bytes (pi_Addr p) @ ?rest" by (simp add: PeerInfo_bytes_def)
  have "?data = (pre @ PeerInfo_bytes p) @ ?rest" by simp
  then have "heartbeat_loop ?data (off + (6 + length (pi_Addr p))) (length ps) (acc @ [p]) = Inr ((acc @ [p]) @ ps)"
    using Cons.IH [of "off + (6 + length (pi_Addr p))" "pre @ PeerInfo_bytes p" "acc @ [p]"] Cons.prems by simp
  then show ?case using a Cons.prems(2) unfolding d by (cases p) (simp add: slices add.assoc)
qed simp

lemma heartbeat_loop_exact:
  assumes "heartbeat_loop data off n acc = Inr ps" and "off \<le> length data"
  shows "\<exists>qs fin. ps = acc @ qs \<and> length qs = n \<and> off \<le> fin \<and> fin \<le> length data \<and>
    list_all (\<lambda>p. length (pi_Addr p) < 2 ^ 16) qs \<and> concat (map PeerInfo_bytes qs) = sub_slice off fin data"
  using assms
proof (induction data off n acc rule: heartbeat_loop.induct)
  case (1 data off peers)
  then show ?case by (auto simp: sub_slice_def intro!: exI [of _ off])
next
  case (2 data off n peers)
  define addrLen where "addrLen = unat (Uint16 (sub_slice (off + 4) (off + 6) data))"
  define p where "p = \<lparr>pi_ID = Uint32 (sub_slice off (off + 4) data),
      pi_Addr = bytes_str (sub_slice (off + 6) (off + 6 + addrLen) data)\<rparr>"
  have b: "off + 6 + addrLen \<le> length data"
    and l: "heartbeat_loop data (off + 6 + addrLen) n (peers @ [p]) = Inr ps"
    using "2.prems" by (auto simp: Let_def addrLen_def p_def split: if_splits)
  obtain qs fin where q: "ps = (peers @ [p]) @ qs" "length qs = n" "off + 6 + addrLen \<le> fin" "fin \<le> length data"
    "list_all (\<lambda>p. length (pi_Addr p) < 2 ^ 16) qs"
    "concat (map PeerInfo_bytes qs) = sub_slice (off + 6 + addrLen) fin data"
    using "2.IH" [OF _ refl refl _ refl] b l by (auto simp: addrLen_def p_def)
  have addr: "length (pi_Addr p) = addrLen" using b by (simp add: p_def)
  have "PeerInfo_bytes p = sub_slice off (off + 4) data @ sub_slice (off + 4) (off + 6) data
      @ sub_slice (off + 6) (off + 6 + addrLen) data"
    using b PutUint_slice(2) [of off data] PutUint_slice(1) [of "off + 4" data] addr
    by (simp add: PeerInfo_bytes_def p_def addrLen_def)
  then have "PeerInfo_bytes p = sub_slice off (off + 6 + addrLen) data" by (simp add: sub_slice_join)
  then have "concat (map PeerInfo_bytes (p # qs)) = sub_slice off fin data"
    using q(3,6) by (simp add: sub_slice_join)
  moreover have "addrLen < 2 ^ 16" unfolding addrLen_def by (rule unat_16_less)
  ultimately show ?case using q addr by (intro exI [of _ "p # qs"] exI [of _ fin]) simp
qed

interpretation heartbeat: exact_codec Heartbeat_Encode DecodeHeartbeatPayload fits_heartbeat
proof unfold_locales
  fix x assume f: "fits_heartbeat x"
  let ?cs = "concat (map PeerInfo_bytes (hb_Peers x))"
  have "6 * length ps \<le> length (concat (map PeerInfo_bytes ps))" for ps by (induction ps) simp_all
  then have six: "6 * length (hb_Peers x) \<le> length ?cs" .
  have sm: "length ?cs + 4 \<le> 2 ^ 20"
    using f by (simp add: fits_heartbeat_def small_def Heartbeat_Encode_def maxPayloadSize_def)
  then have n: "unat (word_of_nat (length (hb_Peers x)) :: 32 word) = length (hb_Peers x)"
    using six by (intro unat_word_of_length) simp
  have "heartbeat_loop (Heartbeat_Encode x) 4 (length (hb_Peers x)) [] = Inr (hb_Peers x)"
    using heartbeat_loop_encoded [of "hb_Peers x" 4 "PutUint32 (word_of_nat (length (hb_Peers x)))" "[]" "[]"] f
    by (simp add: fits_heartbeat_def Heartbeat_Encode_def)
  moreover have "sub_slice 0 4 (Heartbeat_Encode x) = PutUint32 (word_of_nat (length (hb_Peers x)))"
    by (simp add: Heartbeat_Encode_def)
  moreover have "length (hb_Peers x) \<le> length ?cs div 6" using six by (simp add: less_eq_div_iff_mult_less_eq mult.commute)
  ultimately show "DecodeHeartbeatPayload (Heartbeat_Encode x) = Inr x"
    using sm n by (simp add: DecodeHeartbeatPayload_def Let_def Heartbeat_Encode_def maxPayloadSize_def)
next
  fix bs x assume d: "DecodeHeartbeatPayload bs = Inr x"
  then have b: "length bs \<le> maxPayloadSize" "4 \<le> length bs"
    and l: "heartbeat_loop bs 4 (unat (Uint32 (sub_slice 0 4 bs))) [] = Inr (hb_Peers x)"
    by (auto simp: DecodeHeartbeatPayload_def Let_def res_bind_Inr_conv split: if_splits)
  obtain fin where q: "length (hb_Peers x) = unat (Uint32 (sub_slice 0 4 bs))" "4 \<le> fin" "fin \<le> length bs"
    "list_all (\<lambda>p. length (pi_Addr p) < 2 ^ 16) (hb_Peers x)"
    "concat (map PeerInfo_bytes (hb_Peers x)) = sub_slice 4 fin bs"
    using heartbeat_loop_exact [OF l b(2)] by auto
  have "Heartbeat_Encode x = sub_slice 0 4 bs @ sub_slice 4 fin bs"
    using b q PutUint_slice(2) [of 0 bs] by (simp add: Heartbeat_Encode_def)
  then have e: "Heartbeat_Encode x = sub_slice 0 fin bs" using q by (simp add: sub_slice_join)
  then show "fits_heartbeat x" using b q by (simp add: fits_heartbeat_def small_def)
  show "\<exists>rest. bs = Heartbeat_Encode x @ rest" using e sub_slice_all by metis
qed

section \<open>Frames on a connection\<close>

lemma DecodeRPC_Encode:
  assumes "fits_rpc r"
  shows "DecodeRPC (RPC_Encode r @ rest) = Inr (r, rest)"
proof -
  have "length (rpc_Payload r) + 5 \<le> 2 ^ 20" using assms by (simp add: fits_rpc_def)
  then have "unat (word_of_nat (5 + length (rpc_Payload r)) :: 32 word) = 5 + length (rpc_Payload r)"
    by (intro unat_word_of_length) simp
  with assms show ?thesis
    by (simp add: RPC_Encode_def DecodeRPC_def fits_rpc_def Let_def sub_slice_def take_Cons' drop_Cons')
qed

lemma DecodeRPC_exact:
  assumes "DecodeRPC bs = Inr (r, rest)"
  shows "bs = RPC_Encode r @ rest \<and> fits_rpc r"
proof -
  define n where "n = unat (Uint32 (take 4 bs))"
  define body where "body = take n (drop 4 bs)"
  have b: "4 \<le> length bs" "5 \<le> n" "n \<le> 2 ^ 20" "n \<le> length bs - 4"
    and r: "r = \<lparr>rpc_From = Uint32 (sub_slice 1 5 body), rpc_Type = body ! 0, rpc_Payload = drop 5 body\<rparr>"
      "rest = drop n (drop 4 bs)"
    using assms by (auto simp: DecodeRPC_def Let_def n_def body_def split: if_splits)
  have lb: "length body = n" using b by (simp add: body_def)
  have "[body ! 0] = sub_slice 0 1 body" using sub_slice_one [of 0 body] b lb by fastforce
  moreover have "PutUint32 (Uint32 (sub_slice 1 5 body)) = sub_slice 1 5 body"
    using PutUint_slice(2) [of 1 body] b lb by simp
  ultimately have "[rpc_Type r] @ PutUint32 (rpc_From r) @ rpc_Payload r = body"
    by (simp add: r sub_slice_join_rest sub_slice_all)
  moreover have "PutUint32 (word_of_nat (1 + 4 + length (rpc_Payload r))) = take 4 bs"
  proof -
    have "1 + 4 + length (rpc_Payload r) = n" using b lb by (simp add: r)
    then have "word_of_nat (1 + 4 + length (rpc_Payload r)) = Uint32 (take 4 bs)" by (simp add: n_def)
    with b show ?thesis by simp
  qed
  ultimately have e: "RPC_Encode r = take 4 bs @ body" by (simp add: RPC_Encode_def)
  have "bs = take 4 bs @ take n (drop 4 bs) @ drop n (drop 4 bs)" by (simp only: append_take_drop_id)
  then show ?thesis using e b lb by (simp add: body_def [symmetric] r fits_rpc_def)
qed

section \<open>What the wire carries\<close>

text \<open>
  A frame is read back as it was written, whatever follows it on the connection, and nothing but
  the bytes of a frame of at most \<^verbatim>\<open>1 MiB\<close> is ever read as one.
\<close>

theorem DecodeRPC_spec:
  "DecodeRPC bs = Inr (r, rest) \<longleftrightarrow> bs = RPC_Encode r @ rest \<and> length (rpc_Payload r) + 5 \<le> 2 ^ 20"
  using DecodeRPC_Encode DecodeRPC_exact by (auto simp: fits_rpc_def)

text \<open>
  C37: every payload that fits a message is decoded to what was encoded: heartbeats, queries and their
  answers, leases, pings, load reports and the two messages of an oblivious evaluation.
\<close>

theorem payloads_roundtrip:
  "(fits_heartbeat h \<longrightarrow> DecodeHeartbeatPayload (Heartbeat_Encode h) = Inr h) \<and>
   (fits_query q \<longrightarrow> DecodeQueryPayload (Query_Encode q) = Inr q) \<and>
   (fits_query_response r \<longrightarrow> DecodeQueryResponsePayload (QueryResponse_Encode r) = Inr r) \<and>
   (fits_lease l \<longrightarrow> DecodeLeasePayload (Lease_Encode l) = Inr l) \<and>
   DecodePingPayload (Ping_Encode p) = Inr p \<and>
   (fits_load d \<longrightarrow> DecodeLoadPayload (Load_Encode d) = Inr d) \<and>
   (fits_oprf_request x \<longrightarrow> DecodeOPRFEvalRequestPayload (OPRFEvalRequest_Encode x) = Inr x) \<and>
   (fits_oprf_response y \<longrightarrow> DecodeOPRFEvalResponsePayload (OPRFEvalResponse_Encode y) = Inr y)"
  by (simp add: heartbeat.dec_enc query.dec_enc query_response.dec_enc lease.dec_enc ping.dec_enc load.dec_enc
      oprf_request.dec_enc oprf_response.dec_enc)

theorem payloads_roundtrip_witness:
  "DecodeHeartbeatPayload (Heartbeat_Encode \<lparr>hb_Peers = [\<lparr>pi_ID = 7, pi_Addr = ''n:1''\<rparr>, \<lparr>pi_ID = 9, pi_Addr = []\<rparr>]\<rparr>) =
     Inr \<lparr>hb_Peers = [\<lparr>pi_ID = 7, pi_Addr = ''n:1''\<rparr>, \<lparr>pi_ID = 9, pi_Addr = []\<rparr>]\<rparr> \<and>
   DecodeLeasePayload (Lease_Encode \<lparr>lp_LeaseID = 3, lp_Key = ''gc'', lp_Expiry = 5\<rparr>) =
     Inr \<lparr>lp_LeaseID = 3, lp_Key = ''gc'', lp_Expiry = 5\<rparr>"
  using payloads_roundtrip [of "\<lparr>hb_Peers = [\<lparr>pi_ID = 7, pi_Addr = ''n:1''\<rparr>, \<lparr>pi_ID = 9, pi_Addr = []\<rparr>]\<rparr>" undefined undefined
      "\<lparr>lp_LeaseID = 3, lp_Key = ''gc'', lp_Expiry = 5\<rparr>"]
  by (simp add: fits_heartbeat_def fits_lease_def small_def maxPayloadSize_def Heartbeat_Encode_def Lease_Encode_def
      PeerInfo_bytes_def)

text \<open>
  C36: whatever bytes a peer sends, a decoder returns a value of the message's type or an error: every
  length it decodes is one its field can carry, a percentage is at most a hundred, and except for load
  reports, which may be of a later version, the bytes start with the encoding of the value.
\<close>

theorem decoded_payloads_typed:
  "(DecodeHeartbeatPayload bs = Inr h \<longrightarrow> fits_heartbeat h \<and> (\<exists>rest. bs = Heartbeat_Encode h @ rest)) \<and>
   (DecodeQueryPayload bs = Inr q \<longrightarrow> bs = Query_Encode q \<and> fits_query q) \<and>
   (DecodeQueryResponsePayload bs = Inr r \<longrightarrow> fits_query_response r \<and> (\<exists>rest. bs = QueryResponse_Encode r @ rest)) \<and>
   (DecodeLeasePayload bs = Inr l \<longrightarrow> fits_lease l \<and> (\<exists>rest. bs = Lease_Encode l @ rest)) \<and>
   (DecodeLoadPayload bs = Inr d \<longrightarrow> pl_DiskUsedPercent d \<le> 100) \<and>
   (DecodeOPRFEvalRequestPayload bs = Inr x \<longrightarrow> fits_oprf_request x \<and> (\<exists>rest. bs = OPRFEvalRequest_Encode x @ rest)) \<and>
   (DecodeOPRFEvalResponsePayload bs = Inr y \<longrightarrow> fits_oprf_response y \<and> (\<exists>rest. bs = OPRFEvalResponse_Encode y @ rest))"
proof -
  have q: "DecodeQueryPayload bs = Inr q \<Longrightarrow> bs = Query_Encode q"
    by (rule query.dec_iff) (auto simp: DecodeQueryPayload_def Query_Encode_def split: if_splits)
  have l: "DecodeLoadPayload bs = Inr d \<Longrightarrow> pl_DiskUsedPercent d \<le> 100"
    by (drule load.dec_fits) (simp add: fits_load_def)
  show ?thesis
    using heartbeat.dec_fits heartbeat.dec_exact q query.dec_fits query_response.dec_fits query_response.dec_exact
      lease.dec_fits lease.dec_exact l oprf_request.dec_fits oprf_request.dec_exact oprf_response.dec_fits
      oprf_response.dec_exact by (intro conjI impI) blast+
qed

theorem decoded_payloads_typed_witness:
  "DecodeLeasePayload (Lease_Encode \<lparr>lp_LeaseID = 3, lp_Key = ''gc'', lp_Expiry = 5\<rparr>) =
     Inr \<lparr>lp_LeaseID = 3, lp_Key = ''gc'', lp_Expiry = 5\<rparr> \<and>
   fits_lease \<lparr>lp_LeaseID = 3, lp_Key = ''gc'', lp_Expiry = 5\<rparr>"
proof -
  let ?l = "\<lparr>lp_LeaseID = 3, lp_Key = ''gc'', lp_Expiry = 5\<rparr>"
  have "DecodeLeasePayload (Lease_Encode ?l) = Inr ?l"
    by (rule lease.dec_enc) (simp add: fits_lease_def small_def maxPayloadSize_def Lease_Encode_def)
  then show ?thesis using decoded_payloads_typed [of "Lease_Encode ?l"] by blast
qed

end
