(* ===== verification/Peer_Net.thy ===== *)
theory Peer_Net
  imports Peer_Wire
begin

text \<open>
  The peers a node knows and its connections to them: the peer map (\<^verbatim>\<open>src/src/p2p/peer_map.go\<close>, the
  \<^verbatim>\<open>Peer\<close> of \<^verbatim>\<open>types.go\<close>) and the parts of the TCP transport that decide what is delivered and what is
  sent (\<^verbatim>\<open>src/src/p2p/tcp_transport.go\<close>).
\<close>

section \<open>Peers\<close>

datatype PeerState = PeerStateAlive | PeerStateSuspect | PeerStateOffline

text \<open>A connection is known by a number; times and round-trip times are 64-bit nanoseconds.\<close>

record Peer =
  p_ID :: "32 word"
  p_Addr :: string
  p_state :: PeerState
  p_lastSeen :: "64 word"
  p_rtt :: "64 word"
  p_load :: "PeerLoad option"
  p_conn :: "nat option"

definition NewPeer :: "64 word \<Rightarrow> 32 word \<Rightarrow> string \<Rightarrow> Peer" where
  "NewPeer now pid addr =
     \<lparr>p_ID = pid, p_Addr = addr, p_state = PeerStateAlive, p_lastSeen = now, p_rtt = 0, p_load = None,
      p_conn = None\<rparr>"

definition SetState :: "PeerState \<Rightarrow> Peer \<Rightarrow> Peer" where "SetState st p = p\<lparr>p_state := st\<rparr>"
definition Touch :: "64 word \<Rightarrow> Peer \<Rightarrow> Peer" where "Touch now p = p\<lparr>p_lastSeen := now\<rparr>"
definition SetRTT :: "64 word \<Rightarrow> Peer \<Rightarrow> Peer" where "SetRTT rtt p = p\<lparr>p_rtt := rtt\<rparr>"
definition SetConn :: "nat option \<Rightarrow> Peer \<Rightarrow> Peer" where "SetConn c p = p\<lparr>p_conn := c\<rparr>"
definition SetLoad :: "PeerLoad \<Rightarrow> Peer \<Rightarrow> Peer" where "SetLoad l p = p\<lparr>p_load := Some l\<rparr>"

lemmas peer_defs = SetState_def Touch_def SetRTT_def SetConn_def SetLoad_def

section \<open>The peer map\<close>

text \<open>
  Go iterates over a map in no fixed order; the list is the order one iteration takes. Peers are
  shared by pointer: changing a peer changes the entry of its ID, which \<open>modify_peer\<close> does.
\<close>

type_synonym PeerMap = "Peer list"

definition peer_map :: "PeerMap \<Rightarrow> bool" where
  "peer_map m \<longleftrightarrow> distinct (map p_ID m)"

definition PeerMap_Add :: "Peer \<Rightarrow> PeerMap \<Rightarrow> PeerMap" where
  "PeerMap_Add p m = filter (\<lambda>q. p_ID q \<noteq> p_ID p) m @ [p]"

definition PeerMap_Get :: "32 word \<Rightarrow> PeerMap \<Rightarrow> Peer option" where
  "PeerMap_Get pid m = find (\<lambda>p. p_ID p = pid) m"

definition PeerMap_Remove :: "32 word \<Rightarrow> PeerMap \<Rightarrow> PeerMap" where
  "PeerMap_Remove pid m = filter (\<lambda>p. p_ID p \<noteq> pid) m"

definition modify_peer :: "32 word \<Rightarrow> (Peer \<Rightarrow> Peer) \<Rightarrow> PeerMap \<Rightarrow> PeerMap" where
  "modify_peer pid f m = map (\<lambda>p. if p_ID p = pid then f p else p) m"

definition PeerMap_All :: "PeerMap \<Rightarrow> Peer list" where "PeerMap_All m = m"

definition PeerMap_Alive :: "PeerMap \<Rightarrow> Peer list" where
  "PeerMap_Alive m = filter (\<lambda>p. p_state p = PeerStateAlive) m"

definition quality_less :: "Peer \<Rightarrow> Peer \<Rightarrow> bool" where
  "quality_less a b =
     (let ri = p_rtt a; rj = p_rtt b in
      if ri = 0 then False else if rj = 0 then True else ri <s rj)"

definition AliveByQuality :: "PeerMap \<Rightarrow> Peer list" where
  "AliveByQuality m = SliceStable quality_less (filter (\<lambda>p. p_state p = PeerStateAlive) m)"

definition AliveCount :: "PeerMap \<Rightarrow> nat" where
  "AliveCount m = length (filter (\<lambda>p. p_state p = PeerStateAlive) m)"

text \<open>\<^verbatim>\<open>rng.Shuffle\<close> is an argument: some rearrangement of the alive peers.\<close>

fun take_peers :: "nat \<Rightarrow> 32 word \<Rightarrow> Peer list \<Rightarrow> Peer list \<Rightarrow> Peer list" where
  "take_peers k excludeID result [] = result"
| "take_peers k excludeID result (p # ps) =
     (if p_ID p = excludeID then take_peers k excludeID result ps
      else let result' = result @ [p] in
        if length result' \<ge> k then result' else take_peers k excludeID result' ps)"

definition RandomPeers :: "(Peer list \<Rightarrow> Peer list) \<Rightarrow> int \<Rightarrow> 32 word \<Rightarrow> PeerMap \<Rightarrow> Peer list" where
  "RandomPeers shuffle k excludeID m =
     (if k \<le> 0 then []
      else let alive = PeerMap_Alive m in
        if length alive \<le> 1 then filter (\<lambda>p. p_ID p \<noteq> excludeID) alive
        else take_peers (nat k) excludeID [] (shuffle alive))"

definition PeerMap_Count :: "PeerMap \<Rightarrow> nat" where "PeerMap_Count m = length m"

definition StateCount :: "PeerState \<Rightarrow> PeerMap \<Rightarrow> nat" where
  "StateCount st m = length (filter (\<lambda>p. p_state p = st) m)"

definition PeerInfos :: "PeerMap \<Rightarrow> PeerInfo list" where
  "PeerInfos m = map (\<lambda>p. \<lparr>pi_ID = p_ID p, pi_Addr = p_Addr p\<rparr>) m"

subsection \<open>The map's laws\<close>

lemma PeerMap_Get_Some: "PeerMap_Get pid m = Some p \<Longrightarrow> p_ID p = pid \<and> p \<in> set m"
  by (auto simp: PeerMap_Get_def find_Some_iff)

lemma PeerMap_Get_None: "PeerMap_Get pid m = None \<longleftrightarrow> (\<forall>p \<in> set m. p_ID p \<noteq> pid)"
  by (auto simp: PeerMap_Get_def find_None_iff)

lemma PeerMap_Get_in: "peer_map m \<Longrightarrow> p \<in> set m \<Longrightarrow> PeerMap_Get (p_ID p) m = Some p"
  unfolding PeerMap_Get_def peer_map_def by (induction m) auto

lemma find_append: "find P (xs @ ys) = (case find P xs of None \<Rightarrow> find P ys | Some x \<Rightarrow> Some x)"
  by (induction xs) auto

lemma find_filter_other: "(\<And>x. P x \<Longrightarrow> Q x) \<Longrightarrow> find P (filter Q xs) = find P xs"
  by (induction xs) auto

lemma PeerMap_Get_Add: "PeerMap_Get pid (PeerMap_Add p m) = (if p_ID p = pid then Some p else PeerMap_Get pid m)"
proof (cases "p_ID p = pid")
  case True
  then have "find (\<lambda>q. p_ID q = pid) (filter (\<lambda>q. p_ID q \<noteq> p_ID p) m) = None" by (auto simp: find_None_iff)
  with True show ?thesis by (simp add: PeerMap_Get_def PeerMap_Add_def find_append)
next
  case False
  then show ?thesis
    by (auto simp: PeerMap_Get_def PeerMap_Add_def find_append find_filter_other split: option.splits)
qed

lemma PeerMap_Get_modify:
  "(\<And>p. p_ID (f p) = p_ID p) \<Longrightarrow>
     PeerMap_Get pid' (modify_peer pid f m) = (if pid' = pid then map_option f (PeerMap_Get pid m) else PeerMap_Get pid' m)"
  by (induction m) (auto simp: PeerMap_Get_def modify_peer_def)

lemma peer_map_Add [intro]: "peer_map m \<Longrightarrow> peer_map (PeerMap_Add p m)"
  by (auto simp: peer_map_def PeerMap_Add_def distinct_map_filter)

lemma peer_map_Remove [intro]: "peer_map m \<Longrightarrow> peer_map (PeerMap_Remove pid m)"
  by (auto simp: peer_map_def PeerMap_Remove_def distinct_map_filter)

lemma map_ID_modify: "(\<And>p. p_ID (f p) = p_ID p) \<Longrightarrow> map p_ID (modify_peer pid f m) = map p_ID m"
  by (simp add: modify_peer_def)

lemma peer_map_modify [intro]: "peer_map m \<Longrightarrow> (\<And>p. p_ID (f p) = p_ID p) \<Longrightarrow> peer_map (modify_peer pid f m)"
  by (simp add: peer_map_def map_ID_modify)

lemma PeerMap_Get_Remove: "PeerMap_Get pid' (PeerMap_Remove pid m) = (if pid' = pid then None else PeerMap_Get pid' m)"
  by (auto simp: PeerMap_Get_def PeerMap_Remove_def find_filter_other find_None_iff)

subsection \<open>Choosing peers\<close>

interpretation quality: strict_weak_order quality_less
proof unfold_locales
  fix x y show "quality_less x y \<Longrightarrow> \<not> quality_less y x"
    by (auto simp: quality_less_def Let_def word_sless_alt split: if_splits)
next
  fix x y z show "\<not> quality_less x y \<Longrightarrow> \<not> quality_less y z \<Longrightarrow> \<not> quality_less x z"
    by (auto simp: quality_less_def Let_def word_sless_alt split: if_splits)
qed

lemma take_peers_spec:
  assumes "length result < k"
  shows "\<exists>n. take_peers k ex result ps = result @ take n (filter (\<lambda>p. p_ID p \<noteq> ex) ps) \<and>
     length (take_peers k ex result ps) = min k (length result + length (filter (\<lambda>p. p_ID p \<noteq> ex) ps))"
  using assms
proof (induction k ex result ps rule: take_peers.induct)
  case (1 k ex result)
  then show ?case by (intro exI [of _ 0]) simp
next
  case (2 k ex result p ps)
  show ?case
  proof (cases "p_ID p = ex")
    case True
    then show ?thesis using 2 by simp
  next
    case False
    show ?thesis
    proof (cases "length (result @ [p]) \<ge> k")
      case True
      with False 2 show ?thesis by (intro exI [of _ 1]) simp
    next
      case False': False
      then obtain n where n: "take_peers k ex (result @ [p]) ps = (result @ [p]) @ take n (filter (\<lambda>p. p_ID p \<noteq> ex) ps)"
        "length (take_peers k ex (result @ [p]) ps) = min k (length (result @ [p]) + length (filter (\<lambda>p. p_ID p \<noteq> ex) ps))"
        using "2.IH"(2) [OF False refl] by auto
      with False False' show ?thesis by (intro exI [of _ "Suc n"]) simp
    qed
  qed
qed

text \<open>
  The peers a quorum or a query prefers are exactly the alive ones, those with the lowest known
  round-trip time first and those without one last.
\<close>

theorem AliveByQuality_spec:
  "mset (AliveByQuality m) = mset (PeerMap_Alive m) \<and>
   sorted_wrt (\<lambda>a b. \<not> quality_less b a) (AliveByQuality m)"
  unfolding AliveByQuality_def PeerMap_Alive_def using quality.sorted_SliceStable by simp

text \<open>
  Gossip picks distinct alive peers, never the excluded one, as many as asked for while there
  are enough.
\<close>

theorem RandomPeers_spec:
  assumes m: "peer_map m" and k: "0 < k" and sh: "\<And>xs. mset (shuffle xs) = mset xs"
  shows "set (RandomPeers shuffle k ex m) \<subseteq> {p \<in> set m. p_state p = PeerStateAlive \<and> p_ID p \<noteq> ex} \<and>
    distinct (map p_ID (RandomPeers shuffle k ex m)) \<and>
    length (RandomPeers shuffle k ex m) =
      min (nat k) (length (filter (\<lambda>p. p_ID p \<noteq> ex) (PeerMap_Alive m)))"
proof (cases "length (PeerMap_Alive m) \<le> 1")
  case True
  have "length (filter (\<lambda>p. p_ID p \<noteq> ex) (PeerMap_Alive m)) \<le> 1"
    using True by (meson length_filter_le le_trans)
  moreover have "1 \<le> nat k" using k by simp
  ultimately show ?thesis
    using m k True by (auto simp: RandomPeers_def Let_def PeerMap_Alive_def peer_map_def distinct_map_filter)
next
  case False
  let ?ps = "shuffle (PeerMap_Alive m)"
  let ?fs = "filter (\<lambda>p. p_ID p \<noteq> ex) ?ps"
  obtain n where n: "take_peers (nat k) ex [] ?ps = take n ?fs"
    and l: "length (take_peers (nat k) ex [] ?ps) = min (nat k) (length ?fs)"
    using take_peers_spec [of "[]" "nat k" ex ?ps] k by auto
  have r: "RandomPeers shuffle k ex m = take_peers (nat k) ex [] ?ps"
    using False k by (simp add: RandomPeers_def Let_def)
  have s: "set ?ps = set (PeerMap_Alive m)" using sh by (metis set_mset_mset)
  have "mset (map p_ID ?ps) = mset (map p_ID (PeerMap_Alive m))" using sh by (simp add: mset_map)
  then have "distinct (map p_ID ?ps)"
    using m by (metis PeerMap_Alive_def peer_map_def distinct_map_filter mset_eq_imp_distinct_iff)
  then have "distinct (map p_ID (take n ?fs))" by (simp add: take_map [symmetric] distinct_map_filter)
  moreover have "set (take n ?fs) \<subseteq> set ?fs" by (rule set_take_subset)
  moreover have "length ?fs = length (filter (\<lambda>p. p_ID p \<noteq> ex) (PeerMap_Alive m))"
    using sh by (metis mset_filter size_mset)
  ultimately show ?thesis using n l s by (auto simp: r PeerMap_Alive_def)
qed

section \<open>Connections\<close>

text \<open>
  What arrives on a connection is a byte sequence that ends when the connection does. A read loop
  decodes frames until one fails, and passes each on.
\<close>

function (sequential) readLoop :: "bytes \<Rightarrow> RPC list" where
  "readLoop conn =
     (case DecodeRPC conn of Inl _ \<Rightarrow> [] | Inr (rpc, rest) \<Rightarrow> rpc # readLoop rest)"
  by pat_completeness auto

lemma DecodeRPC_shorter: "DecodeRPC bs = Inr (r, rest) \<Longrightarrow> length rest < length bs"
  by (drule DecodeRPC_exact) (auto simp: RPC_Encode_def)

termination readLoop
  by (relation "measure length") (auto dest: DecodeRPC_shorter)

declare readLoop.simps [simp del]

text \<open>
  \<^verbatim>\<open>handleConn\<close>: the first frame names the peer, which must be valid and pass \<^verbatim>\<open>AuthFunc\<close>; then its frames
  are delivered. The result is what it delivers and the peer map it leaves, the connection being
  detached at the end (\<^verbatim>\<open>cleanupConn\<close>).
\<close>

definition cleanupConn :: "nat \<Rightarrow> 32 word \<Rightarrow> PeerMap \<Rightarrow> PeerMap" where
  "cleanupConn conn peerID m =
     (if peerID <s 0 then m
      else case PeerMap_Get peerID m of
        Some peer \<Rightarrow> if p_conn peer = Some conn then modify_peer peerID (SetConn None) m else m
      | None \<Rightarrow> m)"

definition handleConn ::
  "(32 word \<Rightarrow> bool) option \<Rightarrow> 64 word \<Rightarrow> string \<Rightarrow> nat \<Rightarrow> bytes \<Rightarrow> PeerMap \<Rightarrow> RPC list \<times> PeerMap" where
  "handleConn AuthFunc now addr conn bs m =
     (case DecodeRPC bs of
        Inl _ \<Rightarrow> ([], m)
      | Inr (rpc, rest) \<Rightarrow>
          let peerID = rpc_From rpc in
          if peerID <s 0 then ([], m)
          else if (case AuthFunc of Some f \<Rightarrow> \<not> f peerID | None \<Rightarrow> False) then ([], cleanupConn conn peerID m)
          else let peer = SetConn (Some conn) (NewPeer now peerID addr) in
            (rpc # readLoop rest, cleanupConn conn peerID (PeerMap_Add peer m)))"

text \<open>\<^verbatim>\<open>Send\<close> and \<^verbatim>\<open>Broadcast\<close>: the frames written, by connection; \<open>up c\<close> says that a write succeeds.\<close>

definition Send :: "(nat \<Rightarrow> bool) \<Rightarrow> 32 word \<Rightarrow> RPC \<Rightarrow> PeerMap \<Rightarrow> err option \<times> (nat \<times> bytes) list" where
  "Send up peerID rpc m =
     (case PeerMap_Get peerID m of
        None \<Rightarrow> (Some (Wrap ENOENT), [])
      | Some peer \<Rightarrow> (case p_conn peer of
            None \<Rightarrow> (Some (Wrap ENOTCONN), [])
          | Some c \<Rightarrow> if up c then (None, [(c, RPC_Encode rpc)]) else (Some (Wrap EPIPE), [])))"

fun broadcast_loop :: "(nat \<Rightarrow> bool) \<Rightarrow> RPC \<Rightarrow> Peer list \<Rightarrow> nat \<Rightarrow> (nat \<times> bytes) list \<Rightarrow> nat \<times> (nat \<times> bytes) list" where
  "broadcast_loop up rpc [] sent out = (sent, out)"
| "broadcast_loop up rpc (p # ps) sent out =
     (if p_ID p = rpc_From rpc then broadcast_loop up rpc ps sent out
      else case p_conn p of
        None \<Rightarrow> broadcast_loop up rpc ps sent out
      | Some c \<Rightarrow>
          if up c then broadcast_loop up rpc ps (sent + 1) (out @ [(c, RPC_Encode rpc)])
          else broadcast_loop up rpc ps sent out)"

definition Broadcast :: "(nat \<Rightarrow> bool) \<Rightarrow> RPC \<Rightarrow> PeerMap \<Rightarrow> nat \<times> (nat \<times> bytes) list" where
  "Broadcast up rpc m = broadcast_loop up rpc (PeerMap_All m) 0 []"

subsection \<open>Delivery\<close>

lemma readLoop_Encode: "fits_rpc r \<Longrightarrow> readLoop (RPC_Encode r @ bs) = r # readLoop bs"
  by (subst readLoop.simps) (simp add: DecodeRPC_Encode)

lemma readLoop_Nil [simp]: "readLoop [] = []"
  by (subst readLoop.simps) (simp add: DecodeRPC_def)

lemma readLoop_exact:
  "\<exists>rest. bs = concat (map RPC_Encode (readLoop bs)) @ rest \<and> list_all fits_rpc (readLoop bs) \<and> (\<exists>e. DecodeRPC rest = Inl e)"
proof (induction bs rule: readLoop.induct)
  case (1 bs)
  show ?case
  proof (cases "DecodeRPC bs")
    case (Inl e)
    then show ?thesis by (subst (1 2) readLoop.simps) auto
  next
    case (Inr p)
    then obtain r rest where p: "DecodeRPC bs = Inr (r, rest)" by (cases p) auto
    then have e: "bs = RPC_Encode r @ rest" "fits_rpc r" using DecodeRPC_exact by auto
    from 1 [OF p refl] obtain rest' where "rest = concat (map RPC_Encode (readLoop rest)) @ rest'"
      "list_all fits_rpc (readLoop rest)" "\<exists>e. DecodeRPC rest' = Inl e" by auto
    moreover have "readLoop bs = r # readLoop rest" using p by (subst readLoop.simps) simp
    ultimately show ?thesis using e by auto
  qed
qed

lemma readLoop_frames: "list_all fits_rpc rs \<Longrightarrow> readLoop (concat (map RPC_Encode rs) @ bs) = rs @ readLoop bs"
  by (induction rs) (simp_all add: readLoop_Encode)

text \<open>
  A connection delivers exactly the frames written to it, in order: what a read loop passes on
  after any sequence of sends is that sequence, and whatever bytes arrive, what it passes on is the
  longest sequence of well-formed frames they start with.
\<close>

theorem readLoop_delivers:
  "(list_all fits_rpc rs \<longrightarrow> readLoop (concat (map RPC_Encode rs)) = rs) \<and>
   (\<exists>rest e. bs = concat (map RPC_Encode (readLoop bs)) @ rest \<and> DecodeRPC rest = Inl e)"
  using readLoop_frames [of rs "[]"] readLoop_exact [of bs] by auto

theorem readLoop_delivers_witness:
  "readLoop (concat (map RPC_Encode [\<lparr>rpc_From = 1, rpc_Type = MsgPing, rpc_Payload = [7]\<rparr>,
     \<lparr>rpc_From = 1, rpc_Type = MsgAck, rpc_Payload = []\<rparr>])) =
   [\<lparr>rpc_From = 1, rpc_Type = MsgPing, rpc_Payload = [7]\<rparr>, \<lparr>rpc_From = 1, rpc_Type = MsgAck, rpc_Payload = []\<rparr>]"
  using readLoop_delivers [of "[\<lparr>rpc_From = 1, rpc_Type = MsgPing, rpc_Payload = [7]\<rparr>,
     \<lparr>rpc_From = 1, rpc_Type = MsgAck, rpc_Payload = []\<rparr>]" "[]"] by (simp add: fits_rpc_def)

text \<open>
  A connection delivers nothing until its first frame names a peer that passes the
  authentication function. That frame is the only one checked: the frames after it are delivered
  with whatever sender they name.
\<close>

theorem handleConn_authenticates_first:
  assumes d: "fst (handleConn (Some auth) now addr conn bs m) \<noteq> []"
  shows "\<exists>r rs. fst (handleConn (Some auth) now addr conn bs m) = r # rs \<and> auth (rpc_From r) \<and> 0 \<le> sint (rpc_From r)"
  using d by (auto simp: handleConn_def Let_def word_sless_alt split: sum.splits prod.splits if_splits)

lemma handleConn_delivers:
  assumes "list_all fits_rpc (r # rs)" "0 \<le> sint (rpc_From r)" "auth (rpc_From r)"
  shows "fst (handleConn (Some auth) now addr conn (concat (map RPC_Encode (r # rs))) m) = r # rs"
  using assms readLoop_frames [of rs "[]"]
  by (simp add: handleConn_def Let_def DecodeRPC_Encode word_sless_alt)

theorem handleConn_spoofed_sender:
  "fst (handleConn (Some (\<lambda>i. i = 1)) now addr conn
     (concat (map RPC_Encode [\<lparr>rpc_From = 1, rpc_Type = MsgPing, rpc_Payload = []\<rparr>,
        \<lparr>rpc_From = 2, rpc_Type = MsgLeaseRelease, rpc_Payload = p\<rparr>])) m) =
   [\<lparr>rpc_From = 1, rpc_Type = MsgPing, rpc_Payload = []\<rparr>, \<lparr>rpc_From = 2, rpc_Type = MsgLeaseRelease, rpc_Payload = p\<rparr>]"
  if "length p \<le> 1000"
  using that by (intro handleConn_delivers) (simp_all add: fits_rpc_def)

lemma broadcast_loop_spec:
  "broadcast_loop up rpc ps sent out =
     (let cs = filter up (List.map_filter (\<lambda>p. if p_ID p = rpc_From rpc then None else p_conn p) ps) in
      (sent + length cs, out @ map (\<lambda>c. (c, RPC_Encode rpc)) cs))"
  by (induction up rpc ps sent out rule: broadcast_loop.induct)
    (auto simp: Let_def map_filter_simps split: option.splits)

text \<open>
  A broadcast writes the frame once to every connected peer other than the sender whose write
  succeeds, and reports how many there were.
\<close>

theorem Broadcast_spec:
  "Broadcast up rpc m =
     (let cs = filter up (List.map_filter (\<lambda>p. if p_ID p = rpc_From rpc then None else p_conn p) m) in
      (length cs, map (\<lambda>c. (c, RPC_Encode rpc)) cs))"
  by (simp add: Broadcast_def PeerMap_All_def broadcast_loop_spec Let_def)

end
