(* ===== verification/Lease.thy ===== *)
theory Lease
  imports Peer_Net
begin

text \<open>
  Leases for destructive operations (\<^verbatim>\<open>src/src/p2p/lease.go\<close>): the handlers of the lease messages, the
  acquisition of a lease from a majority, and the protocol they form between nodes, as a step relation
  over the managers and the messages in flight. Quorums carry the safety proof: the locale
  \<open>lease_quorum\<close> has the law that two quorums share a peer.
\<close>

section \<open>The lease manager\<close>

record Lease =
  le_LeaseID :: "64 word"
  le_HolderID :: "32 word"
  le_Key :: string
  le_Expiry :: int
  le_QuorumSize :: nat

text \<open>A pending acquisition is its channel of answers: the capacity and the answers not yet read.\<close>

record grant_chan =
  gc_cap :: nat
  gc_buf :: "bool list"

record LeaseManager =
  lm_localID :: "32 word"
  lm_nextLeaseID :: "64 word"
  lm_granted :: "string \<rightharpoonup> 64 word"
  lm_held :: "64 word \<rightharpoonup> Lease"
  lm_pending :: "64 word \<rightharpoonup> grant_chan"

definition NewLeaseManager :: "32 word \<Rightarrow> LeaseManager" where
  "NewLeaseManager localID =
     \<lparr>lm_localID = localID, lm_nextLeaseID = 0, lm_granted = Map.empty, lm_held = Map.empty,
      lm_pending = Map.empty\<rparr>"

text \<open>Instants are nanoseconds; \<^verbatim>\<open>UnixNano\<close> keeps 64 bits of them.\<close>

definition UnixNano :: "int \<Rightarrow> 64 word" where "UnixNano t = word_of_int t"

definition cleanupExpired :: "int \<Rightarrow> int \<Rightarrow> LeaseManager \<Rightarrow> LeaseManager" where
  "cleanupExpired now now' lm =
     lm\<lparr>lm_granted := (\<lambda>key. case lm_granted lm key of
            Some expiry \<Rightarrow> if expiry <s UnixNano now then None else Some expiry | None \<Rightarrow> None),
        lm_held := (\<lambda>i. case lm_held lm i of
            Some lease \<Rightarrow> if le_Expiry lease < now' then None else Some lease | None \<Rightarrow> None)\<rparr>"

text \<open>A handler returns the manager it leaves and what it sends, with the destination.\<close>

definition lease_taken :: "int \<Rightarrow> string \<Rightarrow> LeaseManager \<Rightarrow> bool" where
  "lease_taken now key lm = (case lm_granted lm key of Some existing \<Rightarrow> UnixNano now <s existing | None \<Rightarrow> False)"

definition handleLeaseRequest :: "int \<Rightarrow> RPC \<Rightarrow> LeaseManager \<Rightarrow> LeaseManager \<times> (32 word \<times> RPC) list" where
  "handleLeaseRequest now rpc lm =
     (case DecodeLeasePayload (rpc_Payload rpc) of
        Inl _ \<Rightarrow> (lm, [])
      | Inr payload \<Rightarrow>
          if lease_taken now (lp_Key payload) lm then
            (lm, [(rpc_From rpc, \<lparr>rpc_From = lm_localID lm, rpc_Type = MsgLeaseGrant,
               rpc_Payload = Lease_Encode \<lparr>lp_LeaseID = lp_LeaseID payload, lp_Key = lp_Key payload, lp_Expiry = 0\<rparr>\<rparr>)])
          else
            (lm\<lparr>lm_granted := (lm_granted lm)(lp_Key payload \<mapsto> lp_Expiry payload)\<rparr>,
             [(rpc_From rpc, \<lparr>rpc_From = lm_localID lm, rpc_Type = MsgLeaseGrant,
               rpc_Payload = Lease_Encode \<lparr>lp_LeaseID = lp_LeaseID payload, lp_Key = lp_Key payload,
                 lp_Expiry = lp_Expiry payload\<rparr>\<rparr>)]))"

definition handleLeaseGrant :: "RPC \<Rightarrow> LeaseManager \<Rightarrow> LeaseManager" where
  "handleLeaseGrant rpc lm =
     (case DecodeLeasePayload (rpc_Payload rpc) of
        Inl _ \<Rightarrow> lm
      | Inr payload \<Rightarrow>
          (case lm_pending lm (lp_LeaseID payload) of
             None \<Rightarrow> lm
           | Some ch \<Rightarrow>
               if length (gc_buf ch) < gc_cap ch then
                 lm\<lparr>lm_pending := (lm_pending lm)(lp_LeaseID payload \<mapsto>
                   ch\<lparr>gc_buf := gc_buf ch @ [lp_Expiry payload \<noteq> 0]\<rparr>)\<rparr>
               else lm))"

definition handleLeaseRelease :: "RPC \<Rightarrow> LeaseManager \<Rightarrow> LeaseManager" where
  "handleLeaseRelease rpc lm =
     (case DecodeLeasePayload (rpc_Payload rpc) of
        Inl _ \<Rightarrow> lm
      | Inr payload \<Rightarrow> lm\<lparr>lm_granted := (lm_granted lm)(lp_Key payload := None)\<rparr>)"

definition HandleLeaseRPC :: "int \<Rightarrow> RPC \<Rightarrow> LeaseManager \<Rightarrow> LeaseManager \<times> (32 word \<times> RPC) list" where
  "HandleLeaseRPC now rpc lm =
     (if rpc_Type rpc = MsgLeaseRequest then handleLeaseRequest now rpc lm
      else if rpc_Type rpc = MsgLeaseGrant then (handleLeaseGrant rpc lm, [])
      else if rpc_Type rpc = MsgLeaseRelease then (handleLeaseRelease rpc lm, [])
      else (lm, []))"

definition majorityQuorum :: "nat \<Rightarrow> nat" where
  "majorityQuorum peerCount = (if peerCount = 0 then 0 else peerCount div 2 + 1)"

section \<open>Acquiring and releasing\<close>

text \<open>
  \<^verbatim>\<open>Acquire\<close> in its three parts: the request it broadcasts, with the acquisition it then waits on; the
  wait, over what its \<^verbatim>\<open>select\<close> receives; and the lease it records. The timer fires when nothing else
  comes.
\<close>

record lease_call =
  ac_LeaseID :: "64 word"
  ac_Key :: string
  ac_Expiry :: int
  ac_Quorum :: nat
  ac_Grants :: nat

definition other_peers :: "32 word \<Rightarrow> PeerMap \<Rightarrow> nat" where
  "other_peers localID m = length (filter (\<lambda>p. p_ID p \<noteq> localID) (AliveByQuality m))"

definition Acquire_request ::
  "PeerMap \<Rightarrow> int \<Rightarrow> int \<Rightarrow> string \<Rightarrow> LeaseManager \<Rightarrow> (LeaseManager \<times> lease_call \<times> RPC) res" where
  "Acquire_request peers now duration key lm =
     (let peerCount = other_peers (lm_localID lm) peers in
      if PeerMap_Count peers > 0 \<and> peerCount = 0 then Inl (Plain ''no reachable peers for quorum'')
      else let leaseID = lm_nextLeaseID lm + 1; expiry = now + duration in
        Inr (lm\<lparr>lm_nextLeaseID := leaseID,
                lm_pending := (lm_pending lm)(leaseID \<mapsto> \<lparr>gc_cap = peerCount, gc_buf = []\<rparr>)\<rparr>,
             \<lparr>ac_LeaseID = leaseID, ac_Key = key, ac_Expiry = expiry, ac_Quorum = majorityQuorum peerCount, ac_Grants = 0\<rparr>,
             \<lparr>rpc_From = lm_localID lm, rpc_Type = MsgLeaseRequest,
              rpc_Payload = Lease_Encode \<lparr>lp_LeaseID = leaseID, lp_Key = key, lp_Expiry = UnixNano expiry\<rparr>\<rparr>))"

definition Acquire_end :: "64 word \<Rightarrow> LeaseManager \<Rightarrow> LeaseManager" where
  "Acquire_end leaseID lm = lm\<lparr>lm_pending := (lm_pending lm)(leaseID := None)\<rparr>"

definition Acquire_lease :: "lease_call \<Rightarrow> LeaseManager \<Rightarrow> Lease \<times> LeaseManager" where
  "Acquire_lease c lm =
     (let lease = \<lparr>le_LeaseID = ac_LeaseID c, le_HolderID = lm_localID lm, le_Key = ac_Key c,
                   le_Expiry = ac_Expiry c, le_QuorumSize = ac_Grants c\<rparr>
      in (lease, Acquire_end (ac_LeaseID c) (lm\<lparr>lm_held := (lm_held lm)(ac_LeaseID c \<mapsto> lease)\<rparr>)))"

datatype select_event = Chan bool | Timer | Done

definition Acquire_receive :: "bool \<Rightarrow> lease_call \<Rightarrow> lease_call" where
  "Acquire_receive granted c = (if granted then c\<lparr>ac_Grants := ac_Grants c + 1\<rparr> else c)"

fun Acquire_wait :: "select_event list \<Rightarrow> lease_call \<Rightarrow> lease_call res" where
  "Acquire_wait evs c =
     (if ac_Grants c < ac_Quorum c then
        (case evs of
           [] \<Rightarrow> Inl (Plain ''lease quorum timeout'')
         | Chan granted # evs' \<Rightarrow> Acquire_wait evs' (Acquire_receive granted c)
         | Timer # _ \<Rightarrow> Inl (Plain ''lease quorum timeout'')
         | Done # _ \<Rightarrow> Inl (Plain ''lease manager stopped''))
      else Inr c)"

declare Acquire_wait.simps [simp del]

definition Acquire ::
  "PeerMap \<Rightarrow> int \<Rightarrow> int \<Rightarrow> string \<Rightarrow> nat \<Rightarrow> select_event list \<Rightarrow> LeaseManager \<Rightarrow> Lease res \<times> LeaseManager" where
  "Acquire peers now duration key sent evs lm =
     (case Acquire_request peers now duration key lm of
        Inl e \<Rightarrow> (Inl e, lm)
      | Inr (lm', c, rpc) \<Rightarrow>
          if sent < ac_Quorum c then (Inl (Plain ''not enough peers for quorum''), Acquire_end (ac_LeaseID c) lm')
          else (case Acquire_wait evs c of
              Inl e \<Rightarrow> (Inl e, Acquire_end (ac_LeaseID c) lm')
            | Inr c' \<Rightarrow> (let (lease, lm'') = Acquire_lease c' lm' in (Inr lease, lm''))))"

definition Release :: "Lease \<Rightarrow> LeaseManager \<Rightarrow> LeaseManager \<times> RPC" where
  "Release lease lm =
     (lm\<lparr>lm_held := (lm_held lm)(le_LeaseID lease := None)\<rparr>,
      \<lparr>rpc_From = lm_localID lm, rpc_Type = MsgLeaseRelease,
       rpc_Payload = Lease_Encode \<lparr>lp_LeaseID = le_LeaseID lease, lp_Key = le_Key lease, lp_Expiry = 0\<rparr>\<rparr>)"

text \<open>\<^verbatim>\<open>ReleaseByKey\<close> takes the first match of an iteration over the held leases, in an order \<open>ids\<close>.\<close>

definition ReleaseByKey :: "64 word list \<Rightarrow> string \<Rightarrow> LeaseManager \<Rightarrow> LeaseManager \<times> RPC option" where
  "ReleaseByKey ids key lm =
     (case find (\<lambda>i. case lm_held lm i of Some lease \<Rightarrow> le_Key lease = key | None \<Rightarrow> False) ids of
        None \<Rightarrow> (lm, None)
      | Some i \<Rightarrow>
          (lm\<lparr>lm_held := (lm_held lm)(i := None)\<rparr>,
           Some \<lparr>rpc_From = lm_localID lm, rpc_Type = MsgLeaseRelease,
                 rpc_Payload = Lease_Encode \<lparr>lp_LeaseID = i, lp_Key = key, lp_Expiry = 0\<rparr>\<rparr>))"

section \<open>The protocol between nodes\<close>

text \<open>
  Each node of \<open>N\<close> has a manager, what it sees of its peers, and its running acquisitions; messages are
  in flight until delivered or lost. \<open>ln_log\<close> records which peer granted which request (of which node,
  by its lease ID) and \<open>ln_issued\<close> what was asked for; no step reads them. Nodes read one clock. There
  are no releases here: see \<open>stale_release_frees_lease\<close> for what a late one does.
\<close>

record lease_net =
  ln_clock :: int
  ln_lm :: "32 word \<Rightarrow> LeaseManager"
  ln_calls :: "32 word \<Rightarrow> 64 word \<rightharpoonup> lease_call"
  ln_msgs :: "(32 word \<times> RPC) multiset"
  ln_issued :: "32 word \<Rightarrow> 64 word \<rightharpoonup> string \<times> int"
  ln_log :: "(32 word \<times> 32 word \<times> 64 word) set"

definition lease_init :: lease_net where
  "lease_init = \<lparr>ln_clock = 0, ln_lm = NewLeaseManager, ln_calls = (\<lambda>_. Map.empty), ln_msgs = {#},
     ln_issued = (\<lambda>_. Map.empty), ln_log = {}\<rparr>"

definition newly_granted :: "int \<Rightarrow> 32 word \<Rightarrow> RPC \<Rightarrow> LeaseManager \<Rightarrow> (32 word \<times> 32 word \<times> 64 word) set" where
  "newly_granted now p rpc lm =
     (if rpc_Type rpc = MsgLeaseRequest then
        (case DecodeLeasePayload (rpc_Payload rpc) of
           Inl _ \<Rightarrow> {}
         | Inr payload \<Rightarrow> if lease_taken now (lp_Key payload) lm then {} else {(p, rpc_From rpc, lp_LeaseID payload)})
      else {})"

inductive lease_step :: "32 word set \<Rightarrow> (32 word \<Rightarrow> PeerMap) \<Rightarrow> lease_net \<Rightarrow> lease_net \<Rightarrow> bool" for N peers where
  tick: "ln_clock s \<le> t \<Longrightarrow> t < 2 ^ 63 \<Longrightarrow> lease_step N peers s (s\<lparr>ln_clock := t\<rparr>)"
| request: "a \<in> N \<Longrightarrow> dests \<subseteq> N - {a} \<Longrightarrow> 0 < duration \<Longrightarrow> ln_clock s + duration < 2 ^ 63 \<Longrightarrow>
    lm_nextLeaseID (ln_lm s a) \<noteq> - 1 \<Longrightarrow>
    Acquire_request (peers a) (ln_clock s) duration key (ln_lm s a) = Inr (lm', c, rpc) \<Longrightarrow>
    lease_step N peers s (s\<lparr>ln_lm := (ln_lm s)(a := lm'),
      ln_calls := (ln_calls s)(a := (ln_calls s a)(ac_LeaseID c \<mapsto> c)),
      ln_msgs := ln_msgs s + image_mset (\<lambda>p. (p, rpc)) (mset_set dests),
      ln_issued := (ln_issued s)(a := (ln_issued s a)(ac_LeaseID c \<mapsto> (ac_Key c, ac_Expiry c)))\<rparr>)"
| deliver: "(p, rpc) \<in># ln_msgs s \<Longrightarrow> HandleLeaseRPC (ln_clock s) rpc (ln_lm s p) = (lm', out) \<Longrightarrow>
    arrived \<subseteq># mset out \<Longrightarrow>
    lease_step N peers s (s\<lparr>ln_lm := (ln_lm s)(p := lm'),
      ln_msgs := ln_msgs s - {#(p, rpc)#} + arrived,
      ln_log := ln_log s \<union> newly_granted (ln_clock s) p rpc (ln_lm s p)\<rparr>)"
| lose: "m \<in># ln_msgs s \<Longrightarrow> lease_step N peers s (s\<lparr>ln_msgs := ln_msgs s - {#m#}\<rparr>)"
| receive: "ln_calls s a i = Some c \<Longrightarrow> lm_pending (ln_lm s a) i = Some ch \<Longrightarrow> gc_buf ch = g # buf \<Longrightarrow>
    lease_step N peers s (s\<lparr>ln_lm := (ln_lm s)(a := (ln_lm s a)\<lparr>lm_pending := (lm_pending (ln_lm s a))(i \<mapsto> ch\<lparr>gc_buf := buf\<rparr>)\<rparr>),
      ln_calls := (ln_calls s)(a := (ln_calls s a)(i \<mapsto> Acquire_receive g c))\<rparr>)"
| acquired: "ln_calls s a i = Some c \<Longrightarrow> \<not> ac_Grants c < ac_Quorum c \<Longrightarrow> Acquire_lease c (ln_lm s a) = (lease, lm') \<Longrightarrow>
    lease_step N peers s (s\<lparr>ln_lm := (ln_lm s)(a := lm'), ln_calls := (ln_calls s)(a := (ln_calls s a)(i := None))\<rparr>)"
| failed: "ln_calls s a i = Some c \<Longrightarrow>
    lease_step N peers s (s\<lparr>ln_lm := (ln_lm s)(a := Acquire_end i (ln_lm s a)),
      ln_calls := (ln_calls s)(a := (ln_calls s a)(i := None))\<rparr>)"
| cleanup: "lease_step N peers s (s\<lparr>ln_lm := (ln_lm s)(a := cleanupExpired (ln_clock s) (ln_clock s) (ln_lm s a))\<rparr>)"

subsection \<open>Quorums\<close>

locale lease_quorum =
  fixes quorum :: "32 word \<Rightarrow> 32 word set \<Rightarrow> bool"
  assumes share: "quorum a Q \<Longrightarrow> quorum b R \<Longrightarrow> Q \<inter> R \<noteq> {}"
begin

lemma common_peer:
  assumes "quorum a Q" "quorum b R" obtains p where "p \<in> Q" "p \<in> R"
  using share [OF assms] by blast

end

definition majority_of :: "32 word set \<Rightarrow> 32 word \<Rightarrow> 32 word set \<Rightarrow> bool" where
  "majority_of N a Q \<longleftrightarrow> Q \<subseteq> N - {a} \<and> majorityQuorum (card N - 1) \<le> card Q \<and> 1 < card N"

lemma majorities_share:
  assumes N: "odd (card N)" and Q: "majority_of N a Q" and R: "majority_of N b R"
  shows "Q \<inter> R \<noteq> {}"
proof
  assume dis: "Q \<inter> R = {}"
  have f: "finite N" using N by (metis card.infinite even_zero)
  have n: "1 < card N" "majorityQuorum (card N - 1) \<le> card Q" "majorityQuorum (card N - 1) \<le> card R"
    "Q \<union> R \<subseteq> N" using Q R by (auto simp: majority_of_def)
  then have "finite Q" "finite R" using f by (auto intro: finite_subset)
  then have "card Q + card R = card (Q \<union> R)" using dis by (simp add: card_Un_disjoint)
  also have "\<dots> \<le> card N" using f n(4) by (rule card_mono)
  finally have "card Q + card R \<le> card N" .
  moreover have "majorityQuorum (card N - 1) = (card N - 1) div 2 + 1" using n(1) by (simp add: majorityQuorum_def)
  moreover obtain k where "card N = 2 * k + 1" using N by (elim oddE)
  ultimately show False using n(2,3) by simp
qed

text \<open>
  With an even number of nodes the law fails: of four nodes, two can hold the same lease, each granted
  by a majority of its three peers.
\<close>

theorem even_majorities_disjoint:
  "majority_of {0, 1, 2, 3} 0 {1, 2} \<and> majority_of {0, 1, 2, 3} 1 {0, 3} \<and> {1, 2} \<inter> {0, 3 :: 32 word} = {}"
  by (simp add: majority_of_def majorityQuorum_def)

text \<open>The majorities of the clusters with an odd number of nodes, and none for the others.\<close>

definition odd_majority :: "32 word set \<Rightarrow> 32 word \<Rightarrow> 32 word set \<Rightarrow> bool" where
  "odd_majority N a Q \<longleftrightarrow> odd (card N) \<and> majority_of N a Q"

interpretation quorums: lease_quorum "odd_majority N" for N
  by unfold_locales (use majorities_share in \<open>auto simp: odd_majority_def\<close>)

subsection \<open>The invariant\<close>

definition is_req :: "32 word \<Rightarrow> 64 word \<Rightarrow> 32 word \<Rightarrow> 32 word \<times> RPC \<Rightarrow> bool" where
  "is_req a i p m \<longleftrightarrow> fst m = p \<and> rpc_Type (snd m) = MsgLeaseRequest \<and> rpc_From (snd m) = a \<and>
     (\<exists>lp. DecodeLeasePayload (rpc_Payload (snd m)) = Inr lp \<and> lp_LeaseID lp = i)"

definition is_grant :: "32 word \<Rightarrow> 64 word \<Rightarrow> 32 word \<times> RPC \<Rightarrow> bool" where
  "is_grant a i m \<longleftrightarrow> fst m = a \<and> rpc_Type (snd m) = MsgLeaseGrant \<and>
     (\<exists>lp. DecodeLeasePayload (rpc_Payload (snd m)) = Inr lp \<and> lp_LeaseID lp = i \<and> lp_Expiry lp \<noteq> 0)"

definition requests_in :: "lease_net \<Rightarrow> 32 word \<Rightarrow> 64 word \<Rightarrow> 32 word \<Rightarrow> nat" where
  "requests_in s a i p = size (filter_mset (is_req a i p) (ln_msgs s))"

definition grants_in :: "lease_net \<Rightarrow> 32 word \<Rightarrow> 64 word \<Rightarrow> nat" where
  "grants_in s a i = size (filter_mset (is_grant a i) (ln_msgs s))"

definition granted_by :: "lease_net \<Rightarrow> 32 word \<Rightarrow> 64 word \<Rightarrow> 32 word set" where
  "granted_by s a i = {p. (p, a, i) \<in> ln_log s}"

definition unread_grants :: "lease_net \<Rightarrow> 32 word \<Rightarrow> 64 word \<Rightarrow> nat" where
  "unread_grants s a i = (case lm_pending (ln_lm s a) i of None \<Rightarrow> 0 | Some ch \<Rightarrow> count_list (gc_buf ch) True)"

definition read_grants :: "lease_net \<Rightarrow> 32 word \<Rightarrow> 64 word \<Rightarrow> nat" where
  "read_grants s a i = (case ln_calls s a i of None \<Rightarrow> 0 | Some c \<Rightarrow> ac_Grants c)"

definition inv_ids :: "lease_net \<Rightarrow> bool" where
  "inv_ids s \<longleftrightarrow> (\<forall>a. lm_localID (ln_lm s a) = a) \<and> 0 \<le> ln_clock s \<and> ln_clock s < 2 ^ 63"

definition inv_issued :: "lease_net \<Rightarrow> bool" where
  "inv_issued s \<longleftrightarrow> (\<forall>a i. ln_issued s a i \<noteq> None \<longrightarrow> unat i \<le> unat (lm_nextLeaseID (ln_lm s a))) \<and>
     (\<forall>a i k e. ln_issued s a i = Some (k, e) \<longrightarrow> 0 < e \<and> e < 2 ^ 63) \<and>
     (\<forall>a i. lm_pending (ln_lm s a) i \<noteq> None \<longrightarrow> ln_issued s a i \<noteq> None)"

definition good_msg :: "32 word set \<Rightarrow> (32 word \<Rightarrow> 64 word \<rightharpoonup> string \<times> int) \<Rightarrow> 32 word \<times> RPC \<Rightarrow> bool" where
  "good_msg N issued m \<longleftrightarrow>
     (rpc_Type (snd m) = MsgLeaseRequest \<or> rpc_Type (snd m) = MsgLeaseGrant) \<and>
     (\<forall>lp. DecodeLeasePayload (rpc_Payload (snd m)) = Inr lp \<longrightarrow>
        (rpc_Type (snd m) = MsgLeaseRequest \<longrightarrow> fst m \<in> N \<and> rpc_From (snd m) \<in> N \<and> fst m \<noteq> rpc_From (snd m) \<and>
           (\<exists>e. issued (rpc_From (snd m)) (lp_LeaseID lp) = Some (lp_Key lp, e) \<and> lp_Expiry lp = UnixNano e)) \<and>
        (rpc_Type (snd m) = MsgLeaseGrant \<longrightarrow> issued (fst m) (lp_LeaseID lp) \<noteq> None))"

definition inv_msgs :: "32 word set \<Rightarrow> lease_net \<Rightarrow> bool" where
  "inv_msgs N s \<longleftrightarrow> (\<forall>m \<in># ln_msgs s. good_msg N (ln_issued s) m)"

definition inv_once :: "lease_net \<Rightarrow> bool" where
  "inv_once s \<longleftrightarrow> (\<forall>a i p. requests_in s a i p + of_bool ((p, a, i) \<in> ln_log s) \<le> (1 :: nat))"

definition inv_count :: "lease_net \<Rightarrow> bool" where
  "inv_count s \<longleftrightarrow> (\<forall>a i. grants_in s a i + unread_grants s a i + read_grants s a i
     \<le> card (granted_by s a i))"

definition inv_log :: "32 word set \<Rightarrow> lease_net \<Rightarrow> bool" where
  "inv_log N s \<longleftrightarrow> (\<forall>(p, a, i) \<in> ln_log s. p \<in> N \<and> a \<in> N \<and> p \<noteq> a \<and>
     (\<exists>k e. ln_issued s a i = Some (k, e) \<and> (ln_clock s < e \<longrightarrow> lm_granted (ln_lm s p) k = Some (UnixNano e))))"

definition inv_uniq :: "lease_net \<Rightarrow> bool" where
  "inv_uniq s \<longleftrightarrow> (\<forall>p a i b j k e e'. (p, a, i) \<in> ln_log s \<longrightarrow> (p, b, j) \<in> ln_log s \<longrightarrow>
     ln_issued s a i = Some (k, e) \<longrightarrow> ln_issued s b j = Some (k, e') \<longrightarrow> ln_clock s < e \<longrightarrow> ln_clock s < e' \<longrightarrow>
     a = b \<and> i = j)"

definition inv_calls :: "32 word set \<Rightarrow> lease_net \<Rightarrow> bool" where
  "inv_calls N s \<longleftrightarrow> (\<forall>a i c. ln_calls s a i = Some c \<longrightarrow> a \<in> N \<and> ac_LeaseID c = i \<and>
     ln_issued s a i = Some (ac_Key c, ac_Expiry c) \<and> ac_Quorum c = majorityQuorum (card N - 1))"

definition inv_held :: "32 word set \<Rightarrow> lease_net \<Rightarrow> bool" where
  "inv_held N s \<longleftrightarrow> (\<forall>a i l. lm_held (ln_lm s a) i = Some l \<longrightarrow> a \<in> N \<and>
     ln_issued s a i = Some (le_Key l, le_Expiry l) \<and> majorityQuorum (card N - 1) \<le> card (granted_by s a i))"

definition lease_inv :: "32 word set \<Rightarrow> lease_net \<Rightarrow> bool" where
  "lease_inv N s \<longleftrightarrow> inv_ids s \<and> inv_issued s \<and> inv_msgs N s \<and> inv_once s \<and> inv_count s \<and> inv_log N s \<and>
     inv_uniq s \<and> inv_calls N s \<and> inv_held N s"

lemmas lease_inv_defs = inv_ids_def inv_issued_def inv_msgs_def inv_once_def inv_count_def inv_log_def
  inv_uniq_def inv_calls_def inv_held_def

lemma lease_inv_init: "lease_inv N lease_init"
  by (auto simp: lease_inv_def lease_inv_defs lease_init_def NewLeaseManager_def unread_grants_def read_grants_def
      granted_by_def requests_in_def grants_in_def)

subsection \<open>Every step keeps the invariant\<close>

lemma lease_invD:
  assumes "lease_inv N s"
  shows "inv_ids s" "inv_issued s" "inv_msgs N s" "inv_once s" "inv_count s" "inv_log N s" "inv_uniq s"
    "inv_calls N s" "inv_held N s"
  using assms by (simp_all add: lease_inv_def)

lemma lease_invI:
  "inv_ids s \<Longrightarrow> inv_issued s \<Longrightarrow> inv_msgs N s \<Longrightarrow> inv_once s \<Longrightarrow> inv_count s \<Longrightarrow> inv_log N s \<Longrightarrow> inv_uniq s \<Longrightarrow>
   inv_calls N s \<Longrightarrow> inv_held N s \<Longrightarrow> lease_inv N s"
  by (simp add: lease_inv_def)

lemmas count_defs = requests_in_def grants_in_def unread_grants_def read_grants_def granted_by_def

lemma size_filter_remove:
  "x \<in># M \<Longrightarrow> size (filter_mset P M) = size (filter_mset P (M - {#x#})) + of_bool (P x)"
  by (drule multi_member_split) auto

lemma lease_inv_tick:
  assumes inv: "lease_inv N s" and t: "ln_clock s \<le> t" "t < 2 ^ 63"
  shows "lease_inv N (s\<lparr>ln_clock := t\<rparr>)"
proof (rule lease_invI)
  show "inv_ids (s\<lparr>ln_clock := t\<rparr>)" using lease_invD(1) [OF inv] t by (simp add: inv_ids_def)
  show "inv_issued (s\<lparr>ln_clock := t\<rparr>)" using lease_invD(2) [OF inv] by (simp add: inv_issued_def)
  show "inv_msgs N (s\<lparr>ln_clock := t\<rparr>)" using lease_invD(3) [OF inv] by (simp add: inv_msgs_def)
  show "inv_once (s\<lparr>ln_clock := t\<rparr>)" using lease_invD(4) [OF inv] by (simp add: inv_once_def count_defs)
  show "inv_count (s\<lparr>ln_clock := t\<rparr>)" using lease_invD(5) [OF inv] by (simp add: inv_count_def count_defs)
  show "inv_log N (s\<lparr>ln_clock := t\<rparr>)" using lease_invD(6) [OF inv] t(1) unfolding inv_log_def by fastforce
  show "inv_uniq (s\<lparr>ln_clock := t\<rparr>)" unfolding inv_uniq_def
  proof (intro allI impI, goal_cases)
    case (1 p a i b j k e e')
    then show ?case
      using lease_invD(7) [OF inv, unfolded inv_uniq_def, rule_format, of p a i b j k e e'] t(1) by simp
  qed
  show "inv_calls N (s\<lparr>ln_clock := t\<rparr>)" using lease_invD(8) [OF inv] by (simp add: inv_calls_def)
  show "inv_held N (s\<lparr>ln_clock := t\<rparr>)" using lease_invD(9) [OF inv] by (simp add: inv_held_def count_defs)
qed

text \<open>A step of one node that issues and grants nothing: what can be counted only shrinks.\<close>

lemma lease_inv_local:
  assumes inv: "lease_inv N s"
    and s': "s' = s\<lparr>ln_lm := (ln_lm s)(a := lm'), ln_calls := (ln_calls s)(a := calls'), ln_msgs := msgs'\<rparr>"
    and ids: "lm_localID lm' = lm_localID (ln_lm s a)" "lm_nextLeaseID lm' = lm_nextLeaseID (ln_lm s a)"
    and granted: "\<And>k e. ln_clock s < e \<Longrightarrow> e < 2 ^ 63 \<Longrightarrow> lm_granted (ln_lm s a) k = Some (UnixNano e) \<Longrightarrow>
      lm_granted lm' k = Some (UnixNano e)"
    and pending: "\<And>i. lm_pending lm' i \<noteq> None \<Longrightarrow> lm_pending (ln_lm s a) i \<noteq> None"
    and msgs: "\<And>m. m \<in># msgs' \<Longrightarrow> good_msg N (ln_issued s) m"
    and reqs: "\<And>b i p. requests_in s' b i p \<le> requests_in s b i p"
    and counts: "\<And>b i. grants_in s' b i + unread_grants s' b i + read_grants s' b i \<le>
      grants_in s b i + unread_grants s b i + read_grants s b i"
    and calls: "\<And>i c. calls' i = Some c \<Longrightarrow> \<exists>c0. ln_calls s a i = Some c0 \<and> ac_LeaseID c = ac_LeaseID c0 \<and>
      ac_Key c = ac_Key c0 \<and> ac_Expiry c = ac_Expiry c0 \<and> ac_Quorum c = ac_Quorum c0"
    and held: "\<And>i l. lm_held lm' i = Some l \<Longrightarrow> lm_held (ln_lm s a) i = Some l \<or>
      (\<exists>c. ln_calls s a i = Some c \<and> le_Key l = ac_Key c \<and> le_Expiry l = ac_Expiry c \<and> ac_Quorum c \<le> ac_Grants c)"
  shows "lease_inv N s'"
proof (rule lease_invI)
  have g: "granted_by s' = granted_by s" "ln_log s' = ln_log s" by (simp_all add: s' count_defs fun_eq_iff)
  show "inv_ids s'" using lease_invD(1) [OF inv] ids by (simp add: inv_ids_def s')
  show "inv_issued s'" using lease_invD(2) [OF inv] ids pending by (simp add: inv_issued_def s')
  show "inv_msgs N s'" using msgs by (simp add: inv_msgs_def s')
  show "inv_once s'" unfolding inv_once_def g
    using lease_invD(4) [OF inv, unfolded inv_once_def] reqs by (meson add_right_mono order_trans)
  show "inv_count s'" unfolding inv_count_def g
    using lease_invD(5) [OF inv, unfolded inv_count_def] counts by (meson order_trans)
  show "inv_log N s'" unfolding inv_log_def
  proof (clarify, goal_cases)
    case (1 p b i)
    then obtain k e where l: "p \<in> N" "b \<in> N" "p \<noteq> b" "ln_issued s b i = Some (k, e)"
      "ln_clock s < e \<Longrightarrow> lm_granted (ln_lm s p) k = Some (UnixNano e)"
      using lease_invD(6) [OF inv] unfolding inv_log_def s' by fastforce
    moreover have "e < 2 ^ 63" using lease_invD(2) [OF inv] l(4) unfolding inv_issued_def by blast
    ultimately show ?case using granted by (auto simp: s')
  qed
  show "inv_uniq s'" using lease_invD(7) [OF inv] unfolding inv_uniq_def by (simp add: s')
  show "inv_calls N s'" unfolding inv_calls_def
  proof (intro allI impI, goal_cases)
    case (1 b i c)
    then obtain c0 where "ln_calls s b i = Some c0" "ac_LeaseID c = ac_LeaseID c0" "ac_Key c = ac_Key c0"
      "ac_Expiry c = ac_Expiry c0" "ac_Quorum c = ac_Quorum c0"
      using calls by (cases "b = a") (auto simp: s')
    then show ?case using lease_invD(8) [OF inv, unfolded inv_calls_def, rule_format, of b i c0] by (simp add: s')
  qed
  show "inv_held N s'" unfolding inv_held_def g
  proof (intro allI impI, goal_cases)
    case (1 b i l)
    consider "lm_held (ln_lm s b) i = Some l"
      | c where "ln_calls s b i = Some c" "le_Key l = ac_Key c" "le_Expiry l = ac_Expiry c" "ac_Quorum c \<le> ac_Grants c"
      using 1 held by (cases "b = a") (auto simp: s')
    then show ?case
    proof cases
      case 1
      then show ?thesis using lease_invD(9) [OF inv, unfolded inv_held_def, rule_format, of b i l] by (simp add: s')
    next
      case 2
      have "ac_Grants c \<le> card (granted_by s b i)"
        using lease_invD(5) [OF inv, unfolded inv_count_def, rule_format, of b i] 2(1) by (simp add: read_grants_def)
      with 2 show ?thesis
        using lease_invD(8) [OF inv, unfolded inv_calls_def, rule_format, of b i c] by (simp add: s')
    qed
  qed
qed

lemma good_msgs: "lease_inv N s \<Longrightarrow> m \<in># ln_msgs s \<Longrightarrow> good_msg N (ln_issued s) m"
  using lease_invD(3) by (simp add: inv_msgs_def)

lemma lease_inv_quiet:
  assumes inv: "lease_inv N s"
    and s': "s' = s\<lparr>ln_lm := (ln_lm s)(a := lm'), ln_calls := (ln_calls s)(a := calls')\<rparr>"
    and ids: "lm_localID lm' = lm_localID (ln_lm s a)" "lm_nextLeaseID lm' = lm_nextLeaseID (ln_lm s a)"
    and granted: "\<And>k e. ln_clock s < e \<Longrightarrow> e < 2 ^ 63 \<Longrightarrow> lm_granted (ln_lm s a) k = Some (UnixNano e) \<Longrightarrow>
      lm_granted lm' k = Some (UnixNano e)"
    and pending: "\<And>i. lm_pending lm' i \<noteq> None \<Longrightarrow> lm_pending (ln_lm s a) i \<noteq> None"
    and counts: "\<And>i. unread_grants s' a i + read_grants s' a i \<le> unread_grants s a i + read_grants s a i"
    and calls: "\<And>i c. calls' i = Some c \<Longrightarrow> \<exists>c0. ln_calls s a i = Some c0 \<and> ac_LeaseID c = ac_LeaseID c0 \<and>
      ac_Key c = ac_Key c0 \<and> ac_Expiry c = ac_Expiry c0 \<and> ac_Quorum c = ac_Quorum c0"
    and held: "\<And>i l. lm_held lm' i = Some l \<Longrightarrow> lm_held (ln_lm s a) i = Some l \<or>
      (\<exists>c. ln_calls s a i = Some c \<and> le_Key l = ac_Key c \<and> le_Expiry l = ac_Expiry c \<and> ac_Quorum c \<le> ac_Grants c)"
  shows "lease_inv N s'"
proof (rule lease_inv_local [OF inv, where a = a and lm' = lm' and calls' = calls' and msgs' = "ln_msgs s"], goal_cases)
  case (8 b i)
  then show ?case using counts [of i] by (cases "b = a") (simp_all add: s' count_defs)
qed (use assms good_msgs [OF inv] in \<open>simp_all add: count_defs\<close>)

lemma lease_inv_lose:
  assumes inv: "lease_inv N s" and m: "m \<in># ln_msgs s"
  shows "lease_inv N (s\<lparr>ln_msgs := ln_msgs s - {#m#}\<rparr>)"
proof (rule lease_inv_local [OF inv, where a = a and calls' = "ln_calls s a" and lm' = "ln_lm s a"
      and msgs' = "ln_msgs s - {#m#}"], goal_cases)
  case (6 m')
  then show ?case using good_msgs [OF inv] by (meson in_diffD)
next
  case (7 b i p)
  show ?case using size_filter_remove [OF m, of "is_req b i p"] by (simp add: count_defs)
next
  case (8 b i)
  show ?case using size_filter_remove [OF m, of "is_grant b i"] by (simp add: count_defs)
qed auto

lemma sint_UnixNano: "0 \<le> t \<Longrightarrow> t < 2 ^ 63 \<Longrightarrow> sint (UnixNano t) = t"
  unfolding UnixNano_def by (rule sint_int64) simp_all

lemma UnixNano_less: "0 \<le> a \<Longrightarrow> a < 2 ^ 63 \<Longrightarrow> 0 \<le> b \<Longrightarrow> b < 2 ^ 63 \<Longrightarrow> UnixNano a <s UnixNano b \<longleftrightarrow> a < b"
  by (simp add: word_sless_alt sint_UnixNano)

lemma lease_inv_cleanup:
  assumes inv: "lease_inv N s"
  shows "lease_inv N (s\<lparr>ln_lm := (ln_lm s)(a := cleanupExpired (ln_clock s) (ln_clock s) (ln_lm s a))\<rparr>)"
proof (rule lease_inv_quiet [OF inv, where a = a and calls' = "ln_calls s a" and
      lm' = "cleanupExpired (ln_clock s) (ln_clock s) (ln_lm s a)"], goal_cases)
  case (4 k e)
  then show ?case using lease_invD(1) [OF inv] by (simp add: cleanupExpired_def UnixNano_less inv_ids_def)
qed (auto simp: cleanupExpired_def count_defs split: option.splits if_splits)

lemma lease_inv_receive:
  assumes inv: "lease_inv N s" and c: "ln_calls s a i = Some c" "lm_pending (ln_lm s a) i = Some ch" "gc_buf ch = g # buf"
  shows "lease_inv N (s\<lparr>ln_lm := (ln_lm s)(a := (ln_lm s a)\<lparr>lm_pending := (lm_pending (ln_lm s a))(i \<mapsto> ch\<lparr>gc_buf := buf\<rparr>)\<rparr>),
      ln_calls := (ln_calls s)(a := (ln_calls s a)(i \<mapsto> Acquire_receive g c))\<rparr>)"
  by (rule lease_inv_quiet [OF inv refl]) (use c in \<open>auto simp: count_defs Acquire_receive_def split: if_splits option.splits\<close>)

lemma lease_inv_failed:
  assumes inv: "lease_inv N s"
  shows "lease_inv N (s\<lparr>ln_lm := (ln_lm s)(a := Acquire_end i (ln_lm s a)),
      ln_calls := (ln_calls s)(a := (ln_calls s a)(i := None))\<rparr>)"
  by (rule lease_inv_quiet [OF inv refl]) (auto simp: count_defs Acquire_end_def split: if_splits option.splits)

lemma lease_inv_acquired:
  assumes inv: "lease_inv N s" and c: "ln_calls s a i = Some c" "\<not> ac_Grants c < ac_Quorum c"
    "Acquire_lease c (ln_lm s a) = (lease, lm')"
  shows "lease_inv N (s\<lparr>ln_lm := (ln_lm s)(a := lm'), ln_calls := (ln_calls s)(a := (ln_calls s a)(i := None))\<rparr>)"
proof -
  have i: "ac_LeaseID c = i" using lease_invD(8) [OF inv] c(1) by (simp add: inv_calls_def)
  show ?thesis
    by (rule lease_inv_quiet [OF inv refl])
      (use c i in \<open>auto simp: count_defs Acquire_lease_def Acquire_end_def Let_def split: if_splits option.splits\<close>)
qed

subsection \<open>Requests and answers\<close>

lemma Decode_Lease_Encode: "DecodeLeasePayload (Lease_Encode l) = Inr lp \<Longrightarrow> lp = l"
proof (cases "fits_lease l")
  case False
  then show "DecodeLeasePayload (Lease_Encode l) = Inr lp \<Longrightarrow> lp = l"
    by (simp add: fits_lease_def small_def DecodeLeasePayload_def)
qed (simp add: lease.dec_enc)

lemma msg_types [simp]: "MsgLeaseRequest \<noteq> MsgLeaseGrant" "MsgLeaseGrant \<noteq> MsgLeaseRequest"
  by (simp_all add: MsgLeaseRequest_def MsgLeaseGrant_def)

lemma size_filter_requests:
  assumes "finite dests"
  shows "size (filter_mset (is_req b j q) (image_mset (\<lambda>p. (p, rpc)) (mset_set dests))) \<le> (1 :: nat)"
proof -
  have "size (filter_mset (is_req b j q) (image_mset (\<lambda>p. (p, rpc)) (mset_set dests))) =
      card {p \<in> dests. is_req b j q (p, rpc)}"
    using assms by (simp add: image_mset_filter_mset_swap [symmetric] filter_mset_mset_set)
  also have "\<dots> \<le> card {q}" by (rule card_mono) (auto simp: is_req_def)
  finally show ?thesis by simp
qed

lemma lease_inv_request:
  assumes inv: "lease_inv N s" and N: "finite N" "a \<in> N" "dests \<subseteq> N - {a}"
    and d: "0 < duration" "ln_clock s + duration < 2 ^ 63" and nid: "lm_nextLeaseID (ln_lm s a) \<noteq> - 1"
    and view: "other_peers a (peers a) = card N - 1"
    and r: "Acquire_request (peers a) (ln_clock s) duration key (ln_lm s a) = Inr (lm', c, rpc)"
  shows "lease_inv N (s\<lparr>ln_lm := (ln_lm s)(a := lm'),
      ln_calls := (ln_calls s)(a := (ln_calls s a)(ac_LeaseID c \<mapsto> c)),
      ln_msgs := ln_msgs s + image_mset (\<lambda>p. (p, rpc)) (mset_set dests),
      ln_issued := (ln_issued s)(a := (ln_issued s a)(ac_LeaseID c \<mapsto> (ac_Key c, ac_Expiry c)))\<rparr>)"
    (is "lease_inv N ?s")
proof (rule lease_invI)
  define i where "i = lm_nextLeaseID (ln_lm s a) + 1"
  have id: "lm_localID (ln_lm s a) = a" using lease_invD(1) [OF inv] by (simp add: inv_ids_def)
  have lm': "lm' = (ln_lm s a)\<lparr>lm_nextLeaseID := i, lm_pending := (lm_pending (ln_lm s a))(i \<mapsto> \<lparr>gc_cap = card N - 1, gc_buf = []\<rparr>)\<rparr>"
    and c: "c = \<lparr>ac_LeaseID = i, ac_Key = key, ac_Expiry = ln_clock s + duration, ac_Quorum = majorityQuorum (card N - 1), ac_Grants = 0\<rparr>"
    and rpc: "rpc = \<lparr>rpc_From = a, rpc_Type = MsgLeaseRequest, rpc_Payload =
      Lease_Encode \<lparr>lp_LeaseID = i, lp_Key = key, lp_Expiry = UnixNano (ln_clock s + duration)\<rparr>\<rparr>"
    using r by (auto simp: Acquire_request_def Let_def id view i_def split: if_splits)
  have "1 + lm_nextLeaseID (ln_lm s a) \<noteq> 0" using nid by (metis add.commute eq_neg_iff_add_eq_0)
  then have "unat i = unat (lm_nextLeaseID (ln_lm s a)) + 1"
    using unatSuc [of "lm_nextLeaseID (ln_lm s a)"] by (simp add: i_def add.commute)
  moreover have "ln_issued s a i = None \<or> unat i \<le> unat (lm_nextLeaseID (ln_lm s a))"
    using lease_invD(2) [OF inv, unfolded inv_issued_def] by blast
  ultimately have fresh: "ln_issued s a i = None" by simp
  have nolog: "(p, a, i) \<notin> ln_log s" for p
    using lease_invD(6) [OF inv] fresh unfolding inv_log_def by fastforce
  have noreq: "requests_in s a i p = 0" for p
    using good_msgs [OF inv] fresh unfolding requests_in_def
    by (fastforce simp: filter_mset_eq_mempty_iff is_req_def good_msg_def)
  have fin: "finite dests" using N by (meson finite_Diff finite_subset)
  have dec: "lp_LeaseID lp = i \<and> lp_Key lp = key \<and> lp_Expiry lp = UnixNano (ln_clock s + duration)"
    if "DecodeLeasePayload (rpc_Payload rpc) = Inr lp" for lp
    using that by (auto simp: rpc dest: Decode_Lease_Encode)
  have rq: "is_req b j q (p, rpc) \<Longrightarrow> b = a \<and> j = i" for b j q p
    by (auto simp: is_req_def rpc dest: Decode_Lease_Encode)
  have req: "requests_in ?s b j q \<le> (if b = a \<and> j = i then 1 else requests_in s b j q)" for b j q
  proof (cases "b = a \<and> j = i")
    case True
    then show ?thesis using noreq [of q] size_filter_requests [OF fin, of b j q rpc]
      by (simp add: requests_in_def del: size_eq_0_iff_empty filter_mset_eq_mempty_iff)
  next
    case False
    then have "filter_mset (is_req b j q) (image_mset (\<lambda>p. (p, rpc)) (mset_set dests)) = {#}"
      using rq by (auto simp: filter_mset_eq_mempty_iff)
    then show ?thesis by (simp add: requests_in_def False)
  qed
  have "filter_mset (is_grant b j) (image_mset (\<lambda>p. (p, rpc)) (mset_set dests)) = {#}" for b j
    by (auto simp: filter_mset_eq_mempty_iff is_grant_def rpc)
  then have gr: "grants_in ?s = grants_in s" by (simp add: grants_in_def fun_eq_iff)
  have gb: "granted_by ?s = granted_by s" by (simp add: granted_by_def fun_eq_iff)
  have good: "good_msg N (ln_issued ?s) m" if "good_msg N (ln_issued s) m" for m
    using that fresh by (auto simp: good_msg_def c split: if_splits)
  show "inv_ids ?s" using lease_invD(1) [OF inv] by (simp add: inv_ids_def lm')
  show "inv_issued ?s" using lease_invD(2) [OF inv] d \<open>unat i = _\<close> lease_invD(1) [OF inv]
    by (auto simp: inv_issued_def lm' c inv_ids_def intro: le_SucI split: if_splits)
  show "inv_msgs N ?s"
    unfolding inv_msgs_def
  proof (rule ballI)
    fix m assume "m \<in># ln_msgs ?s"
    then consider "m \<in># ln_msgs s" | p where "p \<in> dests" "m = (p, rpc)" using fin by auto
    then show "good_msg N (ln_issued ?s) m"
    proof cases
      case 1
      then show ?thesis using good_msgs [OF inv] good by blast
    next
      case 2
      have t: "rpc_From rpc = a" "rpc_Type rpc = MsgLeaseRequest" by (simp_all add: rpc)
      have "ln_issued ?s a i = Some (key, ln_clock s + duration)" by (simp add: c)
      with dec have "\<exists>e. ln_issued ?s a (lp_LeaseID lp) = Some (lp_Key lp, e) \<and> lp_Expiry lp = UnixNano e"
        if "DecodeLeasePayload (rpc_Payload rpc) = Inr lp" for lp using that by blast
      moreover have "p \<in> N" "p \<noteq> a" using N 2 by auto
      ultimately show ?thesis using N(2) by (simp add: good_msg_def 2 t del: lease_net.simps)
    qed
  qed
  show "inv_once ?s" unfolding inv_once_def
  proof (intro allI)
    fix b j q show "requests_in ?s b j q + of_bool ((q, b, j) \<in> ln_log ?s) \<le> 1"
      using req [of b j q] nolog [of q] lease_invD(4) [OF inv, unfolded inv_once_def, rule_format, of b j q]
      by (cases "b = a \<and> j = i") (simp_all del: One_nat_def)
  qed
  have un: "unread_grants ?s b j \<le> unread_grants s b j" "read_grants ?s b j \<le> read_grants s b j" for b j
    by (auto simp: unread_grants_def read_grants_def lm' c)
  show "inv_count ?s" unfolding inv_count_def gr gb
  proof (intro allI)
    fix b j show "grants_in s b j + unread_grants ?s b j + read_grants ?s b j \<le> card (granted_by s b j)"
      using un [of b j] lease_invD(5) [OF inv, unfolded inv_count_def, rule_format, of b j] by linarith
  qed
  show "inv_log N ?s"
    using lease_invD(6) [OF inv] nolog unfolding inv_log_def by (fastforce simp: lm' c)
  show "inv_uniq ?s" unfolding inv_uniq_def
  proof (intro allI impI, goal_cases)
    case (1 p b j b' j' k e e')
    moreover have "(b, j) \<noteq> (a, i)" "(b', j') \<noteq> (a, i)" using 1 nolog [of p] by auto
    ultimately show ?case
      using lease_invD(7) [OF inv, unfolded inv_uniq_def, rule_format, of p b j b' j' k e e']
      by (auto simp: c split: if_splits)
  qed
  show "inv_calls N ?s" using lease_invD(8) [OF inv] N fresh by (auto simp: inv_calls_def c split: if_splits)
  show "inv_held N ?s" using lease_invD(9) [OF inv] fresh unfolding inv_held_def gb
    by (auto simp: lm' c split: if_splits)
qed

lemma subset_single: "arrived \<subseteq># {#x#} \<Longrightarrow> arrived = {#} \<or> arrived = {#x#}"
  by (metis subset_mset.le_iff_add union_is_single)

lemma in_swap: "m' \<in># M - {#m#} + arrived \<Longrightarrow> arrived \<subseteq># {#x#} \<Longrightarrow> m' \<in># M \<or> m' = x"
  using subset_single [of arrived x] by (auto dest: in_diffD)

lemma lease_inv_swap:
  assumes inv: "lease_inv N s" and m: "m \<in># ln_msgs s" and ar: "arrived \<subseteq># {#x#}" and x: "good_msg N (ln_issued s) x"
    "\<And>b i p. \<not> is_req b i p x" "\<And>b i. \<not> is_grant b i x"
  shows "lease_inv N (s\<lparr>ln_msgs := ln_msgs s - {#m#} + arrived\<rparr>)"
proof (rule lease_inv_local [OF inv, where a = a and calls' = "ln_calls s a" and lm' = "ln_lm s a"
      and msgs' = "ln_msgs s - {#m#} + arrived"], goal_cases)
  case (6 m')
  then show ?case using good_msgs [OF inv] x(1) in_swap [OF 6 ar] by blast
next
  case (7 b i p)
  show ?case using size_filter_remove [OF m, of "is_req b i p"] x(2) subset_single [OF ar] by (auto simp: count_defs)
next
  case (8 b i)
  show ?case using size_filter_remove [OF m, of "is_grant b i"] x(3) subset_single [OF ar] by (auto simp: count_defs)
qed auto

lemma lease_inv_answer:
  assumes inv: "lease_inv N s" and m: "(p, rpc) \<in># ln_msgs s" and t: "rpc_Type rpc = MsgLeaseGrant"
  shows "lease_inv N (s\<lparr>ln_lm := (ln_lm s)(p := handleLeaseGrant rpc (ln_lm s p)), ln_msgs := ln_msgs s - {#(p, rpc)#}\<rparr>)"
    (is "lease_inv N ?s")
proof (rule lease_inv_local [OF inv, where a = p and calls' = "ln_calls s p" and lm' = "handleLeaseGrant rpc (ln_lm s p)"
      and msgs' = "ln_msgs s - {#(p, rpc)#}"], goal_cases)
  case (6 m')
  then show ?case using good_msgs [OF inv] by (meson in_diffD)
next
  case (7 b i q)
  show ?case using size_filter_remove [OF m, of "is_req b i q"] by (simp add: count_defs)
next
  case (8 b i)
  have r: "read_grants ?s b i = read_grants s b i" by (simp add: count_defs)
  have g: "grants_in s b i = grants_in ?s b i + of_bool (is_grant b i (p, rpc))"
    using size_filter_remove [OF m, of "is_grant b i"] by (simp add: count_defs)
  have "unread_grants ?s b i \<le> unread_grants s b i + of_bool (is_grant b i (p, rpc))"
    by (auto simp: unread_grants_def handleLeaseGrant_def is_grant_def t split: sum.splits option.splits if_splits)
  with r g show ?case by linarith
qed (auto simp: handleLeaseGrant_def split: sum.splits option.splits if_splits)

lemma lease_inv_granted:
  assumes inv: "lease_inv N s" and N: "finite N" and m: "(p, rpc) \<in># ln_msgs s" and t: "rpc_Type rpc = MsgLeaseRequest"
    and lp: "DecodeLeasePayload (rpc_Payload rpc) = Inr lp"
    and free: "\<not> lease_taken (ln_clock s) (lp_Key lp) (ln_lm s p)"
    and x: "x = (rpc_From rpc, \<lparr>rpc_From = lm_localID (ln_lm s p), rpc_Type = MsgLeaseGrant, rpc_Payload =
      Lease_Encode \<lparr>lp_LeaseID = lp_LeaseID lp, lp_Key = lp_Key lp, lp_Expiry = lp_Expiry lp\<rparr>\<rparr>)"
    and ar: "arrived \<subseteq># {#x#}"
  shows "lease_inv N (s\<lparr>ln_lm := (ln_lm s)(p := (ln_lm s p)\<lparr>lm_granted := (lm_granted (ln_lm s p))(lp_Key lp \<mapsto> lp_Expiry lp)\<rparr>),
      ln_msgs := ln_msgs s - {#(p, rpc)#} + arrived, ln_log := insert (p, rpc_From rpc, lp_LeaseID lp) (ln_log s)\<rparr>)"
    (is "lease_inv N ?s")
proof (rule lease_invI)
  let ?a = "rpc_From rpc" and ?i = "lp_LeaseID lp" and ?k = "lp_Key lp"
  obtain e where g: "p \<in> N" "?a \<in> N" "p \<noteq> ?a" "ln_issued s ?a ?i = Some (?k, e)" "lp_Expiry lp = UnixNano e"
    using good_msgs [OF inv m] t lp by (auto simp: good_msg_def)
  have e: "0 < e" "e < 2 ^ 63" using lease_invD(2) [OF inv] g(4) unfolding inv_issued_def by blast+
  have clk: "0 \<le> ln_clock s" "ln_clock s < 2 ^ 63" using lease_invD(1) [OF inv] by (simp_all add: inv_ids_def)
  have isreq: "is_req ?a ?i p (p, rpc)" by (simp add: is_req_def t lp)
  have removed: "requests_in s b j q = size (filter_mset (is_req b j q) (ln_msgs s - {#(p, rpc)#})) + of_bool (is_req b j q (p, rpc))"
    for b j q unfolding requests_in_def by (rule size_filter_remove [OF m])
  have xs: "\<not> is_req b j q x" for b j q by (simp add: is_req_def x)
  have rq: "requests_in ?s b j q + of_bool (is_req b j q (p, rpc)) = requests_in s b j q" for b j q
    using removed [of b j q] xs [of b j q] subset_single [OF ar] by (auto simp: requests_in_def)
  have notlog: "(p, ?a, ?i) \<notin> ln_log s"
    using lease_invD(4) [OF inv, unfolded inv_once_def, rule_format, of ?a ?i p] rq [of ?a ?i p] isreq
    by (auto split: if_splits)
  have rival: "e' \<le> ln_clock s" if "(p, b, j) \<in> ln_log s" "ln_issued s b j = Some (?k, e')" for b j e'
  proof (rule ccontr)
    assume "\<not> e' \<le> ln_clock s"
    moreover have "e' < 2 ^ 63" using lease_invD(2) [OF inv] that(2) unfolding inv_issued_def by blast
    moreover have "ln_clock s < e' \<Longrightarrow> lm_granted (ln_lm s p) ?k = Some (UnixNano e')"
      using lease_invD(6) [OF inv] that unfolding inv_log_def by fastforce
    ultimately show False using free clk by (simp add: lease_taken_def UnixNano_less)
  qed
  have gb: "granted_by ?s b j = (if b = ?a \<and> j = ?i then insert p (granted_by s b j) else granted_by s b j)" for b j
    by (auto simp: granted_by_def)
  have fin: "finite (granted_by s b j)" for b j
  proof (rule finite_subset [OF _ N])
    show "granted_by s b j \<subseteq> N" using lease_invD(6) [OF inv] unfolding inv_log_def granted_by_def by fastforce
  qed
  have card: "card (granted_by ?s b j) = card (granted_by s b j) + of_bool (b = ?a \<and> j = ?i)" for b j
    using notlog fin [of b j] by (simp add: gb) (simp add: granted_by_def)
  show "inv_ids ?s" using lease_invD(1) [OF inv] by (simp add: inv_ids_def)
  show "inv_issued ?s" using lease_invD(2) [OF inv] by (simp add: inv_issued_def)
  have gx: "good_msg N (ln_issued s) x" using g(4) by (auto simp: good_msg_def x dest!: Decode_Lease_Encode)
  show "inv_msgs N ?s"
    using good_msgs [OF inv] gx in_swap [OF _ ar] unfolding inv_msgs_def by (simp del: union_iff) blast
  show "inv_once ?s" unfolding inv_once_def
  proof (intro allI)
    fix b j q
    have "is_req b j q (p, rpc) \<longleftrightarrow> (b = ?a \<and> j = ?i \<and> q = p)" using isreq lp by (auto simp: is_req_def)
    then show "requests_in ?s b j q + of_bool ((q, b, j) \<in> ln_log ?s) \<le> 1"
      using rq [of b j q] lease_invD(4) [OF inv, unfolded inv_once_def, rule_format, of b j q] by auto
  qed
  show "inv_count ?s" unfolding inv_count_def
  proof (intro allI)
    fix b j
    have gx: "is_grant b j x \<Longrightarrow> b = ?a \<and> j = ?i" by (auto simp: is_grant_def x dest: Decode_Lease_Encode)
    have "\<not> is_grant b j (p, rpc)" by (simp add: is_grant_def t)
    then have "grants_in s b j = size (filter_mset (is_grant b j) (ln_msgs s - {#(p, rpc)#}))"
      using size_filter_remove [OF m, of "is_grant b j"] unfolding grants_in_def by (simp only: of_bool_eq add_0_right)
    moreover have "size (filter_mset (is_grant b j) arrived) \<le> of_bool (b = ?a \<and> j = ?i)"
      using subset_single [OF ar] gx by (cases "is_grant b j x") auto
    moreover have "grants_in ?s b j = size (filter_mset (is_grant b j) (ln_msgs s - {#(p, rpc)#})) +
        size (filter_mset (is_grant b j) arrived)" unfolding grants_in_def by (simp del: filter_diff_mset)
    ultimately have "grants_in ?s b j \<le> grants_in s b j + of_bool (b = ?a \<and> j = ?i)" by linarith
    moreover have "unread_grants ?s b j = unread_grants s b j" "read_grants ?s b j = read_grants s b j"
      by (simp_all add: unread_grants_def read_grants_def)
    ultimately show "grants_in ?s b j + unread_grants ?s b j + read_grants ?s b j \<le> card (granted_by ?s b j)"
      using lease_invD(5) [OF inv, unfolded inv_count_def, rule_format, of b j] card [of b j] by linarith
  qed
  show "inv_log N ?s" unfolding inv_log_def
  proof (clarify, goal_cases)
    case (1 q b j)
    show ?case
    proof (cases "(q, b, j) = (p, ?a, ?i)")
      case True
      then show ?thesis using g by simp
    next
      case False
      then have l: "(q, b, j) \<in> ln_log s" using 1 by auto
      obtain k e' where f: "q \<in> N" "b \<in> N" "q \<noteq> b" "ln_issued s b j = Some (k, e')"
        "ln_clock s < e' \<Longrightarrow> lm_granted (ln_lm s q) k = Some (UnixNano e')"
        using l lease_invD(6) [OF inv] unfolding inv_log_def by fastforce
      then have "\<not> (q = p \<and> k = ?k \<and> ln_clock s < e')" using rival l by fastforce
      then show ?thesis using f by auto
    qed
  qed
  show "inv_uniq ?s" unfolding inv_uniq_def
  proof (intro allI impI, goal_cases)
    case (1 q b j b' j' k e1 e2)
    then show ?case
      using lease_invD(7) [OF inv, unfolded inv_uniq_def, rule_format, of q b j b' j' k e1 e2]
        rival [of b j e1] rival [of b' j' e2] g(4) by auto
  qed
  show "inv_calls N ?s" using lease_invD(8) [OF inv] by (simp add: inv_calls_def)
  show "inv_held N ?s"
    using lease_invD(9) [OF inv] unfolding inv_held_def card by (auto intro: le_SucI split: if_splits)
qed

lemma lease_inv_deliver:
  assumes inv: "lease_inv N s" and N: "finite N" and m: "(p, rpc) \<in># ln_msgs s"
    and h: "HandleLeaseRPC (ln_clock s) rpc (ln_lm s p) = (lm', out)" and ar: "arrived \<subseteq># mset out"
  shows "lease_inv N (s\<lparr>ln_lm := (ln_lm s)(p := lm'), ln_msgs := ln_msgs s - {#(p, rpc)#} + arrived,
      ln_log := ln_log s \<union> newly_granted (ln_clock s) p rpc (ln_lm s p)\<rparr>)"
proof (cases "rpc_Type rpc = MsgLeaseRequest")
  case False
  then have t: "rpc_Type rpc = MsgLeaseGrant" using good_msgs [OF inv m] by (simp add: good_msg_def)
  then have "lm' = handleLeaseGrant rpc (ln_lm s p)" "arrived = {#}" "newly_granted (ln_clock s) p rpc (ln_lm s p) = {}"
    using h ar False by (simp_all add: HandleLeaseRPC_def newly_granted_def)
  then show ?thesis using lease_inv_answer [OF inv m t] by simp
next
  case t: True
  then have hr: "handleLeaseRequest (ln_clock s) rpc (ln_lm s p) = (lm', out)" using h by (simp add: HandleLeaseRPC_def)
  show ?thesis
  proof (cases "DecodeLeasePayload (rpc_Payload rpc)")
    case (Inl e)
    then have "lm' = ln_lm s p" "arrived = {#}" "newly_granted (ln_clock s) p rpc (ln_lm s p) = {}"
      using hr ar by (simp_all add: handleLeaseRequest_def newly_granted_def)
    then show ?thesis using lease_inv_lose [OF inv m] by simp
  next
    case (Inr lp)
    have i: "ln_issued s (rpc_From rpc) (lp_LeaseID lp) \<noteq> None"
      using good_msgs [OF inv m] t Inr by (auto simp: good_msg_def)
    show ?thesis
    proof (cases "lease_taken (ln_clock s) (lp_Key lp) (ln_lm s p)")
      case True
      define x where "x = (rpc_From rpc, \<lparr>rpc_From = lm_localID (ln_lm s p), rpc_Type = MsgLeaseGrant, rpc_Payload =
        Lease_Encode \<lparr>lp_LeaseID = lp_LeaseID lp, lp_Key = lp_Key lp, lp_Expiry = 0\<rparr>\<rparr>)"
      have l: "lm' = ln_lm s p" "arrived \<subseteq># {#x#}" "newly_granted (ln_clock s) p rpc (ln_lm s p) = {}"
        using hr ar Inr True by (auto simp: handleLeaseRequest_def newly_granted_def x_def)
      have "good_msg N (ln_issued s) x" using i by (auto simp: good_msg_def x_def dest!: Decode_Lease_Encode)
      moreover have "\<not> is_req b j q x" "\<not> is_grant b j x" for b j q
        by (auto simp: is_req_def is_grant_def x_def dest: Decode_Lease_Encode)
      ultimately show ?thesis using lease_inv_swap [OF inv m l(2)] l(1,3) by simp
    next
      case False
      define x where "x = (rpc_From rpc, \<lparr>rpc_From = lm_localID (ln_lm s p), rpc_Type = MsgLeaseGrant, rpc_Payload =
        Lease_Encode \<lparr>lp_LeaseID = lp_LeaseID lp, lp_Key = lp_Key lp, lp_Expiry = lp_Expiry lp\<rparr>\<rparr>)"
      have "lm' = (ln_lm s p)\<lparr>lm_granted := (lm_granted (ln_lm s p))(lp_Key lp \<mapsto> lp_Expiry lp)\<rparr>" "arrived \<subseteq># {#x#}"
        "newly_granted (ln_clock s) p rpc (ln_lm s p) = {(p, rpc_From rpc, lp_LeaseID lp)}"
        using hr ar Inr False t by (auto simp: handleLeaseRequest_def newly_granted_def x_def)
      then show ?thesis using lease_inv_granted [OF inv N m t Inr False x_def, of arrived] by simp
    qed
  qed
qed

lemma lease_inv_step:
  assumes "lease_step N peers s s'" "lease_inv N s" "finite N" "\<And>a. a \<in> N \<Longrightarrow> other_peers a (peers a) = card N - 1"
  shows "lease_inv N s'"
  using assms
proof (cases rule: lease_step.cases)
  case (tick t)
  then show ?thesis using assms lease_inv_tick by blast
next
  case (request a dests duration key lm' c rpc)
  then show ?thesis using assms lease_inv_request by blast
next
  case (deliver p rpc lm' out arrived)
  then show ?thesis using assms lease_inv_deliver by blast
next
  case (lose m)
  then show ?thesis using assms lease_inv_lose by blast
next
  case (receive a i c ch g buf)
  then show ?thesis using assms lease_inv_receive by blast
next
  case (acquired a i c lease lm')
  then show ?thesis using assms lease_inv_acquired by blast
next
  case (failed a i c)
  then show ?thesis using assms lease_inv_failed by blast
next
  case (cleanup a)
  then show ?thesis using assms lease_inv_cleanup by blast
qed

lemma lease_inv_reachable:
  assumes "(lease_step N peers)\<^sup>*\<^sup>* lease_init s" "finite N" "\<And>a. a \<in> N \<Longrightarrow> other_peers a (peers a) = card N - 1"
  shows "lease_inv N s"
  using assms(1) by (induction rule: rtranclp_induct) (use lease_inv_init lease_inv_step assms(2,3) in blast)+

lemma held_quorum:
  assumes "lease_inv N s" "1 < card N" "lm_held (ln_lm s a) i = Some l"
  shows "majority_of N a (granted_by s a i)"
proof -
  have "granted_by s a i \<subseteq> N - {a}"
    using lease_invD(6) [OF assms(1)] unfolding inv_log_def granted_by_def by fastforce
  then show ?thesis
    using lease_invD(9) [OF assms(1), unfolded inv_held_def, rule_format, OF assms(3)] assms(2) by (simp add: majority_of_def)
qed

lemma lease_exclusive:
  assumes inv: "lease_inv N s" and N: "odd (card N)" "1 < card N"
    and a: "lm_held (ln_lm s a) i = Some l" "ln_clock s < le_Expiry l"
    and b: "lm_held (ln_lm s b) j = Some l'" "ln_clock s < le_Expiry l'"
    and k: "le_Key l = le_Key l'"
  shows "a = b \<and> i = j"
proof -
  have q: "odd_majority N a (granted_by s a i)" "odd_majority N b (granted_by s b j)"
    using held_quorum [OF inv N(2) a(1)] held_quorum [OF inv N(2) b(1)] N(1) by (simp_all add: odd_majority_def)
  obtain p where "(p, a, i) \<in> ln_log s" "(p, b, j) \<in> ln_log s"
    using quorums.common_peer [OF q] by (auto simp: granted_by_def)
  moreover have "ln_issued s a i = Some (le_Key l, le_Expiry l)" "ln_issued s b j = Some (le_Key l, le_Expiry l')"
    using lease_invD(9) [OF inv] a(1) b(1) k unfolding inv_held_def by auto
  ultimately show ?thesis using lease_invD(7) [OF inv] a(2) b(2) unfolding inv_uniq_def by blast
qed

subsection \<open>Acquisition is possible\<close>

text \<open>What is left of an acquisition that the peers of \<open>D\<close> have not answered, and nobody else will.\<close>

definition awaiting :: "32 word \<Rightarrow> RPC \<Rightarrow> LeasePayload \<Rightarrow> 32 word set \<Rightarrow> lease_call \<Rightarrow> lease_net \<Rightarrow> bool" where
  "awaiting a rpc lp D c s \<longleftrightarrow>
     ln_msgs s = image_mset (\<lambda>p. (p, rpc)) (mset_set D) \<and> ln_calls s a (lp_LeaseID lp) = Some c \<and>
     (\<exists>n > 0. lm_pending (ln_lm s a) (lp_LeaseID lp) = Some \<lparr>gc_cap = n, gc_buf = []\<rparr>) \<and>
     (\<forall>p \<in> D. lm_granted (ln_lm s p) (lp_Key lp) = None) \<and> lm_localID (ln_lm s a) = a"

lemma awaiting_grant:
  assumes w: "awaiting a rpc lp (insert p D) c s" and D: "finite D" "p \<notin> D" "a \<notin> insert p D"
    and rpc: "rpc_Type rpc = MsgLeaseRequest" "rpc_From rpc = a" "DecodeLeasePayload (rpc_Payload rpc) = Inr lp"
      "lp_Expiry lp \<noteq> 0" "fits_lease lp"
  shows "\<exists>s'. (lease_step N peers)\<^sup>*\<^sup>* s s' \<and> ln_clock s' = ln_clock s \<and> awaiting a rpc lp D (c\<lparr>ac_Grants := ac_Grants c + 1\<rparr>) s'"
proof -
  let ?i = "lp_LeaseID lp" and ?k = "lp_Key lp"
  obtain n where n: "0 < n" "lm_pending (ln_lm s a) ?i = Some \<lparr>gc_cap = n, gc_buf = []\<rparr>" using w by (auto simp: awaiting_def)
  define g where "g = \<lparr>rpc_From = lm_localID (ln_lm s p), rpc_Type = MsgLeaseGrant, rpc_Payload = Lease_Encode lp\<rparr>"
  define lmp where "lmp = (ln_lm s p)\<lparr>lm_granted := (lm_granted (ln_lm s p))(?k \<mapsto> lp_Expiry lp)\<rparr>"
  have d: "DecodeLeasePayload (Lease_Encode lp) = Inr lp" using rpc(5) by (rule lease.dec_enc)
  have h: "HandleLeaseRPC (ln_clock s) rpc (ln_lm s p) = (lmp, [(a, g)])"
    using w rpc by (cases lp) (simp add: HandleLeaseRPC_def handleLeaseRequest_def lease_taken_def awaiting_def lmp_def g_def)
  have m: "ln_msgs s = add_mset (p, rpc) (image_mset (\<lambda>p. (p, rpc)) (mset_set D))"
    using w D by (simp add: awaiting_def)
  define s1 where "s1 = s\<lparr>ln_lm := (ln_lm s)(p := lmp), ln_msgs := ln_msgs s - {#(p, rpc)#} + {#(a, g)#},
      ln_log := ln_log s \<union> newly_granted (ln_clock s) p rpc (ln_lm s p)\<rparr>"
  have 1: "lease_step N peers s s1" unfolding s1_def by (rule deliver [OF _ h]) (simp_all add: m)
  define lma where "lma = (ln_lm s a)\<lparr>lm_pending := (lm_pending (ln_lm s a))(?i \<mapsto> \<lparr>gc_cap = n, gc_buf = [True]\<rparr>)\<rparr>"
  have h2: "HandleLeaseRPC (ln_clock s1) g (ln_lm s1 a) = (lma, [])"
    using n rpc(4) D(3) d by (auto simp: HandleLeaseRPC_def handleLeaseGrant_def g_def s1_def lma_def)
  define s2 where "s2 = s1\<lparr>ln_lm := (ln_lm s1)(a := lma), ln_msgs := ln_msgs s1 - {#(a, g)#} + {#},
      ln_log := ln_log s1 \<union> newly_granted (ln_clock s1) a g (ln_lm s1 a)\<rparr>"
  have 2: "lease_step N peers s1 s2" unfolding s2_def by (rule deliver [OF _ h2]) (simp_all add: s1_def)
  define s3 where "s3 = s2\<lparr>ln_lm := (ln_lm s2)(a := (ln_lm s2 a)\<lparr>lm_pending := (lm_pending (ln_lm s2 a))(?i \<mapsto>
      \<lparr>gc_cap = n, gc_buf = [True]\<rparr>\<lparr>gc_buf := []\<rparr>)\<rparr>),
      ln_calls := (ln_calls s2)(a := (ln_calls s2 a)(?i \<mapsto> Acquire_receive True c))\<rparr>"
  have 3: "lease_step N peers s2 s3" unfolding s3_def
    using w by (intro receive [where g = True]) (simp_all add: s2_def s1_def lma_def awaiting_def)
  have "awaiting a rpc lp D (c\<lparr>ac_Grants := ac_Grants c + 1\<rparr>) s3"
    using w D n(1) by (auto simp: awaiting_def s3_def s2_def s1_def lma_def m Acquire_receive_def)
  moreover have "ln_clock s3 = ln_clock s" by (simp add: s1_def s2_def s3_def)
  ultimately show ?thesis using 1 2 3 by (meson rtranclp.rtrancl_into_rtrancl rtranclp.rtrancl_refl)
qed

lemma awaiting_grants:
  assumes "finite D" "awaiting a rpc lp D c s" "a \<notin> D"
    and "rpc_Type rpc = MsgLeaseRequest" "rpc_From rpc = a" "DecodeLeasePayload (rpc_Payload rpc) = Inr lp"
      "lp_Expiry lp \<noteq> 0" "fits_lease lp"
  shows "\<exists>s'. (lease_step N peers)\<^sup>*\<^sup>* s s' \<and> ln_clock s' = ln_clock s \<and>
    awaiting a rpc lp {} (c\<lparr>ac_Grants := ac_Grants c + card D\<rparr>) s'"
  using assms(1-3)
proof (induction D arbitrary: c s rule: finite_induct)
  case (insert p D)
  from awaiting_grant [OF insert.prems(1) insert.hyps insert.prems(2) assms(4-8)] obtain s1 where
    1: "(lease_step N peers)\<^sup>*\<^sup>* s s1" "ln_clock s1 = ln_clock s" "awaiting a rpc lp D (c\<lparr>ac_Grants := ac_Grants c + 1\<rparr>) s1" by blast
  from insert.IH [OF this(3)] insert.prems(2) obtain s2 where
    "(lease_step N peers)\<^sup>*\<^sup>* s1 s2" "ln_clock s2 = ln_clock s1"
    "awaiting a rpc lp {} (c\<lparr>ac_Grants := ac_Grants c + card (insert p D)\<rparr>) s2" using insert.hyps by auto
  then show ?case using 1 by (metis rtranclp_trans)
qed auto

lemma lease_acquired_run:
  assumes N: "finite N" "1 < card N" "a \<in> N" and v: "other_peers a (peers a) = card N - 1"
    and dur: "0 < duration" "duration < (2 ^ 63 :: int)" and key: "length key + 20 \<le> 2 ^ 20"
  shows "\<exists>s l. (lease_step N peers)\<^sup>*\<^sup>* lease_init s \<and> lm_held (ln_lm s a) 1 = Some l \<and> le_Key l = key \<and>
    le_HolderID l = a \<and> le_QuorumSize l = card N - 1 \<and> le_Expiry l = duration \<and> ln_clock s < le_Expiry l"
proof -
  define lp :: LeasePayload where "lp = \<lparr>lp_LeaseID = 1, lp_Key = key, lp_Expiry = UnixNano duration\<rparr>"
  define rpc where "rpc = \<lparr>rpc_From = a, rpc_Type = MsgLeaseRequest, rpc_Payload = Lease_Encode lp\<rparr>"
  define c where "c = \<lparr>ac_LeaseID = 1, ac_Key = key, ac_Expiry = duration, ac_Quorum = majorityQuorum (card N - 1), ac_Grants = 0\<rparr>"
  define lm where "lm = (NewLeaseManager a)\<lparr>lm_nextLeaseID := 1, lm_pending := [1 \<mapsto> \<lparr>gc_cap = card N - 1, gc_buf = []\<rparr>]\<rparr>"
  define s1 where "s1 = lease_init\<lparr>ln_lm := (ln_lm lease_init)(a := lm),
      ln_calls := (ln_calls lease_init)(a := (ln_calls lease_init a)(ac_LeaseID c \<mapsto> c)),
      ln_msgs := ln_msgs lease_init + image_mset (\<lambda>p. (p, rpc)) (mset_set (N - {a})),
      ln_issued := (ln_issued lease_init)(a := (ln_issued lease_init a)(ac_LeaseID c \<mapsto> (ac_Key c, ac_Expiry c)))\<rparr>"
  have r: "Acquire_request (peers a) (ln_clock lease_init) duration key (ln_lm lease_init a) = Inr (lm, c, rpc)"
    using v N by (simp add: Acquire_request_def lease_init_def NewLeaseManager_def Let_def lm_def c_def rpc_def lp_def)
  have 1: "lease_step N peers lease_init s1" unfolding s1_def
    by (rule request [where duration = duration and key = key]) (use N dur r in \<open>simp_all add: lease_init_def NewLeaseManager_def\<close>)
  have f: "fits_lease lp" using key by (simp add: fits_lease_def small_def Lease_Encode_def maxPayloadSize_def lp_def)
  have e: "UnixNano duration \<noteq> 0" using sint_UnixNano [of duration] dur by force
  have "awaiting a rpc lp (N - {a}) c s1"
    using N by (auto simp: awaiting_def s1_def lease_init_def NewLeaseManager_def lm_def lp_def c_def)
  from awaiting_grants [OF _ this] N(1) e f lease.dec_enc [OF f] obtain s2 where
    2: "(lease_step N peers)\<^sup>*\<^sup>* s1 s2" "ln_clock s2 = ln_clock s1"
      "awaiting a rpc lp {} (c\<lparr>ac_Grants := card N - 1\<rparr>) s2"
    using N by (auto simp: rpc_def lp_def c_def)
  let ?l = "\<lparr>le_LeaseID = 1, le_HolderID = a, le_Key = key, le_Expiry = duration, le_QuorumSize = card N - 1\<rparr>"
  have "lease_step N peers s2 (s2\<lparr>ln_lm := (ln_lm s2)(a := Acquire_end 1 ((ln_lm s2 a)\<lparr>lm_held := (lm_held (ln_lm s2 a))(1 \<mapsto> ?l)\<rparr>)),
      ln_calls := (ln_calls s2)(a := (ln_calls s2 a)(1 := None))\<rparr>)" (is "lease_step N peers s2 ?s3")
    using 2(3) N(2) by (intro acquired [where c = "c\<lparr>ac_Grants := card N - 1\<rparr>" and lease = ?l])
      (auto simp: awaiting_def lp_def c_def majorityQuorum_def Acquire_lease_def Let_def)
  then have "(lease_step N peers)\<^sup>*\<^sup>* lease_init ?s3" using 1 2(1) by (meson converse_rtranclp_into_rtranclp rtranclp.rtrancl_into_rtrancl)
  moreover have "ln_clock ?s3 = 0" using 2(2) by (simp add: s1_def lease_init_def)
  ultimately show ?thesis using dur(1) by (intro exI [of _ ?s3] exI [of _ ?l]) (simp add: Acquire_end_def)
qed

section \<open>What a lease is worth\<close>

text \<open>
  C5: leases exclude each other: in a cluster with an odd number of nodes that all count each other as
  peers, whatever is lost, delayed or reordered, two unexpired leases on one key are the same lease of
  the same node.
\<close>

theorem lease_mutual_exclusion:
  assumes "(lease_step N peers)\<^sup>*\<^sup>* lease_init s" "odd (card N)" "1 < card N"
    and "\<forall>a \<in> N. other_peers a (peers a) = card N - 1"
    and "lm_held (ln_lm s a) i = Some l" "lm_held (ln_lm s b) j = Some l'" "le_Key l = le_Key l'"
    and "ln_clock s < le_Expiry l" "ln_clock s < le_Expiry l'"
  shows "a = b \<and> i = j \<and> l = l'"
proof -
  have "finite N" using assms(2) by (metis card.infinite even_zero)
  then have "lease_inv N s" using lease_inv_reachable assms(1,4) by blast
  then have "a = b \<and> i = j" using lease_exclusive assms by blast
  then show ?thesis using assms(5,6) by auto
qed

text \<open>Three nodes that know each other.\<close>

definition three_peers :: "32 word \<Rightarrow> PeerMap" where
  "three_peers a = map (\<lambda>p. SetState PeerStateAlive (NewPeer 0 p [])) (filter (\<lambda>p. p \<noteq> a) [0, 1, 2])"

lemma three_peers_view: "a \<in> {0, 1, 2} \<Longrightarrow> other_peers a (three_peers a) = 2"
  by (auto simp: other_peers_def three_peers_def AliveByQuality_def SliceStable_def quality_less_def NewPeer_def SetState_def Let_def)

theorem lease_mutual_exclusion_witness:
  "\<exists>s l. (lease_step {0, 1, 2} three_peers)\<^sup>*\<^sup>* lease_init s \<and> lm_held (ln_lm s 0) 1 = Some l \<and>
     (\<forall>b j l'. lm_held (ln_lm s b) j = Some l' \<and> le_Key l' = le_Key l \<and> ln_clock s < le_Expiry l' \<longrightarrow> b = 0 \<and> l' = l)"
proof -
  have v: "\<forall>a \<in> {0, 1, 2}. other_peers a (three_peers a) = card {0, 1, 2 :: 32 word} - 1"
    using three_peers_view by simp
  from lease_acquired_run [of "{0, 1, 2}" 0 three_peers 5 "''gc''"] three_peers_view obtain s l where
    sl: "(lease_step {0, 1, 2} three_peers)\<^sup>*\<^sup>* lease_init s" "lm_held (ln_lm s 0) 1 = Some l" "ln_clock s < le_Expiry l"
    by auto
  show ?thesis
    using lease_mutual_exclusion [OF sl(1) _ _ v sl(2) _ _ sl(3)] sl(1,2) by (intro exI [of _ s] exI [of _ l]) fastforce
qed

text \<open>
  C31: a lease can be had: from the start, a node that counts all others as peers reaches a state in
  which it holds an unexpired lease on any key that fits a message.
\<close>

theorem lease_can_be_acquired:
  assumes "finite N" "1 < card N" "a \<in> N" "other_peers a (peers a) = card N - 1"
    and "0 < duration" "duration < 2 ^ 63" "length key + 20 \<le> 2 ^ 20"
  shows "\<exists>s l. (lease_step N peers)\<^sup>*\<^sup>* lease_init s \<and> lm_held (ln_lm s a) 1 = Some l \<and> le_Key l = key \<and>
    le_HolderID l = a \<and> le_Expiry l = duration \<and> ln_clock s < le_Expiry l"
  using lease_acquired_run [where peers = peers, OF assms] by blast

theorem lease_can_be_acquired_witness:
  "\<exists>s l. (lease_step {0, 1, 2} three_peers)\<^sup>*\<^sup>* lease_init s \<and> lm_held (ln_lm s 2) 1 = Some l \<and> le_Key l = ''k'' \<and>
    le_HolderID l = 2 \<and> le_Expiry l = 7 \<and> ln_clock s < le_Expiry l"
  using lease_can_be_acquired [of "{0, 1, 2}" 2 three_peers 7 "''k''"] three_peers_view [of 2] by simp

text \<open>
  A peer forgets whom it granted a key: a release is obeyed whoever sends it and whatever lease it
  names, so one that arrives late frees the key under its next holder, and the peer then grants it again
  before that lease expires.
\<close>

theorem stale_release_frees_lease:
  assumes "DecodeLeasePayload (rpc_Payload old) = Inr r" "rpc_Type old = MsgLeaseRelease"
    and "DecodeLeasePayload (rpc_Payload req) = Inr q" "rpc_Type req = MsgLeaseRequest" "lp_Key q = lp_Key r"
  shows "lm_granted (fst (HandleLeaseRPC now req (fst (HandleLeaseRPC now old lm)))) (lp_Key q) = Some (lp_Expiry q)"
  using assms
  by (simp add: HandleLeaseRPC_def handleLeaseRelease_def handleLeaseRequest_def lease_taken_def MsgLeaseRelease_def
      MsgLeaseRequest_def MsgLeaseGrant_def)

lemma Acquire_wait_granted:
  "Acquire_wait evs c = Inr c' \<Longrightarrow>
     ac_Quorum c' = ac_Quorum c \<and> ac_LeaseID c' = ac_LeaseID c \<and> ac_Key c' = ac_Key c \<and> ac_Expiry c' = ac_Expiry c \<and>
     ac_Quorum c \<le> ac_Grants c' \<and> ac_Grants c' \<le> ac_Grants c + count_list evs (Chan True)"
proof (induction evs c rule: Acquire_wait.induct)
  case (1 evs c)
  show ?case using 1(2)
    by (subst (asm) Acquire_wait.simps)
      (use 1(1) in \<open>fastforce simp: Acquire_receive_def split: if_splits list.splits select_event.splits\<close>)
qed



end
