(* ===== verification/Volume_Store.thy ===== *)
theory Volume_Store
  imports Blob_Store Checksum Wire_Strings
begin

text \<open>
  The volume backend (\<^verbatim>\<open>src/src/storage/volume_needle.go\<close>, \<^verbatim>\<open>volume_blobstore.go\<close>): blobs as checksummed
  needles appended to large volume files, with their locations in a database. The files are byte
  lists with a write position per open handle. The backend's states refine a map from hashes to
  contents.
\<close>

unbundle bit_operations_syntax

section \<open>Files\<close>

text \<open>A write at a position, past the end of the file too, and \<^verbatim>\<open>os.File.ReadAt\<close>.\<close>

definition write_at :: "nat \<Rightarrow> bytes \<Rightarrow> bytes \<Rightarrow> bytes" where
  "write_at p bs f = (if bs = [] then f else take p f @ replicate (p - length f) 0 @ bs @ drop (p + length bs) f)"

definition ReadAt :: "errno option \<Rightarrow> bytes \<Rightarrow> nat \<Rightarrow> nat \<Rightarrow> bytes res" where
  "ReadAt fault f n off =
     (if n = 0 then Inr []
      else case fault of
        Some e \<Rightarrow> Inl (PathErr e)
      | None \<Rightarrow> if off + n \<le> length f then Inr (take n (drop off f)) else Inl (Plain ''EOF''))"

text \<open>\<^verbatim>\<open>fallocate\<close> with \<^verbatim>\<open>PUNCH_HOLE\<close> and \<^verbatim>\<open>KEEP_SIZE\<close>: zeros, and the length stays.\<close>

definition punch_hole :: "nat \<Rightarrow> nat \<Rightarrow> bytes \<Rightarrow> bytes" where
  "punch_hole off n f = take off f @ replicate (min n (length f - off)) 0 @ drop (off + n) f"

section \<open>Needles\<close>

definition NeedleMagic :: "32 word" where "NeedleMagic = 0x4D4F4D4F"
definition NeedleHeaderSize :: nat where "NeedleHeaderSize = 42"
definition NeedleCRCBytes :: nat where "NeedleCRCBytes = 4"
definition NeedleOverhead :: nat where "NeedleOverhead = NeedleHeaderSize + NeedleCRCBytes"
definition NeedleFlagNone :: "16 word" where "NeedleFlagNone = 0"

record NeedleHeader =
  nh_Magic :: "32 word"
  nh_PayloadLen :: "32 word"
  nh_Hash :: bytes
  nh_Flags :: "16 word"

record Needle =
  ne_Header :: NeedleHeader
  ne_Payload :: bytes
  ne_CRC32 :: "32 word"

definition alignTo8 :: "nat \<Rightarrow> nat" where
  "alignTo8 n = (n + 8 - 1) div 8 * 8"

definition needleCRC :: "bytes \<Rightarrow> bytes \<Rightarrow> 32 word" where
  "needleCRC hash payload =
     ChecksumCastagnoli (PutUint32 NeedleMagic @ PutUint32 (word_of_nat (length payload)) @ hash @
       PutUint16 NeedleFlagNone @ payload)"

text \<open>
  \<^verbatim>\<open>writeNeedle\<close> writes the frame piece by piece at the handle's position. A fault \<open>(k, e)\<close> is a write
  that fails with \<open>e\<close> when \<open>k\<close> bytes of the frame are in the file.
\<close>

definition needle_frame :: "bytes \<Rightarrow> bytes \<Rightarrow> 16 word \<Rightarrow> bytes" where
  "needle_frame hash payload flags =
     PutUint32 NeedleMagic @ PutUint32 (word_of_nat (length payload)) @ hash @ PutUint16 flags @
     payload @ replicate (alignTo8 (length payload) - length payload) 0 @ PutUint32 (needleCRC hash payload)"

definition writeNeedle ::
  "(nat \<times> errno) option \<Rightarrow> bytes \<times> nat \<Rightarrow> bytes \<Rightarrow> bytes \<Rightarrow> 16 word \<Rightarrow> nat res \<times> bytes \<times> nat" where
  "writeNeedle fault fp hash payload flags =
     (let (f, pos) = fp; frame = needle_frame hash payload flags in
      case fault of
        None \<Rightarrow> (Inr (NeedleHeaderSize + alignTo8 (length payload) + NeedleCRCBytes), write_at pos frame f, pos + length frame)
      | Some (k, e) \<Rightarrow> (Inl (PathErr e), write_at pos (take k frame) f, pos + length (take k frame)))"

definition readNeedle :: "errno option \<Rightarrow> bytes \<Rightarrow> nat \<Rightarrow> Needle res" where
  "readNeedle fault f offset =
     res_bind (ReadAt fault f NeedleHeaderSize offset) (\<lambda>buf.
       let header = \<lparr>nh_Magic = Uint32 (sub_slice 0 4 buf), nh_PayloadLen = Uint32 (sub_slice 4 8 buf),
                     nh_Hash = sub_slice 8 40 buf, nh_Flags = Uint16 (sub_slice 40 42 buf)\<rparr>;
           payloadLen = unat (nh_PayloadLen header)
       in if nh_Magic header \<noteq> NeedleMagic then Inl (Plain ''invalid needle magic'')
          else res_bind (ReadAt fault f payloadLen (offset + NeedleHeaderSize)) (\<lambda>payload.
            res_bind (ReadAt fault f NeedleCRCBytes (offset + NeedleHeaderSize + alignTo8 payloadLen)) (\<lambda>crcBuf.
              let crcVal = Uint32 crcBuf in
              if crcVal \<noteq> needleCRC (nh_Hash header) payload then Inl (Plain ''CRC32 mismatch'')
              else Inr \<lparr>ne_Header = header, ne_Payload = payload, ne_CRC32 = crcVal\<rparr>)))"

section \<open>The store\<close>

text \<open>An open volume file: its handle's write position and what the store counts as its size.\<close>

record VolumeFile =
  vf_volumeID :: "32 word"
  vf_pos :: nat
  vf_size :: nat
  vf_sealed :: bool

record VolumeMetadata =
  vm_VolumeID :: "32 word"
  vm_Size :: int
  vm_Sealed :: bool
  vm_CreatedAt :: int
  vm_SealedAt :: int
  vm_NeedleCount :: nat
  vm_CommittedAt :: int

record NeedleMetadata =
  nm_Hash :: bytes
  nm_VolumeID :: "32 word"
  nm_Offset :: nat
  nm_Size :: nat

text \<open>What the host answers, and whether database transactions commit.\<close>

record volume_host =
  vh_now :: int
  vh_mkdir :: "errno option"
  vh_opendb :: "err option"
  vh_readdir :: "errno option"
  vh_open :: "errno option"
  vh_write :: "(nat \<times> errno) option"
  vh_sync :: "errno option"
  vh_read :: "errno option"
  vh_punch :: "errno option"
  vh_commit :: bool

text \<open>The files are known by their volume IDs, which determine their paths.\<close>

record VolumeBlobStore =
  vb_volumeSize :: nat
  vb_activeVolume :: "VolumeFile option"
  vb_sealedVolumes :: "32 word \<rightharpoonup> VolumeFile"
  vb_volumeIDCounter :: "32 word"
  vb_volumes :: "VolumeMetadata json bucket"
  vb_needles :: "NeedleMetadata json bucket"
  vb_disk :: "32 word \<rightharpoonup> bytes"
  vb_host :: volume_host

definition DefaultVolumeSizeBytes :: int where "DefaultVolumeSizeBytes = 2 ^ 30"
definition MaxVolumeSizeBytes :: int where "MaxVolumeSizeBytes = 32 * 2 ^ 30"

definition volume_key :: "32 word \<Rightarrow> string" where
  "volume_key i = bytes_str (PutUint32 i)"

definition saveVolumeMetadata :: "32 word \<Rightarrow> VolumeMetadata \<Rightarrow> VolumeBlobStore \<Rightarrow> err option \<times> VolumeBlobStore" where
  "saveVolumeMetadata i meta b =
     (case b_put (volume_key i) (Json meta) (vb_volumes b) of
        Inl e \<Rightarrow> (Some e, b)
      | Inr m \<Rightarrow> if vh_commit (vb_host b) then (None, b\<lparr>vb_volumes := m\<rparr>) else (Some (Plain ''commit failed''), b))"

definition getVolumeMetadata :: "32 word \<Rightarrow> VolumeBlobStore \<Rightarrow> VolumeMetadata res" where
  "getVolumeMetadata i b =
     (case b_get (vb_volumes b) (volume_key i) of
        None \<Rightarrow> Inl (Bare ENOENT)
      | Some j \<Rightarrow> (case Unmarshal j of None \<Rightarrow> Inl (Plain ''bad JSON'') | Some m \<Rightarrow> Inr m))"

definition saveNeedleMetadata ::
  "string \<Rightarrow> 32 word \<Rightarrow> nat \<Rightarrow> nat \<Rightarrow> VolumeBlobStore \<Rightarrow> err option \<times> VolumeBlobStore" where
  "saveNeedleMetadata hash i offset sz b =
     (case DecodeString hash of
        None \<Rightarrow> (Some (Plain ''invalid hash''), b)
      | Some decoded \<Rightarrow>
          let meta = \<lparr>nm_Hash = decoded, nm_VolumeID = i, nm_Offset = offset, nm_Size = alignTo8 sz\<rparr> in
          (case b_put hash (Json meta) (vb_needles b) of
             Inl e \<Rightarrow> (Some e, b)
           | Inr m \<Rightarrow> if vh_commit (vb_host b) then (None, b\<lparr>vb_needles := m\<rparr>) else (Some (Plain ''commit failed''), b)))"

definition getNeedleMetadata :: "string \<Rightarrow> VolumeBlobStore \<Rightarrow> NeedleMetadata res" where
  "getNeedleMetadata hash b =
     (case b_get (vb_needles b) hash of
        None \<Rightarrow> Inl (Bare ENOENT)
      | Some j \<Rightarrow> (case Unmarshal j of None \<Rightarrow> Inl (Plain ''bad JSON'') | Some m \<Rightarrow> Inr m))"

definition deleteNeedleMetadata :: "string \<Rightarrow> VolumeBlobStore \<Rightarrow> err option \<times> VolumeBlobStore" where
  "deleteNeedleMetadata hash b =
     (if vh_commit (vb_host b) then (None, b\<lparr>vb_needles := b_del hash (vb_needles b)\<rparr>)
      else (Some (Plain ''commit failed''), b))"

definition createNewVolume :: "VolumeBlobStore \<Rightarrow> err option \<times> VolumeBlobStore" where
  "createNewVolume b =
     (let newID = vb_volumeIDCounter b + 1; b1 = b\<lparr>vb_volumeIDCounter := newID\<rparr> in
      case vh_open (vb_host b) of
        Some e \<Rightarrow> (Some (Wrap e), b1)
      | None \<Rightarrow>
          let b2 = b1\<lparr>vb_activeVolume := Some \<lparr>vf_volumeID = newID, vf_pos = 0, vf_size = 0, vf_sealed = False\<rparr>,
                      vb_disk := (vb_disk b1)(newID \<mapsto> (case vb_disk b1 newID of Some f \<Rightarrow> f | None \<Rightarrow> []))\<rparr>;
              meta = \<lparr>vm_VolumeID = newID, vm_Size = 0, vm_Sealed = False, vm_CreatedAt = vh_now (vb_host b),
                      vm_SealedAt = 0, vm_NeedleCount = 0, vm_CommittedAt = 0\<rparr>
          in (None, snd (saveVolumeMetadata newID meta b2)))"

definition sealCurrentVolume :: "VolumeBlobStore \<Rightarrow> err option \<times> VolumeBlobStore" where
  "sealCurrentVolume b =
     (case vb_activeVolume b of
        None \<Rightarrow> (None, b)
      | Some vf \<Rightarrow>
          if vf_sealed vf then (None, b)
          else case vh_sync (vb_host b) of
            Some e \<Rightarrow> (Some (Wrap e), b)
          | None \<Rightarrow>
              let b1 = b\<lparr>vb_sealedVolumes := (vb_sealedVolumes b)(vf_volumeID vf \<mapsto> vf\<lparr>vf_sealed := True\<rparr>),
                         vb_activeVolume := None\<rparr>;
                  b2 = (case getVolumeMetadata (vf_volumeID vf) b1 of
                          Inl _ \<Rightarrow> b1
                        | Inr meta \<Rightarrow> snd (saveVolumeMetadata (vf_volumeID vf)
                            (meta\<lparr>vm_Sealed := True, vm_SealedAt := vh_now (vb_host b)\<rparr>) b1))
              in createNewVolume b2)"

definition decodeContentHash :: "string \<Rightarrow> bytes res" where
  "decodeContentHash hash =
     (if HasPathTraversalChars hash then Inl (Wrap EINVAL)
      else case DecodeString hash of
        None \<Rightarrow> Inl (Plain ''invalid hash'')
      | Some raw \<Rightarrow> if length raw \<noteq> 32 then Inl (Plain ''invalid hash length'') else Inr raw)"

definition readVerifiedPayload :: "bytes \<Rightarrow> stream \<Rightarrow> bytes res" where
  "readVerifiedPayload hashBytes content =
     (case snd content of
        Some e \<Rightarrow> Inl (wrap e)
      | None \<Rightarrow> let payload = concat (fst content) in
          if hashBytes \<noteq> Sum256 payload then Inl (Plain ''hash mismatch'') else Inr payload)"

definition reserveNeedleSlot :: "nat \<Rightarrow> VolumeBlobStore \<Rightarrow> (VolumeFile \<times> nat) res \<times> VolumeBlobStore" where
  "reserveNeedleSlot needleSize b =
     (case vb_activeVolume b of
        None \<Rightarrow> (Inl (Plain ''no active volume available''), b)
      | Some vf \<Rightarrow>
          if vf_size vf + needleSize \<le> vb_volumeSize b then (Inr (vf, vf_size vf), b)
          else case sealCurrentVolume b of
            (Some e, b') \<Rightarrow> (Inl e, b')
          | (None, b') \<Rightarrow>
              (case vb_activeVolume b' of
                 None \<Rightarrow> (Inl (Plain ''no active volume available after seal''), b')
               | Some vf' \<Rightarrow>
                   if vb_volumeSize b' < vf_size vf' + needleSize then (Inl (Wrap ENOSPC), b')
                   else (Inr (vf', vf_size vf'), b')))"

text \<open>\<^verbatim>\<open>appendNeedle\<close> on the active volume, whose file and position it changes.\<close>

definition appendNeedle :: "bytes \<Rightarrow> bytes \<Rightarrow> VolumeFile \<Rightarrow> VolumeBlobStore \<Rightarrow> err option \<times> VolumeFile \<times> VolumeBlobStore" where
  "appendNeedle hashBytes payload vf b =
     (let f = (case vb_disk b (vf_volumeID vf) of Some f \<Rightarrow> f | None \<Rightarrow> []);
          (r, f', pos') = writeNeedle (vh_write (vb_host b)) (f, vf_pos vf) hashBytes payload NeedleFlagNone;
          vf' = vf\<lparr>vf_pos := pos'\<rparr>;
          b' = b\<lparr>vb_disk := (vb_disk b)(vf_volumeID vf \<mapsto> f'), vb_activeVolume := Some vf'\<rparr>
      in case r of
        Inl e \<Rightarrow> (Some (wrap e), vf', b')
      | Inr _ \<Rightarrow> (map_option Wrap (vh_sync (vb_host b)), vf', b'))"

definition Volume_PutBlob :: "string \<Rightarrow> stream \<Rightarrow> VolumeBlobStore \<Rightarrow> err option \<times> VolumeBlobStore" where
  "Volume_PutBlob hash content b =
     (case decodeContentHash hash of
        Inl e \<Rightarrow> (Some e, b)
      | Inr hashBytes \<Rightarrow>
          (case readVerifiedPayload hashBytes content of
             Inl e \<Rightarrow> (Some e, b)
           | Inr payload \<Rightarrow>
               let needleSize = NeedleOverhead + alignTo8 (length payload) in
               (case reserveNeedleSlot needleSize b of
                  (Inl e, b1) \<Rightarrow> (Some e, b1)
                | (Inr (vf, offset), b1) \<Rightarrow>
                    (case appendNeedle hashBytes payload vf b1 of
                       (Some e, _, b2) \<Rightarrow> (Some e, b2)
                     | (None, vf', b2) \<Rightarrow>
                         let b3 = b2\<lparr>vb_activeVolume := Some (vf'\<lparr>vf_size := vf_size vf' + needleSize\<rparr>)\<rparr> in
                         (None, snd (saveNeedleMetadata hash (vf_volumeID vf') offset (length payload) b3))))))"

definition Volume_BlobExists :: "string \<Rightarrow> VolumeBlobStore \<Rightarrow> bool res" where
  "Volume_BlobExists hash b =
     (case decodeContentHash hash of
        Inl e \<Rightarrow> Inl e
      | Inr _ \<Rightarrow>
          (case getNeedleMetadata hash b of
             Inl e \<Rightarrow> if err_is e ENOENT then Inr False else Inl e
           | Inr _ \<Rightarrow> Inr True))"

text \<open>
  The volume a needle is in. Without an active volume the lookup panics, which the operations report
  as \<^verbatim>\<open>EIO\<close>.
\<close>

definition needle_volume :: "32 word \<Rightarrow> VolumeBlobStore \<Rightarrow> VolumeFile res" where
  "needle_volume i b =
     (case vb_activeVolume b of
        None \<Rightarrow> Inl (Wrap EIO)
      | Some vf \<Rightarrow>
          if i = vf_volumeID vf then Inr vf
          else case vb_sealedVolumes b i of None \<Rightarrow> Inl (Plain ''volume not found'') | Some vf \<Rightarrow> Inr vf)"

definition volume_bytes :: "VolumeFile \<Rightarrow> VolumeBlobStore \<Rightarrow> bytes" where
  "volume_bytes vf b = (case vb_disk b (vf_volumeID vf) of Some f \<Rightarrow> f | None \<Rightarrow> [])"

definition Volume_GetBlob :: "string \<Rightarrow> VolumeBlobStore \<Rightarrow> stream res" where
  "Volume_GetBlob hash b =
     (case decodeContentHash hash of
        Inl e \<Rightarrow> Inl e
      | Inr _ \<Rightarrow>
          (case getNeedleMetadata hash b of
             Inl e \<Rightarrow> Inl (if err_is e ENOENT then Bare ENOENT else e)
           | Inr meta \<Rightarrow>
               (case needle_volume (nm_VolumeID meta) b of
                  Inl e \<Rightarrow> Inl e
                | Inr vf \<Rightarrow>
                    (case readNeedle (vh_read (vb_host b)) (volume_bytes vf b) (nm_Offset meta) of
                       Inl e \<Rightarrow> Inl (wrap e)
                     | Inr needle \<Rightarrow>
                         if nm_Hash meta \<noteq> nh_Hash (ne_Header needle) then Inl (Plain ''hash mismatch in volume'')
                         else Inr ([ne_Payload needle], None)))))"

definition writeTombstone :: "VolumeFile \<Rightarrow> string \<Rightarrow> err option" where
  "writeTombstone vf hash = None"

definition Volume_DeleteBlob :: "string \<Rightarrow> VolumeBlobStore \<Rightarrow> err option \<times> VolumeBlobStore" where
  "Volume_DeleteBlob hash b =
     (case decodeContentHash hash of
        Inl e \<Rightarrow> (Some e, b)
      | Inr _ \<Rightarrow>
          (case getNeedleMetadata hash b of
             Inl e \<Rightarrow> (Some (if err_is e ENOENT then Bare ENOENT else e), b)
           | Inr meta \<Rightarrow>
               (case needle_volume (nm_VolumeID meta) b of
                  Inl e \<Rightarrow> (Some e, b)
                | Inr vf \<Rightarrow>
                    if vf_sealed vf then (Some (Wrap EPERM), b)
                    else if vh_punch (vb_host b) \<noteq> None then (writeTombstone vf hash, b)
                    else (None, snd (deleteNeedleMetadata hash (b\<lparr>vb_disk := (vb_disk b)(vf_volumeID vf \<mapsto>
                      punch_hole (nm_Offset meta) (NeedleOverhead + alignTo8 (nm_Size meta)) (volume_bytes vf b))\<rparr>))))))"

definition volume_ops :: "VolumeBlobStore BlobStore" where
  "volume_ops = \<lparr>PutBlob = Volume_PutBlob, GetBlob = Volume_GetBlob, DeleteBlob = Volume_DeleteBlob,
     BlobExists = Some Volume_BlobExists\<rparr>"

subsection \<open>Opening a store\<close>

definition volumeIDFromName :: "string \<Rightarrow> 32 word" where
  "volumeIDFromName name =
     (if \<not> (HasPrefix name ''vol-'' \<and> HasSuffix name ''.dat'') then 0
      else let ds = str_bytes (TrimSuffix (TrimPrefix name ''vol-'') ''.dat'') in
        if ds \<noteq> [] \<and> list_all is_digit ds \<and> dec_val ds 0 < 2 ^ 32 then word_of_nat (dec_val ds 0) else 0)"

definition openExistingVolume :: "32 word \<Rightarrow> VolumeBlobStore \<Rightarrow> VolumeFile res" where
  "openExistingVolume i b =
     (case vb_disk b i of
        None \<Rightarrow> Inl (PathErr ENOENT)
      | Some f \<Rightarrow>
          let sealed = (case getVolumeMetadata i b of Inr meta \<Rightarrow> vm_Sealed meta | Inl _ \<Rightarrow> vb_volumeSize b \<le> length f) in
          (case vh_open (vb_host b) of
             Some e \<Rightarrow> Inl (PathErr e)
           | None \<Rightarrow> Inr \<lparr>vf_volumeID = i, vf_pos = 0, vf_size = length f, vf_sealed = sealed\<rparr>))"

definition restore_volume :: "32 word \<Rightarrow> VolumeBlobStore \<Rightarrow> VolumeBlobStore" where
  "restore_volume i b =
     (case openExistingVolume i b of
        Inl _ \<Rightarrow> b
      | Inr vf \<Rightarrow>
          if vf_sealed vf then b\<lparr>vb_sealedVolumes := (vb_sealedVolumes b)(vf_volumeID vf \<mapsto> vf)\<rparr>
          else b\<lparr>vb_activeVolume := Some vf\<rparr>)"

text \<open>The loop counts in 32 bits.\<close>

partial_function (option) restore_loop :: "32 word \<Rightarrow> 32 word \<Rightarrow> VolumeBlobStore \<Rightarrow> VolumeBlobStore option" where
  "restore_loop i maxID b = (if i \<le> maxID then restore_loop (i + 1) maxID (restore_volume i b) else Some b)"

definition restoreVolumes :: "string list \<Rightarrow> VolumeBlobStore \<Rightarrow> (err option \<times> VolumeBlobStore) option" where
  "restoreVolumes entries b =
     (case vh_readdir (vb_host b) of
        Some e \<Rightarrow> Some (Some (Wrap e), b)
      | None \<Rightarrow>
          let maxID = foldl (\<lambda>mx name. let i = volumeIDFromName name in if mx < i then i else mx) 0 entries in
          map_option (\<lambda>b1. if vb_activeVolume b1 = None then createNewVolume b1 else (None, b1))
            (restore_loop 1 maxID (b\<lparr>vb_volumeIDCounter := maxID\<rparr>)))"

definition NewVolumeBlobStore ::
  "volume_host \<Rightarrow> int \<Rightarrow> string list \<Rightarrow> (32 word \<rightharpoonup> bytes) \<Rightarrow> VolumeMetadata json bucket \<Rightarrow> NeedleMetadata json bucket \<Rightarrow>
   VolumeBlobStore res option" where
  "NewVolumeBlobStore host volumeSize entries disk volumes needles =
     (let sz = (if volumeSize \<le> 0 then DefaultVolumeSizeBytes else volumeSize) in
      if MaxVolumeSizeBytes < sz then Some (Inl (Wrap EINVAL))
      else case vh_mkdir host of
        Some e \<Rightarrow> Some (Inl (Wrap e))
      | None \<Rightarrow>
          (case vh_opendb host of
             Some e \<Rightarrow> Some (Inl (wrap e))
           | None \<Rightarrow>
               map_option (\<lambda>(e, b). case e of Some e \<Rightarrow> Inl e | None \<Rightarrow> Inr b)
                 (restoreVolumes entries \<lparr>vb_volumeSize = nat sz, vb_activeVolume = None, vb_sealedVolumes = Map.empty,
                    vb_volumeIDCounter = 0, vb_volumes = volumes, vb_needles = needles, vb_disk = disk, vb_host = host\<rparr>)))"

section \<open>Frames are read back\<close>

lemma alignTo8_le: "n \<le> alignTo8 n" "alignTo8 n < n + 8"
  unfolding alignTo8_def by linarith+

lemma alignTo8_idem [simp]: "alignTo8 (alignTo8 n) = alignTo8 n"
  by (simp add: alignTo8_def)

lemma length_needle_frame [simp]:
  "length hash = 32 \<Longrightarrow> length (needle_frame hash payload flags) = NeedleOverhead + alignTo8 (length payload)"
  using alignTo8_le(1) [of "length payload"] by (simp add: needle_frame_def NeedleOverhead_def NeedleHeaderSize_def NeedleCRCBytes_def)

definition needle_at :: "bytes \<Rightarrow> nat \<Rightarrow> bytes \<Rightarrow> bytes \<Rightarrow> bool" where
  "needle_at f off hash payload \<longleftrightarrow> (\<exists>pre post. f = pre @ needle_frame hash payload NeedleFlagNone @ post \<and> length pre = off)"

lemma ReadAt_mid: "length pre = off \<Longrightarrow> length xs = n \<Longrightarrow> ReadAt None (pre @ xs @ post) n off = Inr xs"
  by (auto simp: ReadAt_def)

lemma readNeedle_frame:
  assumes h: "length hash = 32" and p: "length payload < 2 ^ 32"
  shows "readNeedle None (pre @ needle_frame hash payload flags @ post) (length pre) =
    Inr \<lparr>ne_Header = \<lparr>nh_Magic = NeedleMagic, nh_PayloadLen = word_of_nat (length payload), nh_Hash = hash, nh_Flags = flags\<rparr>,
         ne_Payload = payload, ne_CRC32 = needleCRC hash payload\<rparr>"
proof -
  let ?h = "PutUint32 NeedleMagic @ PutUint32 (word_of_nat (length payload)) @ hash @ PutUint16 flags"
  let ?z = "replicate (alignTo8 (length payload) - length payload) 0 :: bytes"
  let ?c = "PutUint32 (needleCRC hash payload)"
  let ?f = "pre @ needle_frame hash payload flags @ post"
  have h1: "ReadAt None ?f NeedleHeaderSize (length pre) = Inr ?h"
    using h ReadAt_mid [of pre "length pre" ?h NeedleHeaderSize "payload @ ?z @ ?c @ post"]
    by (simp add: needle_frame_def NeedleHeaderSize_def)
  have h2: "ReadAt None ?f (length payload) (length pre + NeedleHeaderSize) = Inr payload"
    using h ReadAt_mid [of "pre @ ?h" "length pre + NeedleHeaderSize" payload "length payload" "?z @ ?c @ post"]
    by (simp add: needle_frame_def NeedleHeaderSize_def)
  have h3: "ReadAt None ?f NeedleCRCBytes (length pre + NeedleHeaderSize + alignTo8 (length payload)) = Inr ?c"
    using h alignTo8_le(1) [of "length payload"]
      ReadAt_mid [of "pre @ ?h @ payload @ ?z" "length pre + NeedleHeaderSize + alignTo8 (length payload)" ?c NeedleCRCBytes post]
    by (simp add: needle_frame_def NeedleHeaderSize_def NeedleCRCBytes_def)
  have s: "sub_slice 0 4 ?h = PutUint32 NeedleMagic" "sub_slice 4 8 ?h = PutUint32 (word_of_nat (length payload))"
    "sub_slice 8 40 ?h = hash" "sub_slice 40 42 ?h = PutUint16 flags"
    using h by (simp_all add: sub_slice_def)
  have u: "unat (word_of_nat (length payload) :: 32 word) = length payload" using p by (rule unat_word_of_length(2))
  show ?thesis
    unfolding readNeedle_def h1 res_bind_simps Let_def s by (simp add: h2 h3 u del: length_PutUint)
qed

section \<open>The store as a map\<close>

definition quiet_volume :: "volume_host \<Rightarrow> bool" where
  "quiet_volume host \<longleftrightarrow> vh_open host = None \<and> vh_write host = None \<and> vh_sync host = None \<and> vh_read host = None \<and>
     vh_punch host = None \<and> vh_commit host"

definition needle_ok :: "VolumeBlobStore \<Rightarrow> string \<Rightarrow> NeedleMetadata \<Rightarrow> bytes \<Rightarrow> bool" where
  "needle_ok b h m payload \<longleftrightarrow>
     DecodeString h = Some (nm_Hash m) \<and> nm_Hash m = Sum256 payload \<and> nm_Size m = alignTo8 (length payload) \<and>
     length payload < 2 ^ 32 \<and> (nm_VolumeID m = vb_volumeIDCounter b \<or> vb_sealedVolumes b (nm_VolumeID m) \<noteq> None) \<and>
     (\<exists>f. vb_disk b (nm_VolumeID m) = Some f \<and> needle_at f (nm_Offset m) (nm_Hash m) payload)"

definition apart :: "NeedleMetadata \<Rightarrow> NeedleMetadata \<Rightarrow> bool" where
  "apart m m' \<longleftrightarrow> nm_VolumeID m \<noteq> nm_VolumeID m' \<or> nm_Offset m + NeedleOverhead + nm_Size m \<le> nm_Offset m' \<or>
     nm_Offset m' + NeedleOverhead + nm_Size m' \<le> nm_Offset m"

text \<open>
  The active volume is the newest, its handle stands at the end of its file, and every recorded needle
  is where its record says, clear of all others.
\<close>

definition vol_files :: "VolumeBlobStore \<Rightarrow> bool" where
  "vol_files b \<longleftrightarrow>
     (\<exists>vf f. vb_activeVolume b = Some vf \<and> \<not> vf_sealed vf \<and> vf_volumeID vf = vb_volumeIDCounter b \<and>
        vb_disk b (vb_volumeIDCounter b) = Some f \<and> length f = vf_size vf \<and> vf_pos vf = vf_size vf) \<and>
     (\<forall>i vs. vb_sealedVolumes b i = Some vs \<longrightarrow> vf_volumeID vs = i \<and> vf_sealed vs \<and> i < vb_volumeIDCounter b) \<and>
     (\<forall>i. vb_volumeIDCounter b < i \<longrightarrow> vb_disk b i = None)"

definition vol_needles :: "VolumeBlobStore \<Rightarrow> bool" where
  "vol_needles b \<longleftrightarrow>
     (\<forall>h v. b_get (vb_needles b) h = Some v \<longrightarrow> (\<exists>m payload. v = Json m \<and> needle_ok b h m payload)) \<and>
     (\<forall>h k m m'. h \<noteq> k \<longrightarrow> b_get (vb_needles b) h = Some (Json m) \<longrightarrow> b_get (vb_needles b) k = Some (Json m') \<longrightarrow> apart m m')"

definition vol_inv :: "VolumeBlobStore \<Rightarrow> bool" where
  "vol_inv b \<longleftrightarrow> quiet_volume (vb_host b) \<and> b_inv (vb_needles b) \<and> vb_volumeSize b \<le> 2 ^ 32 \<and> vol_files b \<and> vol_needles b"

definition vol_content :: "VolumeBlobStore \<Rightarrow> string \<Rightarrow> bytes option" where
  "vol_content b h = (case Volume_GetBlob h b of Inr (cs, None) \<Rightarrow> Some (concat cs) | _ \<Rightarrow> None)"

lemma fromHexChar_chars: "fromHexChar c = Some n \<Longrightarrow> c \<noteq> CHR ''/'' \<and> c \<noteq> CHR 0x5C \<and> c \<noteq> CHR ''.''"
  by (auto simp: fromHexChar_def Let_def split: if_splits)

lemma DecodeString_no_traversal: "DecodeString h = Some r \<Longrightarrow> \<not> HasPathTraversalChars h"
proof (induction h arbitrary: r rule: DecodeString.induct)
  case (3 c d s)
  then show ?case
    by (auto simp: HasPathTraversalChars_def dest: fromHexChar_chars split: option.splits)
qed (auto simp: HasPathTraversalChars_def)

lemma decodeContentHash_ok: "decodeContentHash h = Inr raw \<longleftrightarrow> DecodeString h = Some raw \<and> length raw = 32"
  by (auto simp: decodeContentHash_def dest: DecodeString_no_traversal split: option.splits if_splits)

lemma needle_at_append: "needle_at f off hash p \<Longrightarrow> needle_at (f @ g) off hash p"
  unfolding needle_at_def by fastforce

lemma needle_volume_known:
  assumes "vol_files b" "i = vb_volumeIDCounter b \<or> vb_sealedVolumes b i \<noteq> None"
  obtains vf where "needle_volume i b = Inr vf" "vf_volumeID vf = i" "vf_sealed vf \<longleftrightarrow> i \<noteq> vb_volumeIDCounter b"
proof (cases "i = vb_volumeIDCounter b")
  case True
  then show ?thesis using assms(1) that unfolding vol_files_def needle_volume_def by auto
next
  case False
  then obtain vs where "vb_sealedVolumes b i = Some vs" using assms(2) by blast
  then show ?thesis using False assms(1) that unfolding vol_files_def needle_volume_def by auto
qed

lemma Volume_GetBlob_ok:
  assumes inv: "vol_inv b" and g: "b_get (vb_needles b) h = Some (Json m)" and n: "needle_ok b h m payload"
  shows "Volume_GetBlob h b = Inr ([payload], None)"
proof -
  obtain vf where vf: "needle_volume (nm_VolumeID m) b = Inr vf" "vf_volumeID vf = nm_VolumeID m"
    using needle_volume_known inv n unfolding vol_inv_def needle_ok_def by metis
  obtain pre post where f: "vb_disk b (nm_VolumeID m) = Some (pre @ needle_frame (nm_Hash m) payload NeedleFlagNone @ post)"
    "length pre = nm_Offset m" using n unfolding needle_ok_def needle_at_def by blast
  have d: "decodeContentHash h = Inr (nm_Hash m)" "length (nm_Hash m) = 32" "length payload < 2 ^ 32"
    using n by (simp_all add: needle_ok_def decodeContentHash_ok)
  have "vh_read (vb_host b) = None" using inv by (simp add: vol_inv_def quiet_volume_def)
  with readNeedle_frame [OF d(2,3), of pre NeedleFlagNone post] f show ?thesis
    by (simp add: Volume_GetBlob_def d(1) getNeedleMetadata_def g vf volume_bytes_def)
qed

lemma Volume_GetBlob_none: "b_get (vb_needles b) h = None \<Longrightarrow> vol_content b h = None"
  by (auto simp: vol_content_def Volume_GetBlob_def getNeedleMetadata_def split: sum.splits)

lemma vol_content_ok:
  "vol_inv b \<Longrightarrow> b_get (vb_needles b) h = Some (Json m) \<Longrightarrow> needle_ok b h m payload \<Longrightarrow> vol_content b h = Some payload"
  by (simp add: vol_content_def Volume_GetBlob_ok)

text \<open>Two states that record the same needle intact hold the same blob.\<close>

lemma vol_content_same:
  assumes "vol_inv b" "vol_inv b'" "b_get (vb_needles b') h = b_get (vb_needles b) h"
    and "\<And>m payload. b_get (vb_needles b) h = Some (Json m) \<Longrightarrow> needle_ok b h m payload \<Longrightarrow> needle_ok b' h m payload"
  shows "vol_content b' h = vol_content b h"
proof (cases "b_get (vb_needles b) h")
  case None
  then show ?thesis using assms(3) by (simp add: Volume_GetBlob_none)
next
  case (Some v)
  then obtain m payload where "v = Json m" "needle_ok b h m payload"
    using assms(1) unfolding vol_inv_def vol_needles_def by blast
  then show ?thesis using vol_content_ok Some assms by metis
qed

subsection \<open>Rolling to a new volume\<close>

lemma save_volume_fields [simp]:
  "vb_volumeSize (snd (saveVolumeMetadata i m b)) = vb_volumeSize b"
  "vb_activeVolume (snd (saveVolumeMetadata i m b)) = vb_activeVolume b"
  "vb_sealedVolumes (snd (saveVolumeMetadata i m b)) = vb_sealedVolumes b"
  "vb_volumeIDCounter (snd (saveVolumeMetadata i m b)) = vb_volumeIDCounter b"
  "vb_needles (snd (saveVolumeMetadata i m b)) = vb_needles b"
  "vb_disk (snd (saveVolumeMetadata i m b)) = vb_disk b"
  "vb_host (snd (saveVolumeMetadata i m b)) = vb_host b"
  by (simp_all add: saveVolumeMetadata_def split: sum.splits)

lemma word_Suc_less: "c \<noteq> - 1 \<Longrightarrow> c < c + (1 :: 'a :: len word)"
  by (metis add.inverse_inverse add_eq_0_iff2 lessI unatSuc add.commute word_less_nat_alt)

lemma needle_ok_seal:
  assumes "needle_ok b h m payload" "vol_files b"
    and "vb_volumeIDCounter b' = vb_volumeIDCounter b + 1" "vb_volumeIDCounter b \<noteq> - 1"
    and "vb_sealedVolumes b' = (vb_sealedVolumes b)(vb_volumeIDCounter b \<mapsto> vs)"
    and "vb_disk b' = (vb_disk b)(vb_volumeIDCounter b + 1 \<mapsto> [])"
  shows "needle_ok b' h m payload"
proof -
  have "vb_disk b (vb_volumeIDCounter b + 1) = None"
    using assms(2) word_Suc_less [OF assms(4)] unfolding vol_files_def by blast
  then have "nm_VolumeID m \<noteq> vb_volumeIDCounter b + 1" using assms(1) by (auto simp: needle_ok_def)
  then show ?thesis using assms(1,3,5,6) by (auto simp: needle_ok_def)
qed

lemma sealCurrentVolume_inv:
  assumes inv: "vol_inv b" and c: "vb_volumeIDCounter b \<noteq> - 1"
  obtains b' vf where "sealCurrentVolume b = (None, b')" "vol_inv b'" "vb_activeVolume b' = Some vf" "vf_size vf = 0"
    "vb_volumeSize b' = vb_volumeSize b" "vb_needles b' = vb_needles b" "vb_volumeIDCounter b' = vb_volumeIDCounter b + 1"
    "\<And>h. vol_content b' h = vol_content b h"
proof -
  let ?c = "vb_volumeIDCounter b"
  obtain vf where vf: "vb_activeVolume b = Some vf" "\<not> vf_sealed vf" "vf_volumeID vf = ?c"
    using inv by (auto simp: vol_inv_def vol_files_def)
  obtain b' where b': "sealCurrentVolume b = (None, b')" "vb_volumeSize b' = vb_volumeSize b" "vb_needles b' = vb_needles b"
    "vb_volumeIDCounter b' = ?c + 1" "vb_host b' = vb_host b"
    "vb_activeVolume b' = Some \<lparr>vf_volumeID = ?c + 1, vf_pos = 0, vf_size = 0, vf_sealed = False\<rparr>"
    "vb_sealedVolumes b' = (vb_sealedVolumes b)(?c \<mapsto> vf\<lparr>vf_sealed := True\<rparr>)" "vb_disk b' = (vb_disk b)(?c + 1 \<mapsto> [])"
  proof -
    define b1 where "b1 = b\<lparr>vb_sealedVolumes := (vb_sealedVolumes b)(?c \<mapsto> vf\<lparr>vf_sealed := True\<rparr>), vb_activeVolume := None\<rparr>"
    define b2 where "b2 = (case getVolumeMetadata ?c b1 of Inl _ \<Rightarrow> b1
      | Inr meta \<Rightarrow> snd (saveVolumeMetadata ?c (meta\<lparr>vm_Sealed := True, vm_SealedAt := vh_now (vb_host b)\<rparr>) b1))"
    have f: "vb_volumeSize b2 = vb_volumeSize b" "vb_needles b2 = vb_needles b" "vb_volumeIDCounter b2 = ?c"
      "vb_host b2 = vb_host b" "vb_sealedVolumes b2 = (vb_sealedVolumes b)(?c \<mapsto> vf\<lparr>vf_sealed := True\<rparr>)"
      "vb_disk b2 = vb_disk b"
      by (simp_all add: b2_def b1_def split: sum.splits)
    have q: "quiet_volume (vb_host b)" using inv by (simp add: vol_inv_def)
    then have "sealCurrentVolume b = createNewVolume b2"
      using vf by (simp add: sealCurrentVolume_def Let_def b1_def b2_def quiet_volume_def cong: sum.case_cong)
    moreover have "vb_disk b (?c + 1) = None"
      using inv word_Suc_less [OF c] unfolding vol_inv_def vol_files_def by blast
    ultimately show thesis
      using f q by (intro that [of "snd (createNewVolume b2)"]) (simp_all add: createNewVolume_def quiet_volume_def Let_def)
  qed
  have files: "vol_files b" and ok: "vol_needles b" using inv by (simp_all add: vol_inv_def)
  have keep: "needle_ok b' h m p" if "needle_ok b h m p" for h m p
    using needle_ok_seal [OF that files b'(4) c b'(7,8)] .
  have "vol_files b'"
    unfolding vol_files_def
  proof (intro conjI allI impI)
    fix i vs assume s: "vb_sealedVolumes b' i = Some vs"
    show "vf_volumeID vs = i" "vf_sealed vs" "i < vb_volumeIDCounter b'"
      using s files b'(4,7) vf word_Suc_less [OF c] unfolding vol_files_def by (force split: if_splits)+
  next
    fix i assume "vb_volumeIDCounter b' < i"
    then show "vb_disk b' i = None"
      using files b'(4,8) word_Suc_less [OF c] unfolding vol_files_def by (metis fun_upd_other less_trans order_less_irrefl)
  qed (use b' in simp)
  moreover have "vol_needles b'"
    using ok keep unfolding vol_needles_def b'(3) by blast
  ultimately have inv': "vol_inv b'" using inv b' by (simp add: vol_inv_def)
  show thesis
    by (rule that [OF b'(1) inv' b'(6) _ b'(2,3,4)]) (use vol_content_same [OF inv inv'] keep b'(3) in auto)
qed

subsection \<open>Putting\<close>

lemma DecodeString_length: "DecodeString h = Some r \<Longrightarrow> length h = 2 * length r"
  by (induction h arbitrary: r rule: DecodeString.induct) (auto split: option.splits)

lemma needle_at_end: "needle_at (f @ needle_frame hash payload NeedleFlagNone) (length f) hash payload"
  unfolding needle_at_def by fastforce

lemma needle_at_length:
  "needle_at f off hash payload \<Longrightarrow> length hash = 32 \<Longrightarrow> off + NeedleOverhead + alignTo8 (length payload) \<le> length f"
  unfolding needle_at_def by auto

lemma append_inv:
  assumes inv: "vol_inv b" and vf: "vb_activeVolume b = Some vf" and h: "DecodeString h = Some (Sum256 payload)"
    and fit: "vf_size vf + NeedleOverhead + alignTo8 (length payload) \<le> vb_volumeSize b"
    and f: "vb_disk b (vb_volumeIDCounter b) = Some f"
    and b': "b' = b\<lparr>vb_disk := (vb_disk b)(vb_volumeIDCounter b \<mapsto> f @ needle_frame (Sum256 payload) payload NeedleFlagNone),
      vb_activeVolume := Some (vf\<lparr>vf_pos := vf_size vf + (NeedleOverhead + alignTo8 (length payload)),
        vf_size := vf_size vf + (NeedleOverhead + alignTo8 (length payload))\<rparr>),
      vb_needles := b_upd h (Json \<lparr>nm_Hash = Sum256 payload, nm_VolumeID = vb_volumeIDCounter b, nm_Offset = vf_size vf,
        nm_Size = alignTo8 (length payload)\<rparr>) (vb_needles b)\<rparr>"
  shows "vol_inv b'" "vol_content b' = (vol_content b)(h \<mapsto> payload)"
proof -
  let ?c = "vb_volumeIDCounter b"
  let ?m = "\<lparr>nm_Hash = Sum256 payload, nm_VolumeID = ?c, nm_Offset = vf_size vf, nm_Size = alignTo8 (length payload)\<rparr>"
  have p: "quiet_volume (vb_host b)" "b_inv (vb_needles b)" "vb_volumeSize b \<le> 2 ^ 32" and files: "vol_files b"
    and ok: "vol_needles b" using inv by (simp_all add: vol_inv_def)
  have l: "length f = vf_size vf" "vf_volumeID vf = ?c" "\<not> vf_sealed vf" using files vf f unfolding vol_files_def by auto
  have get: "b_get (vb_needles b') = (b_get (vb_needles b))(h \<mapsto> Json ?m)" using p(2) by (simp add: b' bolt.get_upd)
  have "length payload < 2 ^ 32"
    using fit p(3) alignTo8_le(1) [of "length payload"] by (simp add: NeedleOverhead_def NeedleHeaderSize_def)
  then have new: "needle_ok b' h ?m payload"
    using h needle_at_end [of f "Sum256 payload" payload] by (simp add: needle_ok_def b' l(1))
  have keep: "needle_ok b' k m q" if "needle_ok b k m q" for k m q
    using that f needle_at_append by (fastforce simp: needle_ok_def b')
  have clear: "apart m ?m" "apart ?m m" if "needle_ok b k m q" for k m q
  proof -
    have "nm_Offset m + NeedleOverhead + nm_Size m \<le> vf_size vf" if "nm_VolumeID m = ?c"
      using \<open>needle_ok b k m q\<close> that f l(1) needle_at_length [of f "nm_Offset m" "nm_Hash m" q] by (auto simp: needle_ok_def)
    then show "apart m ?m" "apart ?m m" by (auto simp: apart_def)
  qed
  have "vol_files b'"
    using files vf l f unfolding vol_files_def b' by auto
  moreover have "vol_needles b'"
    unfolding vol_needles_def get
  proof (intro conjI allI impI)
    fix k v assume "((b_get (vb_needles b))(h \<mapsto> Json ?m)) k = Some v"
    then show "\<exists>m q. v = Json m \<and> needle_ok b' k m q"
      using new keep ok unfolding vol_needles_def by (metis fun_upd_other fun_upd_same option.inject)
  next
    fix k1 k2 m1 m2
    assume k: "k1 \<noteq> k2" "((b_get (vb_needles b))(h \<mapsto> Json ?m)) k1 = Some (Json m1)"
      "((b_get (vb_needles b))(h \<mapsto> Json ?m)) k2 = Some (Json m2)"
    have old: "\<exists>q. needle_ok b k m q" if "b_get (vb_needles b) k = Some (Json m)" for k m
      using ok that unfolding vol_needles_def by blast
    consider "k1 = h" "k2 \<noteq> h" | "k2 = h" "k1 \<noteq> h" | "k1 \<noteq> h" "k2 \<noteq> h" using k(1) by blast
    then show "apart m1 m2"
    proof cases
      case 1
      then have "m1 = ?m" "b_get (vb_needles b) k2 = Some (Json m2)" using k(2,3) by simp_all
      then show ?thesis using old clear(2) by blast
    next
      case 2
      then have "m2 = ?m" "b_get (vb_needles b) k1 = Some (Json m1)" using k(2,3) by simp_all
      then show ?thesis using old clear(1) by blast
    next
      case 3
      then show ?thesis using k ok unfolding vol_needles_def by simp
    qed
  qed
  ultimately show inv': "vol_inv b'" using p by (simp add: vol_inv_def b' bolt.invar_upd)
  show "vol_content b' = (vol_content b)(h \<mapsto> payload)"
  proof
    fix k show "vol_content b' k = ((vol_content b)(h \<mapsto> payload)) k"
      using vol_content_ok [OF inv' _ new] vol_content_same [OF inv inv', of k] keep get by (cases "k = h") auto
  qed
qed

lemma Volume_PutBlob_append:
  assumes inv: "vol_inv b" and vf: "vb_activeVolume b = Some vf" and h: "DecodeString h = Some (Sum256 (concat cs))"
    and fit: "vf_size vf + (NeedleOverhead + alignTo8 (length (concat cs))) \<le> vb_volumeSize b"
    and r: "reserveNeedleSlot (NeedleOverhead + alignTo8 (length (concat cs))) b0 = (Inr (vf, vf_size vf), b)"
  obtains b' where "Volume_PutBlob h (cs, None) b0 = (None, b')" "vol_inv b'"
    "vol_content b' = (vol_content b)(h \<mapsto> concat cs)"
    "\<exists>m. b_get (vb_needles b') h = Some (Json m) \<and> nm_VolumeID m = vb_volumeIDCounter b'"
proof -
  let ?p = "concat cs"
  obtain f where f: "vb_disk b (vb_volumeIDCounter b) = Some f" "vf_volumeID vf = vb_volumeIDCounter b"
    "length f = vf_size vf" "vf_pos vf = vf_size vf" and q: "quiet_volume (vb_host b)"
    using inv vf by (auto simp: vol_inv_def vol_files_def)
  have w: "write_at (vf_size vf) (needle_frame (Sum256 ?p) ?p NeedleFlagNone) f = f @ needle_frame (Sum256 ?p) ?p NeedleFlagNone"
    using f(3) by (auto simp: write_at_def)
  have k: "h \<noteq> []" "length h \<le> MaxKeySize" using DecodeString_length [OF h] by (auto simp: MaxKeySize_def)
  define b' where "b' = b\<lparr>vb_disk := (vb_disk b)(vb_volumeIDCounter b \<mapsto> f @ needle_frame (Sum256 ?p) ?p NeedleFlagNone),
      vb_activeVolume := Some (vf\<lparr>vf_pos := vf_size vf + (NeedleOverhead + alignTo8 (length ?p)),
        vf_size := vf_size vf + (NeedleOverhead + alignTo8 (length ?p))\<rparr>),
      vb_needles := b_upd h (Json \<lparr>nm_Hash = Sum256 ?p, nm_VolumeID = vb_volumeIDCounter b, nm_Offset = vf_size vf,
        nm_Size = alignTo8 (length ?p)\<rparr>) (vb_needles b)\<rparr>"
  have "Volume_PutBlob h (cs, None) b0 = (None, b')"
    using h q f w k decodeContentHash_ok [of h "Sum256 ?p"]
    by (simp add: Volume_PutBlob_def readVerifiedPayload_def Let_def r appendNeedle_def writeNeedle_def quiet_volume_def
        saveNeedleMetadata_def b_put_def b'_def)
  moreover have "b_inv (vb_needles b)" using inv by (simp add: vol_inv_def)
  then have "\<exists>m. b_get (vb_needles b') h = Some (Json m) \<and> nm_VolumeID m = vb_volumeIDCounter b'"
    by (simp add: b'_def bolt.get_upd)
  ultimately show thesis using that append_inv [OF inv vf h _ f(1) b'_def] fit by (simp add: add.assoc)
qed

lemma reserve_cases:
  assumes inv: "vol_inv b" and c: "vb_volumeIDCounter b \<noteq> - 1"
  obtains (fits) vf b1 where "reserveNeedleSlot sz b = (Inr (vf, vf_size vf), b1)" "vol_inv b1" "vb_activeVolume b1 = Some vf"
      "vf_size vf + sz \<le> vb_volumeSize b1" "vb_volumeSize b1 = vb_volumeSize b" "vol_content b1 = vol_content b"
  | (full) b1 where "reserveNeedleSlot sz b = (Inl (Wrap ENOSPC), b1)" "vol_inv b1" "vol_content b1 = vol_content b"
      "vb_volumeSize b < sz"
proof -
  obtain vf where vf: "vb_activeVolume b = Some vf" using inv by (auto simp: vol_inv_def vol_files_def)
  show thesis
  proof (cases "vf_size vf + sz \<le> vb_volumeSize b")
    case True
    then show thesis using fits [of vf b] vf inv by (simp add: reserveNeedleSlot_def)
  next
    case False
    obtain b' vf' where s: "sealCurrentVolume b = (None, b')" "vol_inv b'" "vb_activeVolume b' = Some vf'" "vf_size vf' = 0"
      "vb_volumeSize b' = vb_volumeSize b" "\<And>h. vol_content b' h = vol_content b h"
      using sealCurrentVolume_inv [OF inv c] by metis
    from s(6) have "vol_content b' = vol_content b" by (rule ext)
    then show thesis
      using fits [of vf' b'] full [of b'] vf s(1-5) False by (cases "vb_volumeSize b < sz") (simp_all add: reserveNeedleSlot_def)
  qed
qed

lemma Volume_put_spec:
  assumes inv: "vol_inv b" and c: "vb_volumeIDCounter b \<noteq> - 1" and put: "Volume_PutBlob h (cs, fin) b = (e, b')"
  shows "vol_inv b' \<and>
    (e = None \<longleftrightarrow> fin = None \<and> DecodeString h = Some (Sum256 (concat cs)) \<and>
       NeedleOverhead + alignTo8 (length (concat cs)) \<le> vb_volumeSize b) \<and>
    vol_content b' = (if e = None then (vol_content b)(h \<mapsto> concat cs) else vol_content b)"
proof (cases "fin = None \<and> DecodeString h = Some (Sum256 (concat cs))")
  case False
  then have "e \<noteq> None \<and> b' = b"
    using put by (auto simp: Volume_PutBlob_def decodeContentHash_ok readVerifiedPayload_def split: sum.splits option.splits if_splits)
  then show ?thesis using False inv by auto
next
  case True
  let ?sz = "NeedleOverhead + alignTo8 (length (concat cs))"
  from inv c show ?thesis
  proof (cases rule: reserve_cases [where sz = ?sz])
    case (fits vf b1)
    obtain b2 where "Volume_PutBlob h (cs, None) b = (None, b2)" "vol_inv b2" "vol_content b2 = (vol_content b1)(h \<mapsto> concat cs)"
      using Volume_PutBlob_append [OF fits(2,3) _ fits(4,1)] True by blast
    then show ?thesis using fits put True by auto
  next
    case (full b1)
    then have "e = Some (Wrap ENOSPC)" "b' = b1"
      using put True decodeContentHash_ok [of h "Sum256 (concat cs)"]
      by (simp_all add: Volume_PutBlob_def readVerifiedPayload_def Let_def)
    then show ?thesis using full by simp
  qed
qed


subsection \<open>Deleting\<close>

lemma needle_at_punch:
  assumes at: "needle_at f off' hash payload" and h: "length hash = 32" and fit: "off + n \<le> length f"
    and dis: "off' + NeedleOverhead + alignTo8 (length payload) \<le> off \<or> off + n \<le> off'"
  shows "needle_at (punch_hole off n f) off' hash payload"
proof -
  let ?fr = "needle_frame hash payload NeedleFlagNone"
  obtain pre post where f: "f = pre @ ?fr @ post" "length pre = off'" using at by (auto simp: needle_at_def)
  have z: "punch_hole off n f = take off f @ replicate n 0 @ drop (off + n) f" using fit by (simp add: punch_hole_def min_def)
  from dis show ?thesis
  proof
    assume "off' + NeedleOverhead + alignTo8 (length payload) \<le> off"
    then have "take off f = pre @ ?fr @ take (off - length pre - length ?fr) post" using f h by simp
    then show ?thesis unfolding z needle_at_def using f(2) by fastforce
  next
    assume o: "off + n \<le> off'"
    then have "take off f = take off pre" "drop (off + n) f = drop (off + n) pre @ ?fr @ post" using f by simp_all
    then have "punch_hole off n f = (take off pre @ replicate n 0 @ drop (off + n) pre) @ ?fr @ post" by (simp add: z)
    moreover have "length (take off pre @ replicate n 0 @ drop (off + n) pre) = off'" using o f(2) by simp
    ultimately show ?thesis unfolding needle_at_def by blast
  qed
qed

lemma length_punch_hole: "length (punch_hole off n f) = length f"
  by (simp add: punch_hole_def)

lemma delete_inv:
  assumes inv: "vol_inv b" and g: "b_get (vb_needles b) h = Some (Json m)" and i: "nm_VolumeID m = vb_volumeIDCounter b"
    and f: "vb_disk b (vb_volumeIDCounter b) = Some f"
    and b': "b' = b\<lparr>vb_disk := (vb_disk b)(vb_volumeIDCounter b \<mapsto> punch_hole (nm_Offset m) (NeedleOverhead + alignTo8 (nm_Size m)) f),
      vb_needles := b_del h (vb_needles b)\<rparr>"
  shows "vol_inv b'" "vol_content b' = (vol_content b)(h := None)"
proof -
  have p: "b_inv (vb_needles b)" and files: "vol_files b" and ok: "vol_needles b" using inv by (simp_all add: vol_inv_def)
  have get: "b_get (vb_needles b') = (b_get (vb_needles b))(h := None)" using p by (simp add: b' bolt.get_del)
  obtain q where q: "needle_ok b h m q" using ok g unfolding vol_needles_def by blast
  have fit: "nm_Offset m + (NeedleOverhead + nm_Size m) \<le> length f"
    using q f i needle_at_length [of f "nm_Offset m" "nm_Hash m" q] by (auto simp: needle_ok_def)
  have sz: "alignTo8 (nm_Size m) = nm_Size m" using q by (simp add: needle_ok_def)
  have keep: "needle_ok b' k m' p" if k: "k \<noteq> h" "b_get (vb_needles b) k = Some (Json m')" "needle_ok b k m' p" for k m' p
  proof (cases "nm_VolumeID m' = vb_volumeIDCounter b")
    case True
    have "apart m' m" using ok k(1,2) g unfolding vol_needles_def by blast
    then have "nm_Offset m' + NeedleOverhead + nm_Size m' \<le> nm_Offset m \<or> nm_Offset m + (NeedleOverhead + nm_Size m) \<le> nm_Offset m'"
      using True i by (auto simp: apart_def)
    then have "needle_at (punch_hole (nm_Offset m) (NeedleOverhead + nm_Size m) f) (nm_Offset m') (nm_Hash m') p"
      using k(3) True f fit by (intro needle_at_punch) (auto simp: needle_ok_def)
    then show ?thesis using k(3) True by (simp add: needle_ok_def b' sz)
  next
    case False
    then show ?thesis using k(3) by (auto simp: needle_ok_def b')
  qed
  have "vol_files b'" using files f unfolding vol_files_def b' by (auto simp: length_punch_hole)
  moreover have "vol_needles b'"
    unfolding vol_needles_def get
  proof (intro conjI allI impI)
    fix k v assume "((b_get (vb_needles b))(h := None)) k = Some v"
    then have k: "k \<noteq> h" "b_get (vb_needles b) k = Some v" by (auto split: if_splits)
    then obtain m' p where "v = Json m'" "needle_ok b k m' p" using ok unfolding vol_needles_def by blast
    then show "\<exists>m' p. v = Json m' \<and> needle_ok b' k m' p" using keep k by blast
  next
    fix k1 k2 m1 m2
    assume "k1 \<noteq> k2" "((b_get (vb_needles b))(h := None)) k1 = Some (Json m1)" "((b_get (vb_needles b))(h := None)) k2 = Some (Json m2)"
    then have "b_get (vb_needles b) k1 = Some (Json m1)" "b_get (vb_needles b) k2 = Some (Json m2)" by (auto split: if_splits)
    then show "apart m1 m2" using ok \<open>k1 \<noteq> k2\<close> unfolding vol_needles_def by blast
  qed
  ultimately show inv': "vol_inv b'" using inv p by (simp add: vol_inv_def b' bolt.invar_del)
  show "vol_content b' = (vol_content b)(h := None)"
  proof
    fix k show "vol_content b' k = ((vol_content b)(h := None)) k"
      using vol_content_same [OF inv inv', of k] keep get Volume_GetBlob_none [of b' k] by (cases "k = h") auto
  qed
qed

lemma Volume_delete_spec:
  assumes inv: "vol_inv b" and del: "Volume_DeleteBlob h b = (e, b')"
  shows "vol_inv b' \<and>
    (e = None \<longleftrightarrow> (\<exists>m. b_get (vb_needles b) h = Some (Json m) \<and> nm_VolumeID m = vb_volumeIDCounter b)) \<and>
    (if e = None then vol_content b' = (vol_content b)(h := None) else b' = b)"
proof (cases "b_get (vb_needles b) h")
  case None
  then show ?thesis using del inv by (auto simp: Volume_DeleteBlob_def getNeedleMetadata_def split: sum.splits)
next
  case (Some v)
  then obtain m q where m: "v = Json m" "needle_ok b h m q" using inv unfolding vol_inv_def vol_needles_def by blast
  have d: "decodeContentHash h = Inr (nm_Hash m)" using m(2) by (simp add: needle_ok_def decodeContentHash_ok)
  obtain vf where vf: "needle_volume (nm_VolumeID m) b = Inr vf" "vf_volumeID vf = nm_VolumeID m"
    "vf_sealed vf \<longleftrightarrow> nm_VolumeID m \<noteq> vb_volumeIDCounter b"
    using needle_volume_known inv m(2) unfolding vol_inv_def needle_ok_def by metis
  show ?thesis
  proof (cases "nm_VolumeID m = vb_volumeIDCounter b")
    case True
    obtain f where f: "vb_disk b (vb_volumeIDCounter b) = Some f" using inv by (auto simp: vol_inv_def vol_files_def)
    have "e = None" "b' = b\<lparr>vb_disk := (vb_disk b)(vb_volumeIDCounter b \<mapsto> punch_hole (nm_Offset m) (NeedleOverhead + alignTo8 (nm_Size m)) f),
      vb_needles := b_del h (vb_needles b)\<rparr>"
      using del inv Some True vf f m(1)
      by (auto simp: Volume_DeleteBlob_def d getNeedleMetadata_def vol_inv_def quiet_volume_def deleteNeedleMetadata_def volume_bytes_def)
    then show ?thesis using delete_inv [OF inv _ True f] Some m(1) True by simp
  next
    case False
    then show ?thesis using del inv Some vf m(1) by (auto simp: Volume_DeleteBlob_def d getNeedleMetadata_def)
  qed
qed

text \<open>
  On a host without faults a delete removes exactly the blob it names when its volume is still
  active; otherwise it reports an error and leaves the store as it was.
\<close>

theorem Volume_DeleteBlob_refines:
  assumes "vol_inv b" and "Volume_DeleteBlob h b = (e, b')"
  shows "vol_inv b' \<and>
    (e = None \<longleftrightarrow> (\<exists>m. b_get (vb_needles b) h = Some (Json m) \<and> nm_VolumeID m = vb_volumeIDCounter b)) \<and>
    (if e = None then vol_content b' = (vol_content b)(h := None) else b' = b)"
  using assms by (rule Volume_delete_spec)

section \<open>Opening a store\<close>

lemma restore_loop_returns:
  "maxID \<noteq> - 1 \<Longrightarrow> \<exists>b'. restore_loop i maxID b = Some b'"
proof (induction "Suc (unat maxID) - unat i" arbitrary: i b rule: less_induct)
  case less
  show ?case
  proof (cases "i \<le> maxID")
    case True
    then have "i \<noteq> - 1" using less.prems word_order.extremum_uniqueI by blast
    then have "i < i + 1" by (rule word_Suc_less)
    then have "Suc (unat maxID) - unat (i + 1) < Suc (unat maxID) - unat i"
      using True by (simp add: word_less_nat_alt word_le_nat_alt)
    then show ?thesis using less True by (subst restore_loop.simps) simp
  qed (subst restore_loop.simps, simp)
qed

lemma restore_loop_wraps:
  assumes "restore_loop i maxID b = Some b'"
  shows "maxID \<noteq> - 1"
  by (rule restore_loop.raw_induct [where P = "\<lambda>i maxID b b'. maxID \<noteq> - 1", OF _ assms]) (auto split: if_splits)


lemma NewVolumeBlobStore_fresh:
  assumes "quiet_volume host" "vh_mkdir host = None" "vh_opendb host = None" "vh_readdir host = None" "sz \<le> 2 ^ 32"
  obtains b where "NewVolumeBlobStore host sz [] Map.empty [] [] = Some (Inr b)" "vol_inv b" "vol_content b = Map.empty"
    "vb_volumeIDCounter b = 1" "vb_volumeSize b = nat (if sz \<le> 0 then DefaultVolumeSizeBytes else sz)"
proof -
  define b0 where "b0 = \<lparr>vb_volumeSize = nat (if sz \<le> 0 then DefaultVolumeSizeBytes else sz), vb_activeVolume = None,
      vb_sealedVolumes = Map.empty, vb_volumeIDCounter = 0, vb_volumes = [], vb_needles = [], vb_disk = Map.empty, vb_host = host\<rparr>"
  define b where "b = snd (createNewVolume b0)"
  have r: "restore_loop 1 0 b0 = Some b0" by (subst restore_loop.simps) simp
  have "b0\<lparr>vb_volumeIDCounter := 0\<rparr> = b0" by (simp add: b0_def)
  then have 1: "NewVolumeBlobStore host sz [] Map.empty [] [] = Some (Inr b)"
    using assms r
    by (simp add: NewVolumeBlobStore_def restoreVolumes_def Let_def b_def b0_def createNewVolume_def quiet_volume_def
        DefaultVolumeSizeBytes_def MaxVolumeSizeBytes_def)
  have 2: "vol_inv b"
    using assms by (auto simp: b_def b0_def createNewVolume_def Let_def quiet_volume_def vol_inv_def vol_files_def vol_needles_def
        DefaultVolumeSizeBytes_def)
  have "vol_content b = Map.empty"
    by (rule ext, rule Volume_GetBlob_none) (use assms in \<open>simp add: b_def b0_def createNewVolume_def Let_def quiet_volume_def\<close>)
  moreover have "vb_volumeIDCounter b = 1" "vb_volumeSize b = nat (if sz \<le> 0 then DefaultVolumeSizeBytes else sz)"
    using assms by (simp_all add: b_def b0_def createNewVolume_def Let_def quiet_volume_def)
  ultimately show thesis using that 1 2 by blast
qed

definition calm_volume :: volume_host where
  "calm_volume = \<lparr>vh_now = 0, vh_mkdir = None, vh_opendb = None, vh_readdir = None, vh_open = None, vh_write = None,
     vh_sync = None, vh_read = None, vh_punch = None, vh_commit = True\<rparr>"

lemma demo_volume:
  obtains b where "NewVolumeBlobStore calm_volume 64 [] Map.empty [] [] = Some (Inr b)" "vol_inv b" "vol_content b = Map.empty"
    "vb_volumeIDCounter b = 1" "vb_volumeSize b = 64"
  by (rule NewVolumeBlobStore_fresh [of calm_volume 64]) (simp_all add: calm_volume_def quiet_volume_def)


theorem Volume_DeleteBlob_refines_witness:
  "\<exists>b b' b''. NewVolumeBlobStore calm_volume 64 [] Map.empty [] [] = Some (Inr b) \<and>
     Volume_PutBlob (HashBytes [1]) ([[1]], None) b = (None, b') \<and> vol_content b' = [HashBytes [1] \<mapsto> [1]] \<and>
     Volume_DeleteBlob (HashBytes [1]) b' = (None, b'') \<and> vol_content b'' = Map.empty"
proof -
  obtain b where b: "NewVolumeBlobStore calm_volume 64 [] Map.empty [] [] = Some (Inr b)" "vol_inv b" "vol_content b = Map.empty"
    "vb_volumeIDCounter b = 1" "vb_volumeSize b = 64" by (rule demo_volume)
  have c: "vb_volumeIDCounter b \<noteq> - 1" by (simp add: b(4))
  from b(2) c have "\<exists>b'. Volume_PutBlob (HashBytes [1]) ([[1]], None) b = (None, b') \<and> vol_inv b' \<and> vol_content b' = [HashBytes [1] \<mapsto> [1]] \<and>
      (\<exists>m. b_get (vb_needles b') (HashBytes [1]) = Some (Json m) \<and> nm_VolumeID m = vb_volumeIDCounter b')"
  proof (cases rule: reserve_cases [where sz = 54])
    case (fits vf b1)
    have sz: "NeedleOverhead + alignTo8 (length (concat [[1 :: byte]])) = 54"
      by (simp add: NeedleOverhead_def NeedleHeaderSize_def NeedleCRCBytes_def alignTo8_def)
    obtain b' where "Volume_PutBlob (HashBytes [1]) ([[1]], None) b = (None, b')" "vol_inv b'"
      "vol_content b' = (vol_content b1)(HashBytes [1] \<mapsto> concat [[1]])"
      "\<exists>m. b_get (vb_needles b') (HashBytes [1]) = Some (Json m) \<and> nm_VolumeID m = vb_volumeIDCounter b'"
      by (rule Volume_PutBlob_append [OF fits(2,3), of "HashBytes [1]" "[[1]]" b, unfolded sz])
        (simp_all add: HashBytes_decode fits(1) fits(4))
    then show ?thesis using fits(6) b(3) by simp
  qed (use b in simp_all)
  then obtain b' where b': "Volume_PutBlob (HashBytes [1]) ([[1]], None) b = (None, b')" "vol_inv b'"
    "vol_content b' = [HashBytes [1] \<mapsto> [1]]"
    "\<exists>m. b_get (vb_needles b') (HashBytes [1]) = Some (Json m) \<and> nm_VolumeID m = vb_volumeIDCounter b'" by blast
  obtain e b'' where d: "Volume_DeleteBlob (HashBytes [1]) b' = (e, b'')" by fastforce
  from Volume_DeleteBlob_refines [OF b'(2) d] b b' d show ?thesis by auto
qed

text \<open>
  A volume reopened after a restart is not ready for appending: its handle stands at the start of the
  file while the store takes the end as the next offset. A put then overwrites the first needles, is
  reported as done, and its blob cannot be read.
\<close>

theorem reopened_put_unreadable:
  assumes o: "openExistingVolume (vf_volumeID vf) b = Inr vf" and a: "vb_activeVolume b = Some vf"
    and q: "quiet_volume (vb_host b)" and i: "b_inv (vb_needles b)" and h: "DecodeString h = Some (Sum256 payload)"
    and fit: "vf_size vf + (NeedleOverhead + alignTo8 (length payload)) \<le> vb_volumeSize b"
    and small: "NeedleOverhead + alignTo8 (length payload) \<le> vf_size vf"
  shows "fst (Volume_PutBlob h ([payload], None) b) = None \<and>
    Volume_GetBlob h (snd (Volume_PutBlob h ([payload], None) b)) = Inl (Plain ''EOF'')"
proof -
  let ?fr = "needle_frame (Sum256 payload) payload NeedleFlagNone" and ?sz = "NeedleOverhead + alignTo8 (length payload)"
  obtain f where f: "vb_disk b (vf_volumeID vf) = Some f" "vf_pos vf = 0" "vf_size vf = length f"
    using o by (cases vf) (auto simp: openExistingVolume_def Let_def split: option.splits)
  have k: "h \<noteq> []" "length h \<le> MaxKeySize" "decodeContentHash h = Inr (Sum256 payload)"
    using DecodeString_length [OF h] h by (auto simp: MaxKeySize_def decodeContentHash_ok)
  have "0 < length ?fr" by (simp add: NeedleOverhead_def NeedleHeaderSize_def)
  then have ne: "?fr \<noteq> []" by fastforce
  have l: "length (write_at 0 ?fr f) = length f" using small f(3) ne by (simp add: write_at_def)
  define b' where "b' = b\<lparr>vb_disk := (vb_disk b)(vf_volumeID vf \<mapsto> write_at 0 ?fr f),
      vb_activeVolume := Some (vf\<lparr>vf_pos := ?sz, vf_size := vf_size vf + ?sz\<rparr>),
      vb_needles := b_upd h (Json \<lparr>nm_Hash = Sum256 payload, nm_VolumeID = vf_volumeID vf, nm_Offset = vf_size vf,
        nm_Size = alignTo8 (length payload)\<rparr>) (vb_needles b)\<rparr>"
  have "Volume_PutBlob h ([payload], None) b = (None, b')"
    using h q f k fit a
    by (simp add: Volume_PutBlob_def readVerifiedPayload_def Let_def reserveNeedleSlot_def appendNeedle_def writeNeedle_def
        quiet_volume_def saveNeedleMetadata_def b_put_def b'_def)
  moreover have "Volume_GetBlob h b' = Inl (Plain ''EOF'')"
    using q l f(3) by (simp add: Volume_GetBlob_def k getNeedleMetadata_def b'_def bolt.get_upd [OF i] needle_volume_def
        volume_bytes_def quiet_volume_def readNeedle_def ReadAt_def NeedleHeaderSize_def)
  ultimately show ?thesis by simp
qed

end
