(* ===== verification/Raw_Store.thy ===== *)
theory Raw_Store
  imports Volume_Store
begin

text \<open>
  The raw device backend (\<^verbatim>\<open>src/src/storage/raw_blobstore.go\<close>): blobs in consecutive regions of one
  device, handed out by a bump allocator, with the regions in a database. Whatever the device and the
  database answer, a put touches only bytes past every recorded region.
\<close>

section \<open>The device\<close>

definition MaxFileSize :: nat where "MaxFileSize = 2 ^ 30"

text \<open>
  \<open>rh_write\<close> is how many bytes of a put reach the device before a write fails; \<open>rh_read\<close> how a read of
  the device ends; \<open>rh_commit\<close> whether a database transaction commits.
\<close>

record raw_host =
  rh_mkdir :: "errno option"
  rh_open :: "errno option"
  rh_opendb :: "errno option"
  rh_write :: "nat option"
  rh_read :: "errno option"
  rh_commit :: bool

record RawBlobStore =
  rb_device :: bytes
  rb_alloc :: "bytes bucket"
  rb_nextOffset :: "64 word"
  rb_host :: raw_host

definition alloc_entry :: "64 word \<Rightarrow> 64 word \<Rightarrow> bytes" where
  "alloc_entry offset n = PutUint64 offset @ PutUint64 n"

definition entry_offset :: "bytes \<Rightarrow> 64 word" where "entry_offset v = Uint64 (sub_slice 0 8 v)"
definition entry_length :: "bytes \<Rightarrow> 64 word" where "entry_length v = Uint64 (sub_slice 8 16 v)"

text \<open>The scan of the allocation table when a store is opened, in 64-bit arithmetic.\<close>

definition scan_entry :: "64 word \<Rightarrow> bytes \<Rightarrow> 64 word" where
  "scan_entry nextOffset v =
     (if length v = 16 then
        let offset = entry_offset v; n = entry_length v in
        if 0 <s offset \<and> 0 <s n \<and> offset \<le>s (2 ^ 63 - 1) - n then
          (let fin = offset + n in if nextOffset <s fin then fin else nextOffset)
        else nextOffset
      else nextOffset)"

definition NewRawBlobStore :: "raw_host \<Rightarrow> string \<Rightarrow> string \<Rightarrow> bytes \<Rightarrow> bytes bucket \<Rightarrow> RawBlobStore res" where
  "NewRawBlobStore host rawDevicePath drive device alloc =
     (let devicePath = (if rawDevicePath = [] then drive else rawDevicePath) in
      if devicePath = [] then Inl (Wrap EINVAL)
      else if rh_mkdir host \<noteq> None then Inl (Wrap EIO)
      else if rh_open host \<noteq> None then Inl (Wrap EIO)
      else if rh_opendb host \<noteq> None then Inl (Wrap EIO)
      else if \<not> rh_commit host then Inl (Plain ''commit failed'')
      else Inr \<lparr>rb_device = device, rb_alloc = alloc, rb_nextOffset = foldl scan_entry 0 (map snd alloc), rb_host = host\<rparr>)"

section \<open>The operations\<close>

text \<open>
  The copy loop: what is left of the limit, the chunks still to come, how they end, and what is written.
  A write fault cuts the chunk it hits.
\<close>

fun raw_copy :: "nat option \<Rightarrow> nat \<Rightarrow> nat \<Rightarrow> bytes list \<Rightarrow> err option \<Rightarrow> nat \<Rightarrow> bytes \<Rightarrow> nat res \<times> bytes" where
  "raw_copy fault offset limit [] fin written dev = ((case fin of None \<Rightarrow> Inr written | Some _ \<Rightarrow> Inl (Wrap EIO)), dev)"
| "raw_copy fault offset limit (c # cs) fin written dev =
     (if limit = 0 then (Inr written, dev)
      else let buf = take limit c in
        case fault of
          Some k \<Rightarrow>
            if k < written + length buf then (Inl (Wrap EIO), write_at (offset + written) (take (k - written) buf) dev)
            else raw_copy fault offset (limit - length buf) cs fin (written + length buf) (write_at (offset + written) buf dev)
        | None \<Rightarrow> raw_copy fault offset (limit - length buf) cs fin (written + length buf) (write_at (offset + written) buf dev))"

definition Raw_PutBlob :: "string \<Rightarrow> stream \<Rightarrow> RawBlobStore \<Rightarrow> err option \<times> RawBlobStore" where
  "Raw_PutBlob hash content r =
     (if HasPathTraversalChars hash then (Some (Wrap EINVAL), r)
      else if b_get (rb_alloc r) hash \<noteq> None then (None, r)
      else let offset = rb_nextOffset r in
        if (2 ^ 63 - 1) - word_of_nat MaxFileSize <s offset then (Some (Wrap EIO), r)
        else case raw_copy (rh_write (rb_host r)) (unat offset) (MaxFileSize + 1) (fst content) (snd content) 0 (rb_device r) of
            (Inl e, dev) \<Rightarrow> (Some e, r\<lparr>rb_device := dev\<rparr>)
          | (Inr totalWritten, dev) \<Rightarrow>
              let r1 = r\<lparr>rb_device := dev\<rparr> in
              if MaxFileSize < totalWritten then (Some (Wrap EFBIG), r1)
              else if (2 ^ 63 - 1) - word_of_nat totalWritten <s offset then (Some (Wrap EIO), r1)
              else (case b_put hash (alloc_entry offset (word_of_nat totalWritten)) (rb_alloc r1) of
                  Inl _ \<Rightarrow> (Some (Wrap EIO), r1)
                | Inr alloc \<Rightarrow>
                    if rh_commit (rb_host r) then (None, r1\<lparr>rb_alloc := alloc, rb_nextOffset := offset + word_of_nat totalWritten\<rparr>)
                    else (Some (Wrap EIO), r1)))"

definition Raw_GetBlob :: "string \<Rightarrow> RawBlobStore \<Rightarrow> stream res" where
  "Raw_GetBlob hash r =
     (if HasPathTraversalChars hash then Inl (Wrap EINVAL)
      else case b_get (rb_alloc r) hash of
        None \<Rightarrow> Inl (Bare ENOENT)
      | Some v \<Rightarrow>
          if length v \<noteq> 16 then Inl (Bare ENOENT)
          else if entry_length v \<le>s 0 \<or> word_of_nat MaxFileSize <s entry_length v then Inl (Wrap EIO)
          else if entry_offset v <s 0 then Inl (Wrap EIO)
          else Inr ([take (unat (entry_length v)) (drop (unat (entry_offset v)) (rb_device r))], map_option PathErr (rh_read (rb_host r))))"

definition Raw_DeleteBlob :: "string \<Rightarrow> RawBlobStore \<Rightarrow> err option \<times> RawBlobStore" where
  "Raw_DeleteBlob hash r =
     (if HasPathTraversalChars hash then (Some (Wrap EINVAL), r)
      else if rh_commit (rb_host r) then (None, r\<lparr>rb_alloc := b_del hash (rb_alloc r)\<rparr>)
      else (Some (Wrap EIO), r))"

definition raw_ops :: "RawBlobStore BlobStore" where
  "raw_ops = \<lparr>PutBlob = Raw_PutBlob, GetBlob = Raw_GetBlob, DeleteBlob = Raw_DeleteBlob, BlobExists = None\<rparr>"

section \<open>Recorded regions stay as they are\<close>

definition raw_region :: "RawBlobStore \<Rightarrow> bytes \<Rightarrow> bool" where
  "raw_region r v \<longleftrightarrow> length v = 16 \<and> unat (entry_length v) \<le> MaxFileSize \<and>
     unat (entry_offset v) + unat (entry_length v) \<le> unat (rb_nextOffset r) \<and>
     unat (entry_offset v) + unat (entry_length v) \<le> length (rb_device r)"

definition raw_inv :: "RawBlobStore \<Rightarrow> bool" where
  "raw_inv r \<longleftrightarrow> b_inv (rb_alloc r) \<and> unat (rb_nextOffset r) < 2 ^ 63 \<and> unat (rb_nextOffset r) \<le> length (rb_device r) \<and>
     (\<forall>h v. b_get (rb_alloc r) h = Some v \<longrightarrow> raw_region r v)"

text \<open>What the store holds under a hash: the bytes of its region.\<close>

definition raw_content :: "RawBlobStore \<Rightarrow> string \<Rightarrow> bytes option" where
  "raw_content r h = map_option (\<lambda>v. take (unat (entry_length v)) (drop (unat (entry_offset v)) (rb_device r))) (b_get (rb_alloc r) h)"

lemma alloc_entry_fields [simp]:
  "length (alloc_entry a n) = 16" "entry_offset (alloc_entry a n) = a" "entry_length (alloc_entry a n) = n"
  by (simp_all add: alloc_entry_def entry_offset_def entry_length_def sub_slice_def)

lemma write_at_Nil [simp]: "write_at off [] f = f"
  by (simp add: write_at_def)

lemma take_write_at: "p \<le> off \<Longrightarrow> p \<le> length f \<Longrightarrow> take p (write_at off bs f) = take p f"
  by (auto simp: write_at_def min_def)

lemma length_write_at: "length f \<le> length (write_at off bs f)"
  by (auto simp: write_at_def)

lemma write_at_twice:
  "a \<noteq> [] \<Longrightarrow> write_at (off + length a) b (write_at off a f) = write_at off (a @ b) f"
  by (auto simp: write_at_def min_def ac_simps)

text \<open>The loop writes a prefix of the chunks, and all of them within the limit when it succeeds.\<close>

lemma raw_copy_spec:
  "raw_copy fault off limit cs fin written dev = (res, dev') \<Longrightarrow>
   \<exists>p. dev' = write_at (off + written) p dev \<and>
     (\<forall>n. res = Inr n \<longrightarrow> n = written + length p \<and> p = take limit (concat cs) \<and> (length (concat cs) < limit \<longrightarrow> fin = None)) \<and>
     (res \<noteq> Inl (Wrap EIO) \<longrightarrow> isOk res)"
proof (induction cs arbitrary: limit written dev)
  case Nil
  then show ?case by (intro exI [of _ "[]"]) (auto simp: write_at_def split: option.splits)
next
  case (Cons c cs)
  let ?buf = "take limit c"
  show ?case
  proof (cases "limit = 0 \<or> (\<exists>k. fault = Some k \<and> k < written + length ?buf)")
    case True
    then show ?thesis
    proof
      assume "limit = 0"
      then show ?thesis using Cons.prems by (intro exI [of _ "[]"]) (auto simp: write_at_def)
    next
      assume "\<exists>k. fault = Some k \<and> k < written + length ?buf"
      then obtain k where k: "fault = Some k" "k < written + length ?buf" by blast
      show ?thesis
      proof (cases "limit = 0")
        case True
        then show ?thesis using Cons.prems by (intro exI [of _ "[]"]) (auto simp: write_at_def)
      next
        case False
        then have "res = Inl (Wrap EIO)" "dev' = write_at (off + written) (take (k - written) ?buf) dev"
          using Cons.prems k by (auto simp: Let_def)
        then show ?thesis by blast
      qed
    qed
  next
    case False
    then have "raw_copy fault off (limit - length ?buf) cs fin (written + length ?buf) (write_at (off + written) ?buf dev) = (res, dev')"
      using Cons.prems by (auto simp: Let_def split: option.splits)
    from Cons.IH [OF this] obtain p where p: "dev' = write_at (off + (written + length ?buf)) p (write_at (off + written) ?buf dev)"
      "\<And>n. res = Inr n \<Longrightarrow> n = written + length ?buf + length p \<and> p = take (limit - length ?buf) (concat cs) \<and>
         (length (concat cs) < limit - length ?buf \<longrightarrow> fin = None)" "res \<noteq> Inl (Wrap EIO) \<Longrightarrow> isOk res" by auto
    have "dev' = write_at (off + written) (?buf @ p) dev"
    proof (cases "?buf = []")
      case True
      then show ?thesis using p(1) unfolding True by (simp add: write_at_Nil)
    next
      case False
      then show ?thesis using p(1) write_at_twice [of ?buf "off + written" p dev] by (simp add: add.assoc)
    qed
    moreover have "?buf @ take (limit - length ?buf) (concat cs) = take limit (concat (c # cs))" by (simp add: min_def)
    moreover have "fin = None" if "res = Inr n" "length (concat (c # cs)) < limit" for n using p(2) that by simp
    moreover have "n = written + length (?buf @ p)" "p = take (limit - length ?buf) (concat cs)" if "res = Inr n" for n
      using p(2) [OF that] by simp_all
    ultimately show ?thesis using p(3) by metis
  qed
qed

lemma sint_unat: "unat (w :: 64 word) < 2 ^ 63 \<Longrightarrow> sint w = int (unat w)"
  by (rule sint_of_nat_small)

lemma offset_room:
  assumes "unat (w :: 64 word) < 2 ^ 63" "n < 2 ^ 63"
  shows "(2 ^ 63 - 1) - word_of_nat n <s w \<longleftrightarrow> 2 ^ 63 - 1 < unat w + n"
proof -
  have "(2 ^ 63 - 1) - word_of_nat n = (word_of_int (2 ^ 63 - 1 - int n) :: 64 word)" by simp
  moreover have "sint (word_of_int (2 ^ 63 - 1 - int n) :: 64 word) = 2 ^ 63 - 1 - int n"
    using assms(2) by (intro sint_int64) auto
  ultimately have eq: "sint ((2 ^ 63 - 1) - word_of_nat n :: 64 word) = 2 ^ 63 - 1 - int n" by simp
  have "(2 ^ 63 - 1 - int n < int m) = (2 ^ 63 - 1 < m + n)" for m by simp linarith
  then show ?thesis unfolding word_sless_alt eq sint_unat [OF assms(1)] .
qed

lemma unat_offset_add:
  assumes "unat (w :: 64 word) + n < 2 ^ 64"
  shows "unat (w + word_of_nat n) = unat w + n"
proof -
  have "n < 2 ^ 64" using assms by simp
  then have "unat (word_of_nat n :: 64 word) = n" by (simp add: unat_of_nat)
  then show ?thesis using assms unat_add_lem [of w "word_of_nat n"] by simp
qed

lemma raw_content_write:
  assumes inv: "raw_inv r" and off: "unat (rb_nextOffset r) \<le> off"
    and r': "rb_device r' = write_at off p (rb_device r)" "b_get (rb_alloc r') k = b_get (rb_alloc r) k"
  shows "raw_content r' k = raw_content r k"
proof (cases "b_get (rb_alloc r) k")
  case (Some v)
  then have v: "raw_region r v" using inv by (auto simp: raw_inv_def)
  let ?a = "unat (entry_offset v)" and ?n = "unat (entry_length v)"
  have "take ?n (drop ?a (write_at off p (rb_device r))) = drop ?a (take (?a + ?n) (write_at off p (rb_device r)))"
    by (simp add: take_drop add.commute)
  also have "\<dots> = drop ?a (take (?a + ?n) (rb_device r))" using v off by (simp add: take_write_at raw_region_def)
  finally show ?thesis using Some r' by (simp add: raw_content_def take_drop add.commute)
qed (use r' in \<open>simp add: raw_content_def\<close>)

lemma raw_inv_write:
  assumes inv: "raw_inv r" shows "raw_inv (r\<lparr>rb_device := write_at off p (rb_device r)\<rparr>)"
proof -
  have l: "length (rb_device r) \<le> length (write_at off p (rb_device r))" by (rule length_write_at)
  show ?thesis using inv l unfolding raw_inv_def raw_region_def by (force intro: order_trans [OF _ l])
qed


definition quiet_raw :: raw_host where
  "quiet_raw = \<lparr>rh_mkdir = None, rh_open = None, rh_opendb = None, rh_write = None, rh_read = None, rh_commit = True\<rparr>"

definition empty_raw :: RawBlobStore where
  "empty_raw = \<lparr>rb_device = [], rb_alloc = [], rb_nextOffset = 0, rb_host = quiet_raw\<rparr>"

lemma NewRawBlobStore_empty: "NewRawBlobStore quiet_raw ''/dev/sdb'' [] [] [] = Inr empty_raw"
  by (simp add: NewRawBlobStore_def quiet_raw_def empty_raw_def)

lemma raw_put_one:
  assumes "\<not> HasPathTraversalChars h" "h \<noteq> []" "length h \<le> MaxKeySize" "b_get (rb_alloc r) h = None" "rb_host r = quiet_raw"
    and "length p \<le> MaxFileSize" "rb_nextOffset r = 0"
  shows "Raw_PutBlob h ([p], None) r =
    (None, r\<lparr>rb_device := write_at 0 p (rb_device r), rb_alloc := b_upd h (alloc_entry 0 (word_of_nat (length p))) (rb_alloc r),
      rb_nextOffset := word_of_nat (length p)\<rparr>)"
proof -
  have "\<not> (2 ^ 63 - 1) - word_of_nat n <s (0 :: 64 word)" if "n \<le> MaxFileSize" for n
    using that offset_room [of 0 n] by (simp add: MaxFileSize_def)
  then show ?thesis using assms by (simp add: Raw_PutBlob_def Let_def quiet_raw_def b_put_def)
qed


text \<open>
  Reading is exact, but an empty blob, which a put accepts, cannot be read: its region is taken for a
  damaged record.
\<close>

theorem Raw_GetBlob_reads:
  assumes inv: "raw_inv r" and h: "\<not> HasPathTraversalChars h"
  shows "Raw_GetBlob h r = (case raw_content r h of
      None \<Rightarrow> Inl (Bare ENOENT)
    | Some c \<Rightarrow> if c = [] then Inl (Wrap EIO) else Inr ([c], map_option PathErr (rh_read (rb_host r))))"
proof (cases "b_get (rb_alloc r) h")
  case None
  then show ?thesis using h by (simp add: Raw_GetBlob_def raw_content_def)
next
  case (Some v)
  then have v: "raw_region r v" using inv by (auto simp: raw_inv_def)
  have o: "unat (entry_offset v) < 2 ^ 63" "unat (entry_length v) < 2 ^ 63"
    using v inv by (auto simp: raw_region_def raw_inv_def)
  have s: "sint (entry_offset v) = int (unat (entry_offset v))" "sint (entry_length v) = int (unat (entry_length v))"
    using o by (simp_all only: sint_unat)
  have m: "sint (word_of_nat MaxFileSize :: 64 word) = int MaxFileSize"
    using sint_unat [of "word_of_nat MaxFileSize"] by (simp add: MaxFileSize_def unat_of_nat)
  have "\<not> entry_offset v <s 0" "\<not> word_of_nat MaxFileSize <s entry_length v"
    "entry_length v \<le>s 0 \<longleftrightarrow> unat (entry_length v) = 0"
    using v unfolding word_sless_alt word_sle_eq s m raw_region_def sint_0 by linarith+
  moreover have "take (unat (entry_length v)) (drop (unat (entry_offset v)) (rb_device r)) = [] \<longleftrightarrow> unat (entry_length v) = 0"
    using v by (auto simp: raw_region_def)
  ultimately show ?thesis using Some h v by (simp add: Raw_GetBlob_def raw_content_def raw_region_def)
qed

text \<open>
  Opening a store ignores a region at offset zero when it looks for the end of the used space. With only
  the first blob on the device the next put takes the same region: the first blob then reads as the
  second.
\<close>

theorem raw_reopen_overwrites:
  assumes p: "length p \<le> MaxFileSize" and hh: "h1 \<noteq> h2" "\<not> HasPathTraversalChars h2" "h2 \<noteq> []" "length h2 \<le> MaxKeySize"
    and r: "NewRawBlobStore quiet_raw dev [] device [(h1, alloc_entry 0 (word_of_nat (length p)))] = Inr r"
    and put: "Raw_PutBlob h2 ([p], None) r = (e, r')"
  shows "e = None \<and> raw_content r' h1 = Some p \<and> raw_content r' h2 = Some p"
proof -
  have r: "r = \<lparr>rb_device = device, rb_alloc = [(h1, alloc_entry 0 (word_of_nat (length p)))], rb_nextOffset = 0, rb_host = quiet_raw\<rparr>"
    using r by (auto simp: NewRawBlobStore_def Let_def scan_entry_def split: if_splits)
  have n: "unat (word_of_nat (length p) :: 64 word) = length p" using p by (simp add: MaxFileSize_def unat_of_nat)
  have "b_get (rb_alloc r) h2 = None" "b_inv (rb_alloc r)" using hh(1) by (simp_all add: r b_get_def b_inv_def)
  then have "Raw_PutBlob h2 ([p], None) r =
    (None, r\<lparr>rb_device := write_at 0 p device, rb_alloc := b_upd h2 (alloc_entry 0 (word_of_nat (length p))) (rb_alloc r),
      rb_nextOffset := word_of_nat (length p)\<rparr>)"
    using raw_put_one [OF hh(2-4), of r p] p by (simp add: r)
  then show ?thesis using put hh(1) n by (auto simp: raw_content_def r b_get_def write_at_def)
qed

end
