(* ===== verification/Adaptive_Store.thy ===== *)
theory Adaptive_Store
  imports Volume_Store
begin

text \<open>
  The adaptive backend (\<^verbatim>\<open>src/src/storage/adaptive_blobstore.go\<close>): small blobs go to a volume store, larger
  ones to a fallback. Its correctness is proved over any fallback that satisfies the laws of
  \<open>blob_store\<close>.
\<close>

section \<open>The store\<close>

record 'b AdaptiveBlobStore =
  ad_volume :: "VolumeBlobStore option"
  ad_fallback :: "'b option"
  ad_threshold :: nat

definition DefaultAdaptiveThreshold :: nat where "DefaultAdaptiveThreshold = 2 ^ 20"

definition NewAdaptiveBlobStore :: "VolumeBlobStore option \<Rightarrow> 'b option \<Rightarrow> int \<Rightarrow> 'b AdaptiveBlobStore" where
  "NewAdaptiveBlobStore volume fallback threshold =
     \<lparr>ad_volume = volume, ad_fallback = fallback,
      ad_threshold = (if threshold \<le> 0 then DefaultAdaptiveThreshold else nat threshold)\<rparr>"

text \<open>\<^verbatim>\<open>io.ReadFull\<close> on a stream: what fills the buffer and the chunks not yet read.\<close>

fun ReadFull :: "nat \<Rightarrow> bytes list \<Rightarrow> bytes \<times> bytes list" where
  "ReadFull n [] = ([], [])"
| "ReadFull n (c # cs) =
     (if n = 0 then ([], c # cs)
      else if n < length c then (take n c, drop n c # cs)
      else let (buf, rest) = ReadFull (n - length c) cs in (c @ buf, rest))"

definition Adaptive_PutBlob ::
  "'b BlobStore \<Rightarrow> string \<Rightarrow> stream \<Rightarrow> 'b AdaptiveBlobStore \<Rightarrow> err option \<times> 'b AdaptiveBlobStore" where
  "Adaptive_PutBlob bs hash content a =
     (if HasPathTraversalChars hash then (Some (Wrap EINVAL), a)
      else if ad_volume a = None \<and> ad_fallback a = None then (Some (Wrap EINVAL), a)
      else let (buf, rest) = ReadFull (ad_threshold a + 1) (fst content) in
        if length buf < ad_threshold a + 1 \<and> snd content \<noteq> None then (map_option wrap (snd content), a)
        else let reader = (buf # rest, snd content) in
          if length buf \<le> ad_threshold a then
            (case ad_volume a of
               None \<Rightarrow> (Some (Wrap ENOSYS), a)
             | Some v \<Rightarrow> (let (e, v') = Volume_PutBlob hash reader v in (e, a\<lparr>ad_volume := Some v'\<rparr>)))
          else
            (case ad_fallback a of
               None \<Rightarrow> (Some (Wrap ENOSYS), a)
             | Some f \<Rightarrow> (let (e, f') = PutBlob bs hash reader f in (e, a\<lparr>ad_fallback := Some f'\<rparr>))))"

definition Adaptive_BlobExists :: "'b BlobStore \<Rightarrow> string \<Rightarrow> 'b AdaptiveBlobStore \<Rightarrow> bool res" where
  "Adaptive_BlobExists bs hash a =
     (if (case ad_volume a of Some v \<Rightarrow> Volume_BlobExists hash v = Inr True | None \<Rightarrow> False) then Inr True
      else case ad_fallback a of
        None \<Rightarrow> Inr False
      | Some f \<Rightarrow> (case BlobExists bs of Some ex \<Rightarrow> ex hash f | None \<Rightarrow> Inr False))"

definition fallback_get :: "'b BlobStore \<Rightarrow> string \<Rightarrow> 'b AdaptiveBlobStore \<Rightarrow> stream res" where
  "fallback_get bs hash a = (case ad_fallback a of None \<Rightarrow> Inl (Bare ENOENT) | Some f \<Rightarrow> GetBlob bs hash f)"

definition Adaptive_GetBlob :: "'b BlobStore \<Rightarrow> string \<Rightarrow> 'b AdaptiveBlobStore \<Rightarrow> stream res" where
  "Adaptive_GetBlob bs hash a =
     (if HasPathTraversalChars hash then Inl (Wrap EINVAL)
      else case ad_volume a of
        None \<Rightarrow> fallback_get bs hash a
      | Some v \<Rightarrow>
          (case Volume_GetBlob hash v of
             Inr s \<Rightarrow> Inr s
           | Inl e \<Rightarrow> if e \<noteq> Bare ENOENT then Inl e else fallback_get bs hash a))"

definition Adaptive_DeleteBlob :: "'b BlobStore \<Rightarrow> string \<Rightarrow> 'b AdaptiveBlobStore \<Rightarrow> err option \<times> 'b AdaptiveBlobStore" where
  "Adaptive_DeleteBlob bs hash a =
     (if HasPathTraversalChars hash then (Some (Wrap EINVAL), a)
      else
        let (e1, a1) = (case ad_volume a of
              None \<Rightarrow> (None, a)
            | Some v \<Rightarrow> (case Volume_DeleteBlob hash v of
                (e, v') \<Rightarrow> (if e = Some (Bare ENOENT) then None else e, a\<lparr>ad_volume := Some v'\<rparr>)));
            (e2, a2) = (case ad_fallback a1 of
              None \<Rightarrow> (None, a1)
            | Some f \<Rightarrow> (case DeleteBlob bs hash f of
                (e, f') \<Rightarrow> (if e = Some (Bare ENOENT) then None else e, a1\<lparr>ad_fallback := Some f'\<rparr>)))
        in (case e2 of Some e \<Rightarrow> Some e | None \<Rightarrow> e1, a2))"

definition adaptive_ops :: "'b BlobStore \<Rightarrow> 'b AdaptiveBlobStore BlobStore" where
  "adaptive_ops bs = \<lparr>PutBlob = Adaptive_PutBlob bs, GetBlob = Adaptive_GetBlob bs, DeleteBlob = Adaptive_DeleteBlob bs,
     BlobExists = Some (Adaptive_BlobExists bs)\<rparr>"

section \<open>Over a lawful fallback\<close>

lemma ReadFull_spec: "ReadFull n cs = (buf, rest) \<Longrightarrow> buf = take n (concat cs) \<and> buf @ concat rest = concat cs"
  by (induction n cs arbitrary: buf rest rule: ReadFull.induct) (auto simp: Let_def split: if_splits prod.splits)

lemma content_hash_decode:
  assumes "content_hash h"
  shows "\<exists>raw. DecodeString h = Some raw \<and> length raw = 32"
proof -
  have "\<exists>raw. DecodeString h = Some raw \<and> length h = 2 * length raw" if "set h \<subseteq> set hextable" "even (length h)" for h
    using that
  proof (induction h rule: DecodeString.induct)
    case (3 c d s)
    have "\<exists>n. fromHexChar x = Some n" if "x \<in> set hextable" for x
      using that fromHexChar_hextable unfolding in_set_conv_nth by (auto simp: hextable_def)
    then obtain a b where "fromHexChar c = Some a" "fromHexChar d = Some b" using 3(2) by fastforce
    moreover obtain raw where "DecodeString s = Some raw" "length s = 2 * length raw" using 3 calculation by fastforce
    ultimately show ?case by simp
  qed auto
  from this [of h] assms show ?thesis by (auto simp: content_hash_def)
qed

definition adaptive_inv :: "('b \<Rightarrow> bool) \<Rightarrow> 'b AdaptiveBlobStore \<Rightarrow> bool" where
  "adaptive_inv sound a \<longleftrightarrow> (\<exists>v f. ad_volume a = Some v \<and> ad_fallback a = Some f \<and> vol_inv v \<and> sound f)"

text \<open>What the store holds: the volume's copy when there is one, otherwise the fallback's.\<close>

definition adaptive_content :: "('b \<Rightarrow> string \<Rightarrow> bytes option) \<Rightarrow> 'b AdaptiveBlobStore \<Rightarrow> string \<Rightarrow> bytes option" where
  "adaptive_content content a h =
     (case (case ad_volume a of Some v \<Rightarrow> vol_content v h | None \<Rightarrow> None) of
        Some c \<Rightarrow> Some c
      | None \<Rightarrow> (case ad_fallback a of Some f \<Rightarrow> content f h | None \<Rightarrow> None))"

lemma adaptive_content_eq:
  "ad_volume a = Some v \<Longrightarrow> ad_fallback a = Some f \<Longrightarrow>
   adaptive_content content a h = (case vol_content v h of Some c \<Rightarrow> Some c | None \<Rightarrow> content f h)"
  by (simp add: adaptive_content_def cong: option.case_cong)

lemma Volume_GetBlob_cases:
  assumes "vol_inv v" "content_hash h"
  shows "Volume_GetBlob h v = (case vol_content v h of Some c \<Rightarrow> Inr ([c], None) | None \<Rightarrow> Inl (Bare ENOENT))"
proof (cases "b_get (vb_needles v) h")
  case None
  obtain raw where "DecodeString h = Some raw" "length raw = 32" using content_hash_decode [OF assms(2)] by blast
  then show ?thesis using None Volume_GetBlob_none [OF None]
    by (simp add: Volume_GetBlob_def getNeedleMetadata_def decodeContentHash_ok [THEN iffD2] err_is_def)
next
  case (Some j)
  then obtain m p where "j = Json m" "needle_ok v h m p" using assms(1) unfolding vol_inv_def vol_needles_def by blast
  then show ?thesis using Some Volume_GetBlob_ok vol_content_ok assms(1) by simp
qed

lemma Volume_DeleteBlob_missing:
  assumes inv: "vol_inv v" and del: "Volume_DeleteBlob h v = (Some (Bare ENOENT), v')"
  shows "b_get (vb_needles v) h = None"
proof (rule ccontr)
  assume "b_get (vb_needles v) h \<noteq> None"
  then obtain m p where m: "b_get (vb_needles v) h = Some (Json m)" "needle_ok v h m p"
    using inv unfolding vol_inv_def vol_needles_def by blast
  obtain vf where "needle_volume (nm_VolumeID m) v = Inr vf"
    using needle_volume_known inv m(2) unfolding vol_inv_def needle_ok_def by metis
  moreover have "decodeContentHash h = Inr (nm_Hash m)" using m(2) by (simp add: needle_ok_def decodeContentHash_ok)
  ultimately show False using del m(1)
    by (auto simp: Volume_DeleteBlob_def getNeedleMetadata_def writeTombstone_def split: if_splits)
qed

context blob_store
begin

lemma adaptive_get:
  assumes inv: "adaptive_inv sound a" and h: "content_hash h" and healthy: "\<And>f. ad_fallback a = Some f \<Longrightarrow> healthy f"
    and c: "adaptive_content content a h = Some c"
  shows "\<exists>ds. Adaptive_GetBlob bs h a = Inr (ds, None) \<and> concat ds = c"
proof -
  obtain v f where a: "ad_volume a = Some v" "ad_fallback a = Some f" "vol_inv v" "sound f"
    using inv by (auto simp: adaptive_inv_def)
  show ?thesis
  proof (cases "vol_content v h")
    case None
    then have "content f h = Some c" using c a by (simp add: adaptive_content_def)
    from get_healthy [OF a(4) h healthy [OF a(2)] this] show ?thesis
      using a None Volume_GetBlob_cases [OF a(3) h] content_hash_no_traversal [OF h]
      by (simp add: Adaptive_GetBlob_def fallback_get_def)
  next
    case (Some d)
    then show ?thesis using c a Volume_GetBlob_cases [OF a(3) h] content_hash_no_traversal [OF h]
      by (simp add: Adaptive_GetBlob_def adaptive_content_def)
  qed
qed

lemma adaptive_put:
  assumes inv: "adaptive_inv sound a" and h: "content_hash h"
    and room: "\<And>v. ad_volume a = Some v \<Longrightarrow> vb_volumeIDCounter v \<noteq> - 1"
    and put: "Adaptive_PutBlob bs h (cs, fin) a = (e, a')"
  shows "adaptive_inv sound a' \<and>
    (\<forall>k. content_hash k \<longrightarrow> k \<noteq> h \<longrightarrow> adaptive_content content a' k = adaptive_content content a k) \<and>
    (if e = None then fin = None \<and> (adaptive_content content a' h = Some (concat cs) \<or>
        adaptive_content content a h \<noteq> None \<and> adaptive_content content a' h = adaptive_content content a h)
     else adaptive_content content a' h = adaptive_content content a h)"
proof -
  obtain v f where a: "ad_volume a = Some v" "ad_fallback a = Some f" "vol_inv v" "sound f"
    using inv by (auto simp: adaptive_inv_def)
  obtain buf rest where rf: "ReadFull (ad_threshold a + 1) cs = (buf, rest)" by fastforce
  have cc: "concat (buf # rest) = concat cs" using ReadFull_spec [OF rf, THEN conjunct2] by simp
  note t = content_hash_no_traversal [OF h]
  consider (fail) "length buf < ad_threshold a + 1" "fin \<noteq> None"
    | (small) "length buf \<le> ad_threshold a" "fin = None" | (large) "ad_threshold a < length buf" by linarith
  then show ?thesis
  proof cases
    case fail
    then have "a' = a" "e \<noteq> None" using put t a rf by (auto simp: Adaptive_PutBlob_def)
    then show ?thesis using inv by auto
  next
    case small
    obtain ev v' where p: "Volume_PutBlob h (buf # rest, None) v = (ev, v')" by fastforce
    have a': "ad_volume a' = Some v'" "ad_fallback a' = Some f" "e = ev"
      using put t a rf small p by (auto simp: Adaptive_PutBlob_def)
    note Volume_put_spec [OF a(3) room [OF a(1)] p]
    then show ?thesis using a a' small(2) cc
      by (auto simp: adaptive_inv_def adaptive_content_eq [OF a(1,2)] adaptive_content_eq [OF a'(1,2)])
  next
    case large
    obtain ef f' where p: "PutBlob bs h (buf # rest, fin) f = (ef, f')" by fastforce
    have a': "ad_volume a' = Some v" "ad_fallback a' = Some f'" "e = ef"
      using put t a rf large p by (auto simp: Adaptive_PutBlob_def)
    have s: "sound f'" using put_sound [OF a(4) h, of "(buf # rest, fin)"] p by simp
    have o: "content f' k = content f k" if "content_hash k" "k \<noteq> h" for k
      using put_other [OF a(4) h that, of "(buf # rest, fin)"] p by simp
    show ?thesis
    proof (cases ef)
      case None
      then have "fin = None \<and> (content f' h = Some (concat cs) \<or> content f h \<noteq> None \<and> content f' h = content f h)"
        using put_ok [OF a(4) h] p cc by metis
      then show ?thesis using None a a' s o
        by (auto simp: adaptive_inv_def adaptive_content_eq [OF a(1,2)] adaptive_content_eq [OF a'(1,2)] split: option.splits)
    next
      case (Some er)
      then have "content f' h = content f h" using put_err [OF a(4) h] p by blast
      then show ?thesis using Some a a' s o
        by (auto simp: adaptive_inv_def adaptive_content_eq [OF a(1,2)] adaptive_content_eq [OF a'(1,2)] split: option.splits)
    qed
  qed
qed

lemma adaptive_delete:
  assumes inv: "adaptive_inv sound a" and h: "content_hash h" and del: "Adaptive_DeleteBlob bs h a = (e, a')"
  shows "adaptive_inv sound a' \<and>
    (\<forall>k. content_hash k \<longrightarrow> k \<noteq> h \<longrightarrow> adaptive_content content a' k = adaptive_content content a k) \<and>
    (e = None \<longrightarrow> (\<forall>f. ad_fallback a = Some f \<longrightarrow> fst (DeleteBlob bs h f) \<noteq> Some (Bare ENOENT)) \<longrightarrow>
      adaptive_content content a' h = None)"
proof -
  obtain v f where a: "ad_volume a = Some v" "ad_fallback a = Some f" "vol_inv v" "sound f"
    using inv by (auto simp: adaptive_inv_def)
  note t = content_hash_no_traversal [OF h]
  obtain ev v' where dv: "Volume_DeleteBlob h v = (ev, v')" by fastforce
  obtain ef f' where df: "DeleteBlob bs h f = (ef, f')" by fastforce
  have a': "ad_volume a' = Some v'" "ad_fallback a' = Some f'"
    "e = None \<Longrightarrow> (ev = None \<or> ev = Some (Bare ENOENT)) \<and> (ef = None \<or> ef = Some (Bare ENOENT))"
    using del t a dv df by (auto simp: Adaptive_DeleteBlob_def split: if_splits option.splits)
  have vs: "vol_inv v'" "\<And>k. k \<noteq> h \<Longrightarrow> vol_content v' k = vol_content v k"
    using Volume_delete_spec [OF a(3) dv] by (auto split: if_splits)
  have fs: "sound f'" "\<And>k. content_hash k \<Longrightarrow> k \<noteq> h \<Longrightarrow> content f' k = content f k"
    using del_sound [OF a(4) h] del_other [OF a(4) h] df by force+
  have "vol_content v' h = None" if "ev = None" using that Volume_delete_spec [OF a(3) dv] by simp
  moreover have "vol_content v' h = None" if "ev = Some (Bare ENOENT)"
  proof -
    have "v' = v" using that Volume_delete_spec [OF a(3) dv] by simp
    then show ?thesis using Volume_GetBlob_none [OF Volume_DeleteBlob_missing [OF a(3) dv [unfolded that]]] by simp
  qed
  moreover have "content f' h = None" if "ef = None" using del_ok [OF a(4) h] df that by blast
  ultimately show ?thesis using a a' vs fs df
    by (auto simp: adaptive_inv_def adaptive_content_eq [OF a(1,2)] adaptive_content_eq [OF a'(1,2)] split: option.splits)
qed

end

section \<open>Over the local backend\<close>

text \<open>
  A put into an adaptive store over the local backend, whatever its size, changes no other blob; a
  put that reports success has consumed its stream, and the blob then reads as its bytes or as the copy
  that was there before; one that fails changes nothing that can be read.
\<close>

theorem Adaptive_PutBlob_stores:
  assumes "adaptive_inv (\<lambda>_. True) a" "content_hash h" "\<forall>v. ad_volume a = Some v \<longrightarrow> vb_volumeIDCounter v \<noteq> - 1"
    and "Adaptive_PutBlob local_ops h (cs, fin) a = (e, a')"
  shows "adaptive_inv (\<lambda>_. True) a' \<and>
    (\<forall>k. content_hash k \<longrightarrow> k \<noteq> h \<longrightarrow> adaptive_content local_content a' k = adaptive_content local_content a k) \<and>
    (if e = None then fin = None \<and> (adaptive_content local_content a' h = Some (concat cs) \<or>
        adaptive_content local_content a h \<noteq> None \<and> adaptive_content local_content a' h = adaptive_content local_content a h)
     else adaptive_content local_content a' h = adaptive_content local_content a h)"
  using local.adaptive_put assms by blast

text \<open>Reading gives what the store holds, and a delete that reports success leaves no copy in either part.\<close>

theorem Adaptive_GetBlob_reads:
  assumes "adaptive_inv (\<lambda>_. True) a" "content_hash h" "\<And>f. ad_fallback a = Some f \<Longrightarrow> local_healthy f"
    and "adaptive_content local_content a h = Some c"
  shows "\<exists>ds. Adaptive_GetBlob local_ops h a = Inr (ds, None) \<and> concat ds = c"
  using local.adaptive_get [OF assms] .

theorem Adaptive_DeleteBlob_removes:
  assumes "adaptive_inv (\<lambda>_. True) a" "content_hash h" "Adaptive_DeleteBlob local_ops h a = (None, a')"
  shows "adaptive_content local_content a' h = None"
proof -
  have "fst (DeleteBlob local_ops h f) \<noteq> Some (Bare ENOENT)" for f
    by (auto simp: local_ops_def Local_DeleteBlob_def Let_def split: option.splits)
  then show ?thesis using local.adaptive_delete [OF assms] by blast
qed

definition demo_adaptive :: "VolumeBlobStore \<Rightarrow> LocalBlobStore AdaptiveBlobStore" where
  "demo_adaptive v = NewAdaptiveBlobStore (Some v) (Some empty_local) 1"

theorem Adaptive_PutBlob_stores_witness:
  "\<exists>v a'. NewVolumeBlobStore calm_volume 64 [] Map.empty [] [] = Some (Inr v) \<and>
     Adaptive_PutBlob local_ops (HashBytes [1, 2]) ([[1], [2]], None) (demo_adaptive v) = (None, a') \<and>
     adaptive_content local_content a' (HashBytes [1, 2]) = Some [1, 2]"
proof -
  obtain v where v: "NewVolumeBlobStore calm_volume 64 [] Map.empty [] [] = Some (Inr v)" "vol_inv v" "vol_content v = Map.empty"
    "vb_volumeIDCounter v = 1" by (rule demo_volume)
  obtain a' where p: "Adaptive_PutBlob local_ops (HashBytes [1, 2]) ([[1], [2]], None) (demo_adaptive v) = (None, a')"
    using content_hash_no_traversal [OF content_hash_HashBytes, of "[1, 2]"] empty_local_put [OF content_hash_HashBytes, of "[1, 2]" "[[1, 2]]"]
    by (auto simp: Adaptive_PutBlob_def demo_adaptive_def NewAdaptiveBlobStore_def local_ops_def empty_local_put)
  have "adaptive_inv (\<lambda>_. True) (demo_adaptive v)" "adaptive_content local_content (demo_adaptive v) (HashBytes [1, 2]) = None"
    using v by (simp_all add: adaptive_inv_def adaptive_content_def demo_adaptive_def NewAdaptiveBlobStore_def)
  with Adaptive_PutBlob_stores [OF this(1) content_hash_HashBytes _ p] v p show ?thesis
    by (auto simp: demo_adaptive_def NewAdaptiveBlobStore_def)
qed

end
