(* ===== verification/Crypto_Primitives.thy ===== *)
theory Crypto_Primitives
  imports Hashing
begin

text \<open>
  What the code uses of Go's cryptographic library: AES with 256-bit keys, Galois/counter mode with
  12-byte nonces (\<^verbatim>\<open>crypto/aes\<close>, \<^verbatim>\<open>crypto/cipher\<close>), HMAC and HKDF over SHA-256. An authenticated cipher is the
  locale \<open>aead\<close>, with the law that what was sealed is opened.
\<close>

unbundle bit_operations_syntax

section \<open>AES\<close>

definition sbox :: "byte list" where
  "sbox = [
    0x63, 0x7C, 0x77, 0x7B, 0xF2, 0x6B, 0x6F, 0xC5, 0x30, 0x01, 0x67, 0x2B, 0xFE, 0xD7, 0xAB, 0x76,
    0xCA, 0x82, 0xC9, 0x7D, 0xFA, 0x59, 0x47, 0xF0, 0xAD, 0xD4, 0xA2, 0xAF, 0x9C, 0xA4, 0x72, 0xC0,
    0xB7, 0xFD, 0x93, 0x26, 0x36, 0x3F, 0xF7, 0xCC, 0x34, 0xA5, 0xE5, 0xF1, 0x71, 0xD8, 0x31, 0x15,
    0x04, 0xC7, 0x23, 0xC3, 0x18, 0x96, 0x05, 0x9A, 0x07, 0x12, 0x80, 0xE2, 0xEB, 0x27, 0xB2, 0x75,
    0x09, 0x83, 0x2C, 0x1A, 0x1B, 0x6E, 0x5A, 0xA0, 0x52, 0x3B, 0xD6, 0xB3, 0x29, 0xE3, 0x2F, 0x84,
    0x53, 0xD1, 0x00, 0xED, 0x20, 0xFC, 0xB1, 0x5B, 0x6A, 0xCB, 0xBE, 0x39, 0x4A, 0x4C, 0x58, 0xCF,
    0xD0, 0xEF, 0xAA, 0xFB, 0x43, 0x4D, 0x33, 0x85, 0x45, 0xF9, 0x02, 0x7F, 0x50, 0x3C, 0x9F, 0xA8,
    0x51, 0xA3, 0x40, 0x8F, 0x92, 0x9D, 0x38, 0xF5, 0xBC, 0xB6, 0xDA, 0x21, 0x10, 0xFF, 0xF3, 0xD2,
    0xCD, 0x0C, 0x13, 0xEC, 0x5F, 0x97, 0x44, 0x17, 0xC4, 0xA7, 0x7E, 0x3D, 0x64, 0x5D, 0x19, 0x73,
    0x60, 0x81, 0x4F, 0xDC, 0x22, 0x2A, 0x90, 0x88, 0x46, 0xEE, 0xB8, 0x14, 0xDE, 0x5E, 0x0B, 0xDB,
    0xE0, 0x32, 0x3A, 0x0A, 0x49, 0x06, 0x24, 0x5C, 0xC2, 0xD3, 0xAC, 0x62, 0x91, 0x95, 0xE4, 0x79,
    0xE7, 0xC8, 0x37, 0x6D, 0x8D, 0xD5, 0x4E, 0xA9, 0x6C, 0x56, 0xF4, 0xEA, 0x65, 0x7A, 0xAE, 0x08,
    0xBA, 0x78, 0x25, 0x2E, 0x1C, 0xA6, 0xB4, 0xC6, 0xE8, 0xDD, 0x74, 0x1F, 0x4B, 0xBD, 0x8B, 0x8A,
    0x70, 0x3E, 0xB5, 0x66, 0x48, 0x03, 0xF6, 0x0E, 0x61, 0x35, 0x57, 0xB9, 0x86, 0xC1, 0x1D, 0x9E,
    0xE1, 0xF8, 0x98, 0x11, 0x69, 0xD9, 0x8E, 0x94, 0x9B, 0x1E, 0x87, 0xE9, 0xCE, 0x55, 0x28, 0xDF,
    0x8C, 0xA1, 0x89, 0x0D, 0xBF, 0xE6, 0x42, 0x68, 0x41, 0x99, 0x2D, 0x0F, 0xB0, 0x54, 0xBB, 0x16]"

definition SubByte :: "byte \<Rightarrow> byte" where "SubByte b = sbox ! unat b"

definition xtime :: "byte \<Rightarrow> byte" where
  "xtime b = push_bit 1 b XOR (if bit b 7 then 0x1B else 0)"

definition xor_bytes :: "bytes \<Rightarrow> bytes \<Rightarrow> bytes" where
  "xor_bytes xs ys = map2 (XOR) xs ys"

definition mix_column :: "bytes \<Rightarrow> bytes" where
  "mix_column c =
     (let a = c ! 0; b = c ! 1; d = c ! 2; e = c ! 3 in
      [xtime a XOR xtime b XOR b XOR d XOR e,
       a XOR xtime b XOR xtime d XOR d XOR e,
       a XOR b XOR xtime d XOR xtime e XOR e,
       xtime a XOR a XOR b XOR d XOR xtime e])"

text \<open>A state is its sixteen bytes, column by column.\<close>

definition shift_rows :: "bytes \<Rightarrow> bytes" where
  "shift_rows s = map (\<lambda>i. s ! (4 * ((i div 4 + i mod 4) mod 4) + i mod 4)) [0..<16]"

definition mix_columns :: "bytes \<Rightarrow> bytes" where
  "mix_columns s = concat (map (\<lambda>c. mix_column (sub_slice (4 * c) (4 * c + 4) s)) [0..<4])"

text \<open>The key schedule, four bytes a word, in the order of the standard.\<close>

fun rcon :: "nat \<Rightarrow> byte" where
  "rcon 0 = 1"
| "rcon (Suc n) = xtime (rcon n)"

definition rot_word :: "bytes \<Rightarrow> bytes" where "rot_word w = tl w @ [hd w]"

fun expand_key :: "nat \<Rightarrow> bytes list \<Rightarrow> bytes list" where
  "expand_key 0 ws = ws"
| "expand_key (Suc n) ws =
     (let i = length ws; t = last ws;
          t' = (if i mod 8 = 0 then xor_bytes (map SubByte (rot_word t)) [rcon (i div 8 - 1), 0, 0, 0]
                else if i mod 8 = 4 then map SubByte t else t)
      in expand_key n (ws @ [xor_bytes (ws ! (i - 8)) t']))"

definition key_schedule :: "bytes \<Rightarrow> bytes list" where
  "key_schedule key =
     (let ws = expand_key 52 (chunks 8 4 key) in map (\<lambda>r. concat (sub_slice (4 * r) (4 * r + 4) ws)) [0..<15])"

definition aes_round :: "bytes \<Rightarrow> bytes \<Rightarrow> bytes" where
  "aes_round s k = xor_bytes (mix_columns (shift_rows (map SubByte s))) k"

definition aes_block :: "bytes \<Rightarrow> bytes \<Rightarrow> bytes" where
  "aes_block key blk =
     (let ks = key_schedule key;
          s = foldl aes_round (xor_bytes blk (ks ! 0)) (sub_slice 1 14 ks)
      in xor_bytes (shift_rows (map SubByte s)) (ks ! 14))"

section \<open>Galois/counter mode\<close>

text \<open>Blocks as 128-bit words, the first bit of the standard being the highest.\<close>

definition block_word :: "bytes \<Rightarrow> 128 word" where "block_word b = word_of_nat (get_be b)"
definition word_block :: "128 word \<Rightarrow> bytes" where "word_block w = put_be 16 (unat w)"

primrec gf_mul :: "nat \<Rightarrow> 128 word \<Rightarrow> 128 word \<Rightarrow> 128 word \<Rightarrow> 128 word" where
  "gf_mul 0 x v z = z"
| "gf_mul (Suc n) x v z =
     gf_mul n x (if bit v 0 then drop_bit 1 v XOR push_bit 120 0xE1 else drop_bit 1 v) (if bit x n then z XOR v else z)"

definition ghash_step :: "128 word \<Rightarrow> 128 word \<Rightarrow> bytes \<Rightarrow> 128 word" where
  "ghash_step h y b = gf_mul 128 (y XOR block_word (b @ replicate (16 - length b) 0)) h 0"

definition blocks :: "bytes \<Rightarrow> bytes list" where
  "blocks xs = chunks ((length xs + 15) div 16) 16 xs"

definition ghash :: "128 word \<Rightarrow> bytes \<Rightarrow> bytes \<Rightarrow> 128 word" where
  "ghash h aad ct =
     ghash_step h (foldl (ghash_step h) (foldl (ghash_step h) 0 (blocks aad)) (blocks ct))
       (put_be 8 (8 * length aad) @ put_be 8 (8 * length ct))"

text \<open>The key stream of a nonce, counting from two, and its use on a text.\<close>

definition gcm_keystream :: "(bytes \<Rightarrow> bytes) \<Rightarrow> bytes \<Rightarrow> nat \<Rightarrow> bytes" where
  "gcm_keystream E nonce n =
     concat (map (\<lambda>i. E (nonce @ PutUint32 (word_of_nat (i + 2)))) [0..<(n + 15) div 16])"

definition gcm_ctr :: "(bytes \<Rightarrow> bytes) \<Rightarrow> bytes \<Rightarrow> bytes \<Rightarrow> bytes" where
  "gcm_ctr E nonce xs = xor_bytes xs (gcm_keystream E nonce (length xs))"

definition gcm_tag :: "(bytes \<Rightarrow> bytes) \<Rightarrow> bytes \<Rightarrow> bytes \<Rightarrow> bytes \<Rightarrow> bytes" where
  "gcm_tag E nonce aad ct =
     word_block (ghash (block_word (E (replicate 16 0))) aad ct XOR block_word (E (nonce @ PutUint32 1)))"

definition gcm_seal :: "bytes \<Rightarrow> bytes \<Rightarrow> bytes \<Rightarrow> bytes \<Rightarrow> bytes" where
  "gcm_seal key nonce pt aad =
     (let ct = gcm_ctr (aes_block key) nonce pt in ct @ gcm_tag (aes_block key) nonce aad ct)"

definition gcm_open :: "bytes \<Rightarrow> bytes \<Rightarrow> bytes \<Rightarrow> bytes \<Rightarrow> bytes option" where
  "gcm_open key nonce sealed aad =
     (if length sealed < 16 then None
      else let ct = take (length sealed - 16) sealed; tag = drop (length sealed - 16) sealed in
        if tag = gcm_tag (aes_block key) nonce aad ct then Some (gcm_ctr (aes_block key) nonce ct) else None)"

section \<open>HMAC and HKDF\<close>

definition hmac_key :: "bytes \<Rightarrow> bytes" where
  "hmac_key k = (let k' = (if 64 < length k then Sum256 k else k) in k' @ replicate (64 - length k') 0)"

definition hmac_sha256 :: "bytes \<Rightarrow> bytes \<Rightarrow> bytes" where
  "hmac_sha256 k m =
     (let k' = hmac_key k in
      Sum256 (map (\<lambda>b. b XOR 0x5C) k' @ Sum256 (map (\<lambda>b. b XOR 0x36) k' @ m)))"

text \<open>\<^verbatim>\<open>hkdf.Key\<close> with SHA-256, no salt, and an output of at most 32 bytes.\<close>

definition hkdf_key :: "bytes \<Rightarrow> bytes \<Rightarrow> nat \<Rightarrow> bytes" where
  "hkdf_key secret info n = take n (hmac_sha256 (hmac_sha256 (replicate 32 0) secret) (info @ [1]))"

section \<open>Sealing and opening\<close>

lemma length_xor_bytes [simp]: "length (xor_bytes xs ys) = min (length xs) (length ys)"
  by (simp add: xor_bytes_def)

lemma xor_bytes_twice: "length xs \<le> length ks \<Longrightarrow> xor_bytes (xor_bytes xs ks) ks = xs"
  by (rule nth_equalityI) (simp_all add: xor_bytes_def xor.assoc)

lemma length_concat_const: "(\<And>x. x \<in> set xss \<Longrightarrow> length x = k) \<Longrightarrow> length (concat xss) = k * length xss"
  by (induction xss) auto

lemma expand_key_words:
  "\<forall>w \<in> set ws. length w = 4 \<Longrightarrow> 8 \<le> length ws \<Longrightarrow>
   length (expand_key n ws) = n + length ws \<and> (\<forall>w \<in> set (expand_key n ws). length w = 4)"
proof (induction n arbitrary: ws)
  case (Suc n)
  let ?i = "length ws" and ?t = "last ws"
  have l: "length ?t = 4" using Suc.prems by (metis last_in_set list.size(3) not_numeral_le_zero)
  let ?t' = "if ?i mod 8 = 0 then xor_bytes (map SubByte (rot_word ?t)) [rcon (?i div 8 - 1), 0, 0, 0]
    else if ?i mod 8 = 4 then map SubByte ?t else ?t"
  have "length ?t' = 4" using l by (auto simp: rot_word_def)
  moreover have "length (ws ! (?i - 8)) = 4" using Suc.prems by simp
  ultimately have x: "length (xor_bytes (ws ! (?i - 8)) ?t') = 4" by (simp only: length_xor_bytes)
  have e: "expand_key (Suc n) ws = expand_key n (ws @ [xor_bytes (ws ! (?i - 8)) ?t'])" by (simp only: expand_key.simps Let_def)
  have "\<forall>w \<in> set (ws @ [xor_bytes (ws ! (?i - 8)) ?t']). length w = 4" using x Suc.prems(1) by (simp only: set_append) auto
  from Suc.IH [OF this] Suc.prems(2) show ?case unfolding e by simp
qed simp

lemma length_chunks [simp]: "length (chunks n k xs) = n"
  by (induction n k xs rule: chunks.induct) auto

lemma chunks_words: "length xs = n * k \<Longrightarrow> w \<in> set (chunks n k xs) \<Longrightarrow> length w = k"
  by (induction n k xs rule: chunks.induct) auto

lemma length_round_key:
  assumes "length key = 32" "r < 15"
  shows "length (key_schedule key ! r) = 16"
proof -
  let ?ws = "expand_key 52 (chunks 8 4 key)"
  have "\<forall>w \<in> set (chunks 8 4 key). length w = 4" using chunks_words [of key 8 4] assms(1) by simp
  from expand_key_words [OF this, of 52] have w: "length ?ws = 60" "\<forall>w \<in> set ?ws. length w = 4" by simp_all
  have "length (concat (sub_slice (4 * r) (4 * r + 4) ?ws)) = 4 * length (sub_slice (4 * r) (4 * r + 4) ?ws)"
    by (rule length_concat_const) (use w(2) in \<open>auto simp: sub_slice_def dest!: in_set_takeD in_set_dropD\<close>)
  then show ?thesis using w(1) assms(2) by (simp add: key_schedule_def Let_def)
qed

lemma length_aes_block:
  assumes "length key = 32"
  shows "length (aes_block key blk) = 16"
proof -
  have "length (shift_rows s) = 16" for s by (simp add: shift_rows_def)
  then show ?thesis using length_round_key [OF assms, of 14] by (simp add: aes_block_def Let_def)
qed

lemma length_gcm_keystream:
  assumes "length key = 32"
  shows "n \<le> length (gcm_keystream (aes_block key) nonce n)"
proof -
  have "length (gcm_keystream (aes_block key) nonce n) = 16 * ((n + 15) div 16)"
    unfolding gcm_keystream_def by (subst length_concat_const [where k = 16]) (auto simp: length_aes_block [OF assms])
  then show ?thesis by linarith
qed

lemma length_gcm_ctr: "length key = 32 \<Longrightarrow> length (gcm_ctr (aes_block key) nonce xs) = length xs"
  using length_gcm_keystream [of key "length xs" nonce] by (simp add: gcm_ctr_def)

lemma gcm_ctr_twice:
  assumes "length key = 32"
  shows "gcm_ctr (aes_block key) nonce (gcm_ctr (aes_block key) nonce xs) = xs"
  using length_gcm_keystream [OF assms, of "length xs" nonce] length_gcm_ctr [OF assms, of nonce xs]
  by (simp add: gcm_ctr_def xor_bytes_twice)

lemma length_gcm_tag [simp]: "length (gcm_tag E nonce aad ct) = 16"
  by (simp add: gcm_tag_def word_block_def)

text \<open>The interface the code uses: a sealed text is sixteen bytes longer and opens to what was sealed.\<close>

locale aead =
  fixes seal :: "bytes \<Rightarrow> bytes \<Rightarrow> bytes \<Rightarrow> bytes \<Rightarrow> bytes"
    and unseal :: "bytes \<Rightarrow> bytes \<Rightarrow> bytes \<Rightarrow> bytes \<Rightarrow> bytes option"
    and valid :: "bytes \<Rightarrow> bool"
  assumes length_seal: "valid key \<Longrightarrow> length (seal key nonce pt aad) = length pt + 16"
    and open_seal: "valid key \<Longrightarrow> unseal key nonce (seal key nonce pt aad) aad = Some pt"
begin

lemma seal_inj: "valid key \<Longrightarrow> seal key nonce pt aad = seal key nonce pt' aad \<Longrightarrow> pt = pt'"
  using open_seal by (metis option.inject)

end

interpretation gcm: aead gcm_seal gcm_open "\<lambda>key. length key = 32"
proof unfold_locales
  fix key nonce pt aad :: bytes assume k: "length key = 32"
  show "length (gcm_seal key nonce pt aad) = length pt + 16" by (simp add: gcm_seal_def Let_def length_gcm_ctr [OF k])
  show "gcm_open key nonce (gcm_seal key nonce pt aad) aad = Some pt"
    by (simp add: gcm_open_def gcm_seal_def Let_def gcm_ctr_twice [OF k])
qed

end
