(* ===== verification/Stream_Cipher.thy ===== *)
theory Stream_Cipher
  imports Crypto_Primitives
begin

text \<open>
  Encryption with AES-256-GCM (\<^verbatim>\<open>src/src/crypto/crypto.go\<close>, \<^verbatim>\<open>streaming.go\<close>): single messages, the chunked
  stream format with its integrity footer and its two legacy decoders, and the derivation and wrapping
  of tenant keys. Random bytes are arguments.
\<close>

section \<open>Ciphers\<close>

definition KeySize :: nat where "KeySize = 32"
definition NonceSize :: nat where "NonceSize = 12"
definition TagSize :: nat where "TagSize = 16"
definition MaxKeyHexSize :: nat where "MaxKeyHexSize = 64"
definition ChunkSize :: nat where "ChunkSize = 4096"
definition MinChunkSize :: nat where "MinChunkSize = 512"
definition ChunkHeader :: nat where "ChunkHeader = 4"
definition MaxChunkSize :: nat where "MaxChunkSize = ChunkSize + ChunkHeader + NonceSize + TagSize"
definition streamSeedSize :: nat where "streamSeedSize = 8"

definition ErrInvalidKeySize :: err where "ErrInvalidKeySize = Plain ''crypto: key must be 32 bytes''"
definition ErrInvalidHexKey :: err where "ErrInvalidHexKey = Plain ''crypto: encryption_key must be 64 hex characters (256-bit)''"
definition ErrCiphertextTooShort :: err where "ErrCiphertextTooShort = Plain ''crypto: ciphertext too short''"
definition ErrTampered :: err where "ErrTampered = Plain ''crypto: authentication failed (tampered data)''"
definition ErrStreamFormat :: err where "ErrStreamFormat = Wrap EBADMSG"
definition ErrStreamTruncated :: err where "ErrStreamTruncated = Wrap EIO"

record Cipher =
  ci_key :: bytes
  ci_chunkSize :: nat

definition NewCipher :: "bytes \<Rightarrow> Cipher res" where
  "NewCipher key = (if length key \<noteq> KeySize then Inl ErrInvalidKeySize else Inr \<lparr>ci_key = key, ci_chunkSize = ChunkSize\<rparr>)"

definition SetStreamChunkSize :: "int \<Rightarrow> Cipher \<Rightarrow> err option \<times> Cipher" where
  "SetStreamChunkSize n c =
     (if n < int MinChunkSize \<or> int MaxChunkSize < n then (Some (Wrap EINVAL), c) else (None, c\<lparr>ci_chunkSize := nat n\<rparr>))"

definition NewCipherFromHex :: "string \<Rightarrow> Cipher res" where
  "NewCipherFromHex hexKey =
     (if length hexKey \<noteq> MaxKeyHexSize then Inl ErrInvalidHexKey
      else case DecodeString hexKey of None \<Rightarrow> Inl (Plain ''crypto: failed to decode hex key'') | Some key \<Rightarrow> NewCipher key)"

definition Encrypt :: "bytes \<Rightarrow> bytes \<Rightarrow> Cipher \<Rightarrow> bytes" where
  "Encrypt nonce plaintext c = nonce @ gcm_seal (ci_key c) nonce plaintext []"

definition Decrypt :: "bytes \<Rightarrow> Cipher \<Rightarrow> bytes res" where
  "Decrypt ciphertext c =
     (if length ciphertext < NonceSize + TagSize then Inl ErrCiphertextTooShort
      else case gcm_open (ci_key c) (take NonceSize ciphertext) (drop NonceSize ciphertext) [] of
        None \<Rightarrow> Inl ErrTampered
      | Some plaintext \<Rightarrow> Inr plaintext)"

section \<open>The stream format\<close>

text \<open>
  \<^verbatim>\<open>io.ReadFull\<close> does not depend on how a stream is cut into reads, so a reader is the bytes it delivers
  and how it ends. What a function writes is its first result.
\<close>

definition read_full :: "nat \<Rightarrow> bytes \<Rightarrow> err option \<Rightarrow> (bytes \<times> bytes) res" where
  "read_full n bs fin =
     (if n \<le> length bs then Inr (take n bs, drop n bs)
      else Inl (case fin of Some e \<Rightarrow> e | None \<Rightarrow> if bs = [] then Plain ''EOF'' else Plain ''unexpected EOF''))"

definition StreamVersion :: byte where "StreamVersion = 4"
definition StreamVersionLegacy2 :: byte where "StreamVersionLegacy2 = 2"
definition StreamVersionLegacy3 :: byte where "StreamVersionLegacy3 = 3"
definition streamFooterAAD :: bytes where "streamFooterAAD = str_bytes ''momo:stream-footer:v1''"
definition footerNonceIndex :: "32 word" where "footerNonceIndex = 0xFFFFFFFF"

definition stream_nonce :: "bytes \<Rightarrow> 32 word \<Rightarrow> bytes" where
  "stream_nonce seed i = seed @ PutUint32 i"

definition sealed_frame :: "bytes \<Rightarrow> bytes" where
  "sealed_frame sealed = PutUint32 (word_of_nat (length sealed)) @ sealed"

definition data_frame :: "bytes \<Rightarrow> bytes \<Rightarrow> 32 word \<Rightarrow> bytes \<Rightarrow> bytes" where
  "data_frame key seed i pt = sealed_frame (gcm_seal key (stream_nonce seed i) pt [])"

definition writeStreamFooter :: "bytes \<Rightarrow> bytes \<Rightarrow> 32 word \<Rightarrow> bytes" where
  "writeStreamFooter key seed chunkCount =
     sealed_frame (gcm_seal key (stream_nonce seed footerNonceIndex) (PutUint32 chunkCount) streamFooterAAD)"

text \<open>
  The loop over the chunks returns what it writes and the number of chunks, or the reader's error. The
  chunk size is never zero.
\<close>

function encrypt_loop :: "bytes \<Rightarrow> bytes \<Rightarrow> nat \<Rightarrow> 32 word \<Rightarrow> bytes \<Rightarrow> err option \<Rightarrow> bytes \<times> 32 word res" where
  "encrypt_loop key seed chunk chunkIndex pt fin =
     (if length pt < chunk \<or> chunk = 0 then
        (case fin of
           Some e \<Rightarrow> ([], Inl (wrap e))
         | None \<Rightarrow> if pt = [] then ([], Inr chunkIndex)
                   else (data_frame key seed chunkIndex pt, Inr (chunkIndex + 1)))
      else let (out, r) = encrypt_loop key seed chunk (chunkIndex + 1) (drop chunk pt) fin in
        (data_frame key seed chunkIndex (take chunk pt) @ out, r))"
  by pat_completeness auto
termination by (relation "measure (\<lambda>(key, seed, chunk, i, pt, fin). length pt)") auto

declare encrypt_loop.simps [simp del]

definition stream_chunk :: "Cipher \<Rightarrow> nat" where
  "stream_chunk c =
     (if ci_chunkSize c < MinChunkSize \<or> MaxChunkSize < ci_chunkSize c then ChunkSize else ci_chunkSize c)"

definition stream_header :: "nat \<Rightarrow> bytes" where
  "stream_header chunk = [StreamVersion, word_of_nat (chunk div 256), word_of_nat chunk]"

definition EncryptStream :: "bytes \<Rightarrow> bytes \<Rightarrow> err option \<Rightarrow> Cipher \<Rightarrow> bytes \<times> err option" where
  "EncryptStream seed pt fin c =
     (let chunk = stream_chunk c; pre = stream_header chunk @ seed in
      case encrypt_loop (ci_key c) seed chunk 0 pt fin of
        (out, Inl e) \<Rightarrow> (pre @ out, Some e)
      | (out, Inr chunkCount) \<Rightarrow> (pre @ out @ writeStreamFooter (ci_key c) seed chunkCount, None))"

text \<open>The loop of the decoders with a footer, which the current and the previous format share.\<close>

definition footer_result :: "bytes \<Rightarrow> 32 word \<Rightarrow> err option" where
  "footer_result plaintext chunkIndex =
     (if length plaintext \<noteq> 4 then Some ErrStreamFormat
      else if Uint32 plaintext \<noteq> chunkIndex then Some ErrStreamFormat
      else None)"

function decrypt_loop :: "bytes \<Rightarrow> bytes \<Rightarrow> 32 word \<Rightarrow> bytes \<Rightarrow> err option \<Rightarrow> bytes \<times> err option" where
  "decrypt_loop key seed chunkIndex ct fin =
     (case read_full ChunkHeader ct fin of
        Inl e \<Rightarrow> ([], Some (if e = Plain ''EOF'' then ErrStreamTruncated else e))
      | Inr (lenBuf, ct1) \<Rightarrow>
          let sealedLen = unat (Uint32 lenBuf) in
          if MaxChunkSize < sealedLen \<or> sealedLen = 0 then ([], Some ErrStreamFormat)
          else case read_full sealedLen ct1 fin of
              Inl e \<Rightarrow> ([], Some (wrap e))
            | Inr (sealed, ct2) \<Rightarrow>
                (case gcm_open key (stream_nonce seed chunkIndex) sealed [] of
                   None \<Rightarrow>
                     (case gcm_open key (stream_nonce seed footerNonceIndex) sealed streamFooterAAD of
                        None \<Rightarrow> ([], Some ErrTampered)
                      | Some plaintext \<Rightarrow> ([], footer_result plaintext chunkIndex))
                 | Some plaintext \<Rightarrow>
                     let (out, e) = decrypt_loop key seed (chunkIndex + 1) ct2 fin in (plaintext @ out, e)))"
  by pat_completeness auto
termination
  by (relation "measure (\<lambda>(key, seed, i, ct, fin). length ct)") (auto simp: read_full_def ChunkHeader_def split: if_splits)

declare decrypt_loop.simps [simp del]

function decrypt_legacy_loop :: "bytes \<Rightarrow> bytes \<Rightarrow> 32 word \<Rightarrow> bytes \<Rightarrow> err option \<Rightarrow> bytes \<times> err option" where
  "decrypt_legacy_loop key seed chunkIndex ct fin =
     (case read_full ChunkHeader ct fin of
        Inl e \<Rightarrow> ([], if e = Plain ''EOF'' then None else Some (wrap e))
      | Inr (lenBuf, ct1) \<Rightarrow>
          let sealedLen = unat (Uint32 lenBuf) in
          if sealedLen = 0 \<or> MaxChunkSize < sealedLen then ([], Some ErrStreamFormat)
          else case read_full sealedLen ct1 fin of
              Inl e \<Rightarrow> ([], Some (wrap e))
            | Inr (sealed, ct2) \<Rightarrow>
                (case gcm_open key (stream_nonce seed chunkIndex) sealed [] of
                   None \<Rightarrow> ([], Some ErrTampered)
                 | Some plaintext \<Rightarrow>
                     let (out, e) = decrypt_legacy_loop key seed (chunkIndex + 1) ct2 fin in (plaintext @ out, e)))"
  by pat_completeness auto
termination
  by (relation "measure (\<lambda>(key, seed, i, ct, fin). length ct)") (auto simp: read_full_def ChunkHeader_def split: if_splits)

declare decrypt_legacy_loop.simps [simp del]

definition decryptStreamV4 :: "bytes \<Rightarrow> err option \<Rightarrow> Cipher \<Rightarrow> bytes \<times> err option" where
  "decryptStreamV4 ct fin c =
     (case read_full (streamSeedSize + 2) ct fin of
        Inl e \<Rightarrow> ([], Some (wrap e))
      | Inr (head, rest) \<Rightarrow>
          let declared = unat (head ! 0) * 256 + unat (head ! 1) in
          if declared < MinChunkSize \<or> MaxChunkSize < declared then ([], Some ErrStreamFormat)
          else decrypt_loop (ci_key c) (drop 2 head) 0 rest fin)"

definition decryptStreamV3 :: "bytes \<Rightarrow> err option \<Rightarrow> Cipher \<Rightarrow> bytes \<times> err option" where
  "decryptStreamV3 ct fin c =
     (case read_full streamSeedSize ct fin of
        Inl e \<Rightarrow> ([], Some (wrap e))
      | Inr (seed, rest) \<Rightarrow> decrypt_loop (ci_key c) seed 0 rest fin)"

definition decryptStreamLegacy :: "bytes \<Rightarrow> err option \<Rightarrow> Cipher \<Rightarrow> bytes \<times> err option" where
  "decryptStreamLegacy ct fin c =
     (case read_full streamSeedSize ct fin of
        Inl e \<Rightarrow> ([], Some (wrap e))
      | Inr (seed, rest) \<Rightarrow> decrypt_legacy_loop (ci_key c) seed 0 rest fin)"

definition DecryptStream :: "bytes \<Rightarrow> err option \<Rightarrow> Cipher \<Rightarrow> bytes \<times> err option" where
  "DecryptStream ct fin c =
     (case read_full 1 ct fin of
        Inl e \<Rightarrow> ([], Some (wrap e))
      | Inr (v, rest) \<Rightarrow>
          if v ! 0 = StreamVersion then decryptStreamV4 rest fin c
          else if v ! 0 = StreamVersionLegacy3 then decryptStreamV3 rest fin c
          else if v ! 0 = StreamVersionLegacy2 then decryptStreamLegacy rest fin c
          else ([], Some ErrStreamFormat))"

section \<open>Tenant keys\<close>

definition derive_info :: "string \<Rightarrow> bytes \<Rightarrow> bytes" where
  "derive_info tenant ctx =
     PutUint32 (word_of_nat (length tenant)) @ str_bytes tenant @ PutUint32 (word_of_nat (length ctx)) @ ctx"

definition DeriveKey :: "bytes \<Rightarrow> string \<Rightarrow> bytes \<Rightarrow> bytes res" where
  "DeriveKey masterKey tenant ctx =
     (if length masterKey \<noteq> KeySize then Inl ErrInvalidKeySize
      else Inr (hkdf_key masterKey (derive_info tenant ctx) KeySize))"

definition appendDomainTenantLabel :: "bytes \<Rightarrow> string \<Rightarrow> bytes" where
  "appendDomainTenantLabel domain tenantID =
     domain @ PutUint32 (word_of_nat (length tenantID)) @ str_bytes tenantID"

definition DomainTenantKEK :: bytes where "DomainTenantKEK = str_bytes ''momo/tenant/kek''"
definition DomainTenantOPRFShare :: bytes where "DomainTenantOPRFShare = str_bytes ''momo/tenant/oprf''"
definition DomainTenantAuthToken :: bytes where "DomainTenantAuthToken = str_bytes ''momo/tenant/auth''"

record TenantKeys =
  tk_KEK :: bytes
  tk_OPRFShare :: bytes
  tk_AuthToken :: bytes

definition DeriveTenantKeys :: "bytes \<Rightarrow> string \<Rightarrow> TenantKeys res" where
  "DeriveTenantKeys rootKEK tenantID =
     (if length rootKEK \<noteq> KeySize then Inl ErrInvalidKeySize
      else Inr \<lparr>tk_KEK = hkdf_key rootKEK (appendDomainTenantLabel DomainTenantKEK tenantID) 32,
                tk_OPRFShare = hkdf_key rootKEK (appendDomainTenantLabel DomainTenantOPRFShare tenantID) 32,
                tk_AuthToken = hkdf_key rootKEK (appendDomainTenantLabel DomainTenantAuthToken tenantID) 32\<rparr>)"

definition DeriveTenantOPRFShare :: "bytes \<Rightarrow> string \<Rightarrow> bytes res" where
  "DeriveTenantOPRFShare rootShare tenantID =
     (if length rootShare \<noteq> 32 then Inl ErrInvalidKeySize
      else Inr (hkdf_key rootShare (appendDomainTenantLabel DomainTenantOPRFShare tenantID) 32))"

definition wrap_nonce :: bytes where "wrap_nonce = str_bytes ''momo-wrap'' @ replicate 3 0"
definition wrap_aad :: "string \<Rightarrow> bytes" where "wrap_aad tenantID = str_bytes ''tenant-wrap'' @ str_bytes tenantID"

definition WrapTenantKEK :: "bytes \<Rightarrow> bytes \<Rightarrow> string \<Rightarrow> bytes res" where
  "WrapTenantKEK rootKEK tenantKEK tenantID =
     (if length rootKEK \<noteq> KeySize \<or> length tenantKEK \<noteq> 32 then Inl ErrInvalidKeySize
      else Inr (gcm_seal rootKEK wrap_nonce tenantKEK (wrap_aad tenantID)))"

definition UnwrapTenantKEK :: "bytes \<Rightarrow> bytes \<Rightarrow> string \<Rightarrow> bytes res" where
  "UnwrapTenantKEK rootKEK wrappedKEK tenantID =
     (if length rootKEK \<noteq> KeySize then Inl ErrInvalidKeySize
      else case gcm_open rootKEK wrap_nonce wrappedKEK (wrap_aad tenantID) of
        None \<Rightarrow> Inl ErrTampered
      | Some plaintext \<Rightarrow> if length plaintext \<noteq> 32 then Inl ErrInvalidKeySize else Inr plaintext)"

definition RotateTenantKEK :: "bytes \<Rightarrow> bytes \<Rightarrow> bytes \<Rightarrow> string \<Rightarrow> bytes res" where
  "RotateTenantKEK oldRootKEK newRootKEK wrappedTenantKEK tenantID =
     (case UnwrapTenantKEK oldRootKEK wrappedTenantKEK tenantID of
        Inl e \<Rightarrow> Inl (wrap e)
      | Inr tenantKEK \<Rightarrow> WrapTenantKEK newRootKEK tenantKEK tenantID)"

section \<open>Streams decode to what was encoded\<close>

named_theorems sizes

lemmas [sizes] = KeySize_def NonceSize_def TagSize_def ChunkSize_def MinChunkSize_def ChunkHeader_def
  MaxChunkSize_def streamSeedSize_def

lemma read_full_append [simp]: "length xs = n \<Longrightarrow> read_full n (xs @ ys) fin = Inr (xs, ys)"
  by (auto simp: read_full_def)

lemma length_sealed_frame [simp]: "length (sealed_frame s) = 4 + length s"
  by (simp add: sealed_frame_def)

lemma unat_frame_length: "length s \<le> MaxChunkSize \<Longrightarrow> unat (word_of_nat (length s) :: 32 word) = length s"
  by (simp add: unat_of_nat sizes)

lemma decrypt_frame:
  assumes "0 < length s" "length s \<le> MaxChunkSize"
  shows "decrypt_loop key seed i (sealed_frame s @ r) fin =
    (case gcm_open key (stream_nonce seed i) s [] of
       None \<Rightarrow> (case gcm_open key (stream_nonce seed footerNonceIndex) s streamFooterAAD of
                 None \<Rightarrow> ([], Some ErrTampered) | Some pt \<Rightarrow> ([], footer_result pt i))
     | Some pt \<Rightarrow> let (out, e) = decrypt_loop key seed (i + 1) r fin in (pt @ out, e))"
proof -
  have "read_full ChunkHeader (sealed_frame s @ r) fin = Inr (PutUint32 (word_of_nat (length s)), s @ r)"
    by (simp add: sealed_frame_def ChunkHeader_def)
  with assms show ?thesis by (subst decrypt_loop.simps) (simp add: unat_frame_length del: of_nat_eq_0_iff)
qed

lemma decrypt_cut_frame:
  assumes "m < length (sealed_frame s)" "0 < length s" "length s \<le> MaxChunkSize"
  shows "\<exists>e. decrypt_loop key seed i (take m (sealed_frame s)) None = ([], Some e)"
proof (cases "m < 4")
  case True
  then show ?thesis by (subst decrypt_loop.simps) (simp add: read_full_def ChunkHeader_def)
next
  case False
  then have "take m (sealed_frame s) = PutUint32 (word_of_nat (length s)) @ take (m - 4) s" by (simp add: sealed_frame_def)
  moreover have "read_full (length s) (take (m - 4) s) None = Inl (if take (m - 4) s = [] then Plain ''EOF'' else Plain ''unexpected EOF'')"
    using assms(1) False by (auto simp: read_full_def)
  ultimately show ?thesis using assms(2,3)
    by (subst decrypt_loop.simps) (simp add: ChunkHeader_def unat_frame_length del: of_nat_eq_0_iff)
qed

text \<open>The frames of the data chunks decode to the plaintext, whatever follows them.\<close>

lemma data_frame_opens:
  assumes "length key = 32" "length pt + 16 \<le> MaxChunkSize"
  shows "decrypt_loop key seed i (data_frame key seed i pt @ r) fin =
    (let (out, e) = decrypt_loop key seed (i + 1) r fin in (pt @ out, e))"
  using assms by (simp add: data_frame_def decrypt_frame gcm.length_seal gcm.open_seal)

lemma decrypt_encrypt_loop:
  assumes "length key = 32" "0 < chunk" "chunk + 16 \<le> MaxChunkSize"
  shows "encrypt_loop key seed chunk i pt None = (out, r) \<Longrightarrow>
    \<exists>n. r = Inr n \<and> decrypt_loop key seed i (out @ rest) fin =
      (let (out', e) = decrypt_loop key seed n rest fin in (pt @ out', e))"
proof (induction "length pt" arbitrary: pt i out rule: less_induct)
  case less
  show ?case
  proof (cases "length pt < chunk")
    case True
    with less.prems assms show ?thesis
      by (subst (asm) encrypt_loop.simps) (auto simp: data_frame_opens split: if_splits prod.splits)
  next
    case False
    obtain o' where o': "encrypt_loop key seed chunk (i + 1) (drop chunk pt) None = (o', r)"
      "out = data_frame key seed i (take chunk pt) @ o'"
      using less.prems False assms(2) by (subst (asm) encrypt_loop.simps) (auto split: prod.splits)
    have "length (drop chunk pt) < length pt" using False assms(2) by simp
    from less.hyps [OF this o'(1)] obtain n where n: "r = Inr n"
      "decrypt_loop key seed (i + 1) (o' @ rest) fin =
        (let (out', e) = decrypt_loop key seed n rest fin in (drop chunk pt @ out', e))" by auto
    have "length (take chunk pt) + 16 \<le> MaxChunkSize" using assms(3) by simp
    from data_frame_opens [OF assms(1) this, of seed i "o' @ rest" fin] n(2)
    show ?thesis using n(1) o'(2) by (auto simp: Let_def split: prod.splits)
  qed
qed

text \<open>A cut inside the data chunks or inside what must follow them ends in an error.\<close>

lemma decrypt_cut_loop:
  assumes "length key = 32" "0 < chunk" "chunk + 16 \<le> MaxChunkSize"
    and tail: "\<And>n m. m < length (foot n) \<Longrightarrow> \<exists>e. decrypt_loop key seed n (take m (foot n)) None = ([], Some e)"
  shows "encrypt_loop key seed chunk i pt None = (out, Inr n) \<Longrightarrow> m < length (out @ foot n) \<Longrightarrow>
    \<exists>k e. decrypt_loop key seed i (take m (out @ foot n)) None = (take k pt, Some e)"
proof (induction "length pt" arbitrary: pt i out m rule: less_induct)
  case less
  define buf where "buf = (if length pt < chunk then pt else take chunk pt)"
  have buf: "length buf + 16 \<le> MaxChunkSize" "buf @ drop chunk pt = pt" using assms(3) by (auto simp: buf_def)
  define fr where "fr = gcm_seal key (stream_nonce seed i) buf []"
  have fr: "0 < length fr" "length fr \<le> MaxChunkSize" "data_frame key seed i buf = sealed_frame fr"
    using buf(1) by (simp_all add: fr_def gcm.length_seal [OF assms(1)] data_frame_def)
  show ?case
  proof (cases "pt = []")
    case True
    then have "out = [] \<and> n = i" using less.prems(1) assms(2) by (subst (asm) encrypt_loop.simps) auto
    then show ?thesis using tail [of m n] less.prems(2) True by auto
  next
    case False
    obtain o' where o': "out = sealed_frame fr @ o'"
      "length (drop chunk pt) < length pt" "encrypt_loop key seed chunk (i + 1) (drop chunk pt) None = (o', Inr n)"
    proof (cases "length pt < chunk")
      case True
      then have "out = sealed_frame fr \<and> n = i + 1" "drop chunk pt = []"
        using less.prems(1) False fr(3) by (subst (asm) encrypt_loop.simps, auto simp: buf_def)+
      moreover have "encrypt_loop key seed chunk (i + 1) [] None = ([], Inr (i + 1))"
        using assms(2) by (subst encrypt_loop.simps) simp
      ultimately show ?thesis using that [of "[]"] False by simp
    next
      case long: False
      then show ?thesis using less.prems(1) fr(3) assms(2) that
        by (subst (asm) encrypt_loop.simps) (auto simp: buf_def split: prod.splits)
    qed
    show ?thesis
    proof (cases "m < length (sealed_frame fr)")
      case True
      then have "take m (out @ foot n) = take m (sealed_frame fr)" by (simp add: o'(1))
      then show ?thesis using decrypt_cut_frame [OF True fr(1,2), of key seed i] by (metis take0)
    next
      case False
      define m' where "m' = m - length (sealed_frame fr)"
      have "take m (out @ foot n) = sealed_frame fr @ take m' (o' @ foot n)" using False by (simp add: o'(1) m'_def)
      moreover have "m' < length (o' @ foot n)" using False less.prems(2) by (simp add: o'(1) m'_def)
      from less.hyps [OF o'(2,3) this] obtain k e where
        "decrypt_loop key seed (i + 1) (take m' (o' @ foot n)) None = (take k (drop chunk pt), Some e)" by auto
      ultimately have "decrypt_loop key seed i (take m (out @ foot n)) None = (buf @ take k (drop chunk pt), Some e)"
        using data_frame_opens [OF assms(1) buf(1), of seed i "take m' (o' @ foot n)" None] by (simp add: fr(3))
      moreover have "buf @ take k (drop chunk pt) = take (length buf + k) pt"
        by (subst (2) buf(2) [symmetric]) simp
      ultimately show ?thesis by metis
    qed
  qed
qed

text \<open>The whole stream: the header, the data chunks and the footer.\<close>

lemma stream_chunk_bounds: "512 \<le> stream_chunk c" "stream_chunk c \<le> 4128"
  by (auto simp: stream_chunk_def sizes)

lemma EncryptStream_parts:
  assumes "length (ci_key c) = 32" "stream_chunk c + 16 \<le> MaxChunkSize"
  obtains out n where "encrypt_loop (ci_key c) seed (stream_chunk c) 0 pt None = (out, Inr n)"
    "EncryptStream seed pt None c =
      (stream_header (stream_chunk c) @ seed @ out @ writeStreamFooter (ci_key c) seed n, None)"
proof -
  obtain out r where l: "encrypt_loop (ci_key c) seed (stream_chunk c) 0 pt None = (out, r)" by fastforce
  have "0 < stream_chunk c" using stream_chunk_bounds(1) [of c] by simp
  from decrypt_encrypt_loop [OF assms(1) this assms(2) l] obtain n where "r = Inr n" by auto
  then show ?thesis using that l by (simp add: EncryptStream_def Let_def)
qed

lemma stream_header_declares:
  assumes "k < 65536"
  shows "unat (stream_header k ! 1) * 256 + unat (stream_header k ! 2) = k" "stream_header k ! 0 = 4" "length (stream_header k) = 3"
proof -
  have "k div 256 < 256" using assms by simp
  then have "unat (word_of_nat (k div 256) :: byte) = k div 256" by (simp add: unat_of_nat)
  moreover have "unat (word_of_nat k :: byte) = k mod 256" by (simp add: unat_of_nat)
  ultimately show "unat (stream_header k ! 1) * 256 + unat (stream_header k ! 2) = k" by (simp add: stream_header_def)
qed (simp_all add: stream_header_def StreamVersion_def)

lemma DecryptStream_body:
  assumes "length seed = 8"
  shows "DecryptStream (stream_header (stream_chunk c) @ seed @ body) fin c = decrypt_loop (ci_key c) seed 0 body fin"
proof -
  define h where "h = stream_header (stream_chunk c)"
  have k: "stream_chunk c < 65536" using stream_chunk_bounds(2) [of c] by simp
  note d = stream_header_declares [OF k, folded h_def]
  obtain a b v where h: "h = [v, a, b]" using d(3) by (auto simp: numeral_3_eq_3 length_Suc_conv)
  have "DecryptStream (h @ seed @ body) fin c = decryptStreamV4 ([a, b] @ seed @ body) fin c"
    using d(2) by (simp add: DecryptStream_def h read_full_def StreamVersion_def)
  also have "\<dots> = decrypt_loop (ci_key c) seed 0 body fin"
    using d(1) stream_chunk_bounds [of c] assms read_full_append [of "[a, b] @ seed" 10 body fin]
    by (simp add: decryptStreamV4_def h sizes)
  finally show ?thesis by (simp add: h_def)
qed

definition footer_sealed :: "bytes \<Rightarrow> bytes \<Rightarrow> 32 word \<Rightarrow> bytes" where
  "footer_sealed key seed n = gcm_seal key (stream_nonce seed footerNonceIndex) (PutUint32 n) streamFooterAAD"

lemma footer_sealed:
  assumes "length key = 32"
  shows "writeStreamFooter key seed n = sealed_frame (footer_sealed key seed n)" "length (footer_sealed key seed n) = 20"
    "gcm_open key (stream_nonce seed footerNonceIndex) (footer_sealed key seed n) streamFooterAAD = Some (PutUint32 n)"
  by (simp_all add: writeStreamFooter_def footer_sealed_def gcm.length_seal [OF assms] gcm.open_seal [OF assms])

lemma footer_decodes:
  assumes "length key = 32" "gcm_open key (stream_nonce seed n) (footer_sealed key seed n) [] = None"
  shows "decrypt_loop key seed n (writeStreamFooter key seed n) fin = ([], None)"
  using assms(2) footer_sealed [OF assms(1), of seed n] decrypt_frame [of "footer_sealed key seed n" key seed n "[]" fin]
  by (simp add: footer_result_def sizes)

text \<open>The footer opens as a data chunk only when its two tags coincide.\<close>

definition footer_tag_collides :: "bytes \<Rightarrow> bytes \<Rightarrow> 32 word \<Rightarrow> bool" where
  "footer_tag_collides key seed n =
     (let ct = gcm_ctr (aes_block key) (stream_nonce seed footerNonceIndex) (PutUint32 n) in
      gcm_tag (aes_block key) (stream_nonce seed n) [] ct =
      gcm_tag (aes_block key) (stream_nonce seed footerNonceIndex) streamFooterAAD ct)"

lemma footer_not_data:
  assumes "length key = 32" "\<not> footer_tag_collides key seed n"
  shows "gcm_open key (stream_nonce seed n) (footer_sealed key seed n) [] = None"
  using assms(2) length_gcm_ctr [OF assms(1)]
  by (auto simp: footer_tag_collides_def gcm_open_def footer_sealed_def gcm_seal_def Let_def)

definition stream_chunks :: "nat \<Rightarrow> bytes \<Rightarrow> nat" where
  "stream_chunks chunk pt = (length pt + chunk - 1) div chunk"

lemma encrypt_loop_count:
  assumes "0 < chunk"
  shows "snd (encrypt_loop key seed chunk i pt None) = Inr (i + word_of_nat (stream_chunks chunk pt))"
proof (induction "length pt" arbitrary: pt i rule: less_induct)
  case less
  show ?case
  proof (cases "length pt < chunk")
    case True
    have "stream_chunks chunk pt = (if pt = [] then 0 else 1)"
    proof (cases "pt = []")
      case False
      then have "length pt + chunk - 1 = chunk + (length pt - 1)" by (cases pt) auto
      then have "(length pt + chunk - 1) div chunk = Suc ((length pt - 1) div chunk)" using assms by (simp only: div_add_self1)
      then show ?thesis using False True by (simp add: stream_chunks_def)
    qed (use assms in \<open>simp add: stream_chunks_def\<close>)
    with True show ?thesis by (subst encrypt_loop.simps) simp
  next
    case False
    then have "length (drop chunk pt) < length pt" using assms by simp
    note IH = less.hyps [OF this, of "i + 1"]
    have "length pt + chunk - 1 = chunk + (length (drop chunk pt) + chunk - 1)" using False assms by simp
    then have "stream_chunks chunk pt = Suc (stream_chunks chunk (drop chunk pt))"
      unfolding stream_chunks_def using assms by (simp only: div_add_self1 split: if_splits)
    with IH False assms show ?thesis by (subst encrypt_loop.simps) (simp add: case_prod_beta add.assoc)
  qed
qed

definition stream_count :: "Cipher \<Rightarrow> bytes \<Rightarrow> 32 word" where
  "stream_count c pt = word_of_nat (stream_chunks (stream_chunk c) pt)"

lemma stream_roundtrip:
  assumes "length (ci_key c) = 32" "length seed = 8" "stream_chunk c + 16 \<le> MaxChunkSize"
  shows "DecryptStream (fst (EncryptStream seed pt None c)) fin c = (pt, None)
    \<or> footer_tag_collides (ci_key c) seed (stream_count c pt)"
proof (rule disjCI)
  assume nc: "\<not> footer_tag_collides (ci_key c) seed (stream_count c pt)"
  obtain out n where p: "encrypt_loop (ci_key c) seed (stream_chunk c) 0 pt None = (out, Inr n)"
    "EncryptStream seed pt None c = (stream_header (stream_chunk c) @ seed @ out @ writeStreamFooter (ci_key c) seed n, None)"
    by (rule EncryptStream_parts [OF assms(1,3)])
  have pos: "0 < stream_chunk c" using stream_chunk_bounds(1) [of c] by simp
  have n: "n = stream_count c pt" using encrypt_loop_count [OF pos, of "ci_key c" seed 0 pt] p(1) by (simp add: stream_count_def)
  note f = footer_decodes [OF assms(1) footer_not_data [OF assms(1) nc], of fin]
  show "DecryptStream (fst (EncryptStream seed pt None c)) fin c = (pt, None)"
    using decrypt_encrypt_loop [OF assms(1) pos assms(3) p(1), of "writeStreamFooter (ci_key c) seed n" fin] f
    by (auto simp: p(2) DecryptStream_body [OF assms(2)] n)
qed

text \<open>
  C10: What \<^verbatim>\<open>EncryptStream\<close> writes, \<^verbatim>\<open>DecryptStream\<close> turns back into the plaintext, for every plaintext and every
  chunk size up to 4112 bytes; the one exception is a footer whose GCM tag is also its tag as a data chunk.
\<close>

theorem DecryptStream_EncryptStream:
  assumes "length (ci_key c) = 32" "length seed = 8" "stream_chunk c + 16 \<le> MaxChunkSize"
  shows "DecryptStream (fst (EncryptStream seed pt None c)) fin c = (pt, None)
    \<or> footer_tag_collides (ci_key c) seed (stream_count c pt)"
  using assms by (rule stream_roundtrip)

definition demo_cipher :: Cipher where "demo_cipher = \<lparr>ci_key = replicate 32 7, ci_chunkSize = 512\<rparr>"

theorem DecryptStream_EncryptStream_witness:
  "DecryptStream (fst (EncryptStream (replicate 8 1) (replicate 600 2) None demo_cipher)) None demo_cipher = (replicate 600 2, None)
   \<or> footer_tag_collides (replicate 32 7) (replicate 8 1) (word_of_nat 2)"
  using DecryptStream_EncryptStream [of demo_cipher "replicate 8 1" "replicate 600 2" None]
  by (simp add: demo_cipher_def stream_count_def stream_chunks_def stream_chunk_def sizes)

text \<open>
  C11: A stream that lost any number of bytes at its end is never accepted: the decoder returns an error after
  writing a prefix of the plaintext.
\<close>

theorem DecryptStream_truncated:
  assumes "length (ci_key c) = 32" "length seed = 8" "stream_chunk c + 16 \<le> MaxChunkSize"
    and "m < length (fst (EncryptStream seed pt None c))"
  shows "\<exists>k e. DecryptStream (take m (fst (EncryptStream seed pt None c))) None c = (take k pt, Some e)"
proof -
  let ?h = "stream_header (stream_chunk c)"
  obtain out n where p: "encrypt_loop (ci_key c) seed (stream_chunk c) 0 pt None = (out, Inr n)"
    "EncryptStream seed pt None c = (?h @ seed @ out @ writeStreamFooter (ci_key c) seed n, None)"
    by (rule EncryptStream_parts [OF assms(1,3)])
  have h: "length ?h = 3" "?h ! 0 = 4" using stream_header_declares [of "stream_chunk c"] stream_chunk_bounds(2) [of c] by simp_all
  show ?thesis
  proof (cases "m < 11")
    case True
    have "\<exists>e. DecryptStream (take m (?h @ seed @ r)) None c = ([], Some e)" for r
    proof (cases "m = 0")
      case False
      then obtain j where j: "m = Suc j" by (cases m) auto
      have "take m (?h @ seed @ r) = 4 # take j (tl ?h @ seed @ r)"
        using h by (cases ?h) (auto simp: j)
      moreover have "length (take j (tl ?h @ seed @ r)) < 10" using True j by simp
      ultimately show ?thesis
        by (simp add: DecryptStream_def decryptStreamV4_def read_full_def StreamVersion_def sizes)
    qed (simp add: DecryptStream_def read_full_def)
    then show ?thesis using p(2) by (metis fst_conv take0)
  next
    case False
    define body where "body = out @ writeStreamFooter (ci_key c) seed n"
    have "take m (?h @ seed @ body) = ?h @ seed @ take (m - 11) body" using False h assms(2) by simp
    moreover have "m - 11 < length body" using assms(2,4) False h by (simp add: p(2) body_def)
    moreover have "\<exists>e. decrypt_loop (ci_key c) seed n' (take m' (writeStreamFooter (ci_key c) seed n')) None = ([], Some e)"
      if "m' < length (writeStreamFooter (ci_key c) seed n')" for n' m'
      using decrypt_cut_frame [of m' "footer_sealed (ci_key c) seed n'"] that footer_sealed [OF assms(1), of seed n']
      by (simp add: sizes)
    ultimately show ?thesis
      using decrypt_cut_loop [where seed = seed and foot = "writeStreamFooter (ci_key c) seed" and m = "m - 11", OF assms(1) _ assms(3) _ p(1)]
        p stream_chunk_bounds(1) [of c] by (simp add: body_def DecryptStream_body [OF assms(2)])
  qed
qed

lemma demo_stream_long: "530 < length (fst (EncryptStream (replicate 8 1) (replicate 600 2) None demo_cipher))"
proof -
  have c: "length (ci_key demo_cipher) = 32" "stream_chunk demo_cipher = 512"
    by (simp_all add: demo_cipher_def stream_chunk_def sizes)
  obtain out n where l: "encrypt_loop (ci_key demo_cipher) (replicate 8 1) 512 0 (replicate 600 2) None = (out, Inr n)"
    "EncryptStream (replicate 8 1) (replicate 600 2) None demo_cipher =
      (stream_header 512 @ replicate 8 1 @ out @ writeStreamFooter (ci_key demo_cipher) (replicate 8 1) n, None)"
    using EncryptStream_parts [OF c(1), of "replicate 8 1" "replicate 600 2"] c(2) by (auto simp: sizes)
  from l(1) have "\<exists>r. out = data_frame (ci_key demo_cipher) (replicate 8 1) 0 (take 512 (replicate 600 2)) @ r"
    by (subst (asm) encrypt_loop.simps) (auto split: prod.splits)
  then have "528 \<le> length out" by (auto simp: data_frame_def gcm.length_seal [OF c(1)])
  then show ?thesis by (simp add: l(2))
qed

theorem DecryptStream_truncated_witness:
  "\<exists>k e. DecryptStream (take 530 (fst (EncryptStream (replicate 8 1) (replicate 600 2) None demo_cipher))) None demo_cipher
     = (take k (replicate 600 2), Some e)"
  using DecryptStream_truncated [OF _ _ _ demo_stream_long] by (simp add: demo_cipher_def stream_chunk_def sizes)

section \<open>Bounds\<close>

text \<open>
  Every chunk size \<^verbatim>\<open>SetStreamChunkSize\<close> accepts above 4112 makes streams of at least one full chunk that the
  decoder refuses: the sealed chunk is sixteen bytes longer than the decoder's limit allows.
\<close>

theorem SetStreamChunkSize_undecodable:
  assumes "length (ci_key c) = 32" "length seed = 8" "SetStreamChunkSize k c = (None, c')" "4112 < k" "nat k \<le> length pt"
  shows "DecryptStream (fst (EncryptStream seed pt fin c')) fin' c' = ([], Some ErrStreamFormat)"
proof -
  have k: "4112 < stream_chunk c'" "stream_chunk c' \<le> length pt" "length (ci_key c') = 32" "stream_chunk c' \<le> 4128"
    using assms stream_chunk_bounds(2) [of c'] by (auto simp: SetStreamChunkSize_def stream_chunk_def sizes split: if_splits)
  define fr where "fr = gcm_seal (ci_key c') (stream_nonce seed 0) (take (stream_chunk c') pt) []"
  have fr: "4128 < length fr" "length fr \<le> 4144"
    using k by (simp_all add: fr_def gcm.length_seal [OF k(3)])
  obtain out r where "encrypt_loop (ci_key c') seed (stream_chunk c') 1 (drop (stream_chunk c') pt) fin = (out, r)" by fastforce
  then have "encrypt_loop (ci_key c') seed (stream_chunk c') 0 pt fin = (sealed_frame fr @ out, r)"
    using k(1,2) by (subst encrypt_loop.simps) (simp add: data_frame_def fr_def)
  then obtain body where body: "fst (EncryptStream seed pt fin c') = stream_header (stream_chunk c') @ seed @ sealed_frame fr @ body"
    by (cases r) (auto simp: EncryptStream_def Let_def)
  have "unat (word_of_nat (length fr) :: 32 word) = length fr" using fr(2) by (simp add: unat_of_nat)
  then have "decrypt_loop (ci_key c') seed 0 (sealed_frame fr @ body) fin' = ([], Some ErrStreamFormat)"
    using fr(1) by (subst decrypt_loop.simps) (simp add: sealed_frame_def sizes)
  then show ?thesis by (simp add: body DecryptStream_body [OF assms(2)])
qed

theorem SetStreamChunkSize_undecodable_witness:
  "SetStreamChunkSize 4128 demo_cipher = (None, demo_cipher\<lparr>ci_chunkSize := 4128\<rparr>)
   \<and> DecryptStream (fst (EncryptStream (replicate 8 1) (replicate 5000 2) None (demo_cipher\<lparr>ci_chunkSize := 4128\<rparr>))) None
        (demo_cipher\<lparr>ci_chunkSize := 4128\<rparr>) = ([], Some ErrStreamFormat)"
proof -
  have "SetStreamChunkSize 4128 demo_cipher = (None, demo_cipher\<lparr>ci_chunkSize := 4128\<rparr>)"
    by (simp add: SetStreamChunkSize_def sizes)
  then show ?thesis
    using SetStreamChunkSize_undecodable [of demo_cipher "replicate 8 1" 4128 _ "replicate 5000 2" None None]
    by (simp add: demo_cipher_def)
qed

definition stream_nonces :: "bytes \<Rightarrow> nat \<Rightarrow> bytes list" where
  "stream_nonces seed n = map (\<lambda>i. stream_nonce seed (word_of_nat i)) [0..<n] @ [stream_nonce seed footerNonceIndex]"

lemma PutUint32_inject [simp]: "PutUint32 a = PutUint32 b \<longleftrightarrow> a = b"
  by (metis Uint_PutUint(2))


section \<open>Messages and tenant keys\<close>

text \<open>A single message decrypts to what was encrypted.\<close>

theorem Decrypt_Encrypt:
  assumes "length (ci_key c) = 32" "length nonce = 12"
  shows "Decrypt (Encrypt nonce pt c) c = Inr pt"
  using assms by (simp add: Decrypt_def Encrypt_def sizes gcm.length_seal gcm.open_seal)

text \<open>
  A wrapped tenant key unwraps to itself under the same root key and tenant, and rotation to another root
  key gives exactly what wrapping under that key gives.
\<close>

theorem WrapTenantKEK_roundtrip:
  assumes "length root = 32" "length root' = 32" "length kek = 32"
  shows "\<exists>w. WrapTenantKEK root kek t = Inr w \<and> UnwrapTenantKEK root w t = Inr kek
    \<and> RotateTenantKEK root root' w t = WrapTenantKEK root' kek t"
  using assms by (simp add: WrapTenantKEK_def UnwrapTenantKEK_def RotateTenantKEK_def sizes gcm.open_seal)

text \<open>
  Every tenant's key is wrapped under the same nonce, so two wrapped keys give away the XOR of the two
  keys to anyone who holds both.
\<close>

theorem WrapTenantKEK_leaks_xor:
  assumes "WrapTenantKEK root k1 t1 = Inr w1" "WrapTenantKEK root k2 t2 = Inr w2"
  shows "xor_bytes (take 32 w1) (take 32 w2) = xor_bytes k1 k2"
proof -
  let ?ks = "gcm_keystream (aes_block root) wrap_nonce 32"
  have l: "length root = 32" "length k1 = 32" "length k2 = 32"
    using assms by (auto simp: WrapTenantKEK_def sizes split: if_splits)
  have w: "take 32 w = xor_bytes k ?ks" if "WrapTenantKEK root k t = Inr w" "length k = 32" for w k t
    using that l(1) length_gcm_ctr [OF l(1), of wrap_nonce k]
    by (auto simp: WrapTenantKEK_def gcm_seal_def gcm_ctr_def Let_def sizes split: if_splits)
  have "xor_bytes (xor_bytes a ks) (xor_bytes b ks) = xor_bytes a b" if "length a \<le> length ks" "length b \<le> length ks" for a b ks :: bytes
    using that
  proof (induction ks arbitrary: a b)
    case (Cons x ks)
    then show ?case by (cases a; cases b) (auto simp: xor_bytes_def ac_simps)
  qed (simp add: xor_bytes_def)
  then show ?thesis using w [OF assms(1) l(2)] w [OF assms(2) l(3)] length_gcm_keystream [OF l(1), of 32 wrap_nonce] l by simp
qed

text \<open>Labels for different purposes or tenants are different.\<close>

lemma tenant_label_inj:
  assumes "appendDomainTenantLabel d t = appendDomainTenantLabel d' t'"
    and "d \<in> {DomainTenantKEK, DomainTenantOPRFShare, DomainTenantAuthToken}"
    and "d' \<in> {DomainTenantKEK, DomainTenantOPRFShare, DomainTenantAuthToken}"
  shows "d = d' \<and> t = t'"
proof -
  have "take 13 d = take 13 d'"
    using arg_cong [OF assms(1), of "take 13"] assms(2,3)
    by (auto simp: appendDomainTenantLabel_def DomainTenantKEK_def DomainTenantOPRFShare_def DomainTenantAuthToken_def)
  then have "d = d'" using assms(2,3)
    by (auto simp: DomainTenantKEK_def DomainTenantOPRFShare_def DomainTenantAuthToken_def str_bytes_def)
  then show ?thesis using assms(1) by (auto simp: appendDomainTenantLabel_def)
qed

lemma derive_info_inj:
  assumes "derive_info t c = derive_info t' c'" "length t < 2 ^ 32" "length t' < 2 ^ 32"
  shows "t = t' \<and> c = c'"
proof -
  have "(word_of_nat (length t) :: 32 word) = word_of_nat (length t')" using assms(1) by (simp add: derive_info_def append_eq_append_conv)
  then have "unat (word_of_nat (length t) :: 32 word) = unat (word_of_nat (length t') :: 32 word)" by simp
  then have "length t = length t'" using assms(2,3) by (simp add: unat_of_nat)
  then show ?thesis using assms(1) by (auto simp: derive_info_def)
qed

end
