(* ===== verification/Envelope.thy ===== *)
theory Envelope
  imports Stream_Cipher
begin

text \<open>
  The end-to-end envelope (\<^verbatim>\<open>src/src/crypto/envelope.go\<close>): a header with the key identifier and the wrapped
  data key in front of a stream under that key. Random keys, nonces and seeds are arguments.
\<close>

section \<open>The format\<close>

definition EnvelopeMagic :: bytes where "EnvelopeMagic = str_bytes ''MOMOENV1''"
definition EnvelopeVersion :: byte where "EnvelopeVersion = 1"
definition EnvelopeAlgoAES256GCM :: byte where "EnvelopeAlgoAES256GCM = 1"
definition envelopeMaxKeyIDLen :: nat where "envelopeMaxKeyIDLen = 256"
definition envelopeMaxWrappedKeyLen :: nat where "envelopeMaxWrappedKeyLen = 1024"
definition ErrNotEnvelope :: err where "ErrNotEnvelope = Plain ''crypto: not a momo E2EE envelope''"

record EnvelopeMeta =
  em_Version :: byte
  em_Algorithm :: byte
  em_KeyID :: string

definition no_meta :: EnvelopeMeta where "no_meta = \<lparr>em_Version = 0, em_Algorithm = 0, em_KeyID = ''''\<rparr>"

text \<open>The magic is written before the length of the wrapped key is checked.\<close>

definition writeEnvelopeHeader :: "byte \<Rightarrow> byte \<Rightarrow> string \<Rightarrow> bytes \<Rightarrow> bytes \<times> err option" where
  "writeEnvelopeHeader version algorithm keyID wrappedKey =
     (if envelopeMaxWrappedKeyLen < length wrappedKey then (EnvelopeMagic, Some (Wrap EINVAL))
      else (EnvelopeMagic @ [version, algorithm] @ PutUint16 (word_of_nat (length keyID))
              @ PutUint16 (word_of_nat (length wrappedKey)) @ str_bytes keyID @ wrappedKey, None))"

definition EncryptEnvelope ::
  "bytes \<Rightarrow> bytes \<Rightarrow> bytes \<Rightarrow> bytes \<Rightarrow> err option \<Rightarrow> bytes \<Rightarrow> string \<Rightarrow> bytes \<times> err option" where
  "EncryptEnvelope dataKey nonce seed plaintext fin masterKey keyID =
     (if length masterKey \<noteq> KeySize then ([], Some ErrInvalidKeySize)
      else if envelopeMaxKeyIDLen < length keyID then ([], Some (Wrap EINVAL))
      else case NewCipher masterKey of
        Inl e \<Rightarrow> ([], Some (wrap e))
      | Inr wrapCipher \<Rightarrow>
          (case writeEnvelopeHeader EnvelopeVersion EnvelopeAlgoAES256GCM keyID (Encrypt nonce dataKey wrapCipher) of
             (hdr, Some e) \<Rightarrow> (hdr, Some e)
           | (hdr, None) \<Rightarrow>
               (case NewCipher dataKey of
                  Inl e \<Rightarrow> (hdr, Some (wrap e))
                | Inr dataCipher \<Rightarrow> (let (out, e) = EncryptStream seed plaintext fin dataCipher in (hdr @ out, e)))))"

definition DecryptEnvelope :: "bytes \<Rightarrow> err option \<Rightarrow> bytes \<Rightarrow> EnvelopeMeta \<times> bytes \<times> err option" where
  "DecryptEnvelope src fin masterKey =
     (if length masterKey \<noteq> KeySize then (no_meta, [], Some ErrInvalidKeySize)
      else case read_full 14 src fin of
        Inl e \<Rightarrow> (no_meta, [], Some (wrap e))
      | Inr (pre, src1) \<Rightarrow>
          if take 8 pre \<noteq> EnvelopeMagic then (no_meta, [], Some ErrNotEnvelope)
          else
            let meta = no_meta\<lparr>em_Version := pre ! 8, em_Algorithm := pre ! 9\<rparr>;
                keyIDLen = unat (Uint16 (sub_slice 10 12 pre));
                wrappedLen = unat (Uint16 (sub_slice 12 14 pre)) in
            if em_Version meta \<noteq> EnvelopeVersion then (meta, [], Some (Wrap EBADMSG))
            else if em_Algorithm meta \<noteq> EnvelopeAlgoAES256GCM then (meta, [], Some (Wrap EBADMSG))
            else if envelopeMaxKeyIDLen < keyIDLen \<or> envelopeMaxWrappedKeyLen < wrappedLen then (meta, [], Some (Wrap EBADMSG))
            else case read_full (keyIDLen + wrappedLen) src1 fin of
              Inl e \<Rightarrow> (meta, [], Some (wrap e))
            | Inr (body, src2) \<Rightarrow>
                let meta = meta\<lparr>em_KeyID := bytes_str (take keyIDLen body)\<rparr> in
                (case NewCipher masterKey of
                   Inl e \<Rightarrow> (meta, [], Some (wrap e))
                 | Inr wrapCipher \<Rightarrow>
                     (case Decrypt (drop keyIDLen body) wrapCipher of
                        Inl e \<Rightarrow> (meta, [], Some (wrap e))
                      | Inr dataKey \<Rightarrow>
                          (case NewCipher dataKey of
                             Inl e \<Rightarrow> (meta, [], Some (wrap e))
                           | Inr dataCipher \<Rightarrow>
                               (let (out, e) = DecryptStream src2 fin dataCipher in (meta, out, map_option wrap e))))))"

definition IsEnvelope :: "bytes \<Rightarrow> err option \<Rightarrow> bool res" where
  "IsEnvelope bs fin =
     (case read_full 8 bs fin of
        Inr (pre, r) \<Rightarrow> Inr (pre = EnvelopeMagic)
      | Inl e \<Rightarrow> if e \<noteq> Plain ''unexpected EOF'' then Inl e
                 else if bs = [] then Inr False else Inr (bs = EnvelopeMagic))"

section \<open>Envelopes open to what was sealed\<close>

definition envelope_header :: "string \<Rightarrow> bytes \<Rightarrow> bytes" where
  "envelope_header keyID wk = fst (writeEnvelopeHeader EnvelopeVersion EnvelopeAlgoAES256GCM keyID wk)"

definition envelope_meta :: "string \<Rightarrow> EnvelopeMeta" where
  "envelope_meta keyID = \<lparr>em_Version = EnvelopeVersion, em_Algorithm = EnvelopeAlgoAES256GCM, em_KeyID = keyID\<rparr>"

definition data_cipher :: "bytes \<Rightarrow> Cipher" where "data_cipher dataKey = \<lparr>ci_key = dataKey, ci_chunkSize = ChunkSize\<rparr>"

lemma NewCipher_data [simp]: "length k = 32 \<Longrightarrow> NewCipher k = Inr (data_cipher k)"
  by (simp add: NewCipher_def data_cipher_def sizes)

lemma data_cipher_simps [simp]: "ci_key (data_cipher k) = k" "stream_chunk (data_cipher k) = 4096"
  by (simp_all add: data_cipher_def stream_chunk_def sizes)

lemma length_Encrypt: "length k = 32 \<Longrightarrow> length (Encrypt nonce pt (data_cipher k)) = length nonce + length pt + 16"
  by (simp add: Encrypt_def gcm.length_seal)

lemma EncryptEnvelope_layout:
  assumes "length master = 32" "length dk = 32" "length nonce = 12" "length keyID \<le> 256"
  shows "EncryptEnvelope dk nonce seed pt fin master keyID =
    (let (out, e) = EncryptStream seed pt fin (data_cipher dk) in
     (envelope_header keyID (Encrypt nonce dk (data_cipher master)) @ out, e))"
  using assms by (simp add: EncryptEnvelope_def sizes envelopeMaxKeyIDLen_def envelope_header_def writeEnvelopeHeader_def
      envelopeMaxWrappedKeyLen_def length_Encrypt)

lemma DecryptEnvelope_layout:
  assumes "length master = 32" "length dk = 32" "length nonce = 12" "length keyID \<le> 256"
  shows "DecryptEnvelope (envelope_header keyID (Encrypt nonce dk (data_cipher master)) @ body) fin master =
    (let (out, e) = DecryptStream body fin (data_cipher dk) in (envelope_meta keyID, out, map_option wrap e))"
proof -
  define wk where "wk = Encrypt nonce dk (data_cipher master)"
  define pre where "pre = EnvelopeMagic @ [EnvelopeVersion, EnvelopeAlgoAES256GCM]
    @ PutUint16 (word_of_nat (length keyID)) @ PutUint16 (word_of_nat (length wk))"
  have wk: "length wk = 60" using assms by (simp add: wk_def length_Encrypt)
  have m: "length EnvelopeMagic = 8" by (simp add: EnvelopeMagic_def)
  have pre: "length pre = 14" "take 8 pre = EnvelopeMagic" "pre ! 8 = EnvelopeVersion" "pre ! 9 = EnvelopeAlgoAES256GCM"
    "sub_slice 10 12 pre = PutUint16 (word_of_nat (length keyID))" "sub_slice 12 14 pre = PutUint16 (word_of_nat (length wk))"
    using m by (simp_all add: pre_def nth_append sub_slice_def)
  have u: "unat (word_of_nat (length keyID) :: 16 word) = length keyID" "unat (word_of_nat 60 :: 16 word) = 60"
    using assms(4) by (simp_all add: unat_of_nat)
  have h: "envelope_header keyID wk @ body = pre @ (str_bytes keyID @ wk) @ body"
    by (simp add: envelope_header_def writeEnvelopeHeader_def envelopeMaxWrappedKeyLen_def wk pre_def)
  have d: "Decrypt wk (data_cipher master) = Inr dk"
    using assms by (simp add: wk_def Decrypt_def Encrypt_def sizes gcm.length_seal gcm.open_seal)
  show ?thesis
    using assms pre u d wk read_full_append [of pre 14 "(str_bytes keyID @ wk) @ body" fin]
      read_full_append [of "str_bytes keyID @ wk" "length keyID + 60" body fin]
    unfolding wk_def [symmetric] h
    by (simp add: DecryptEnvelope_def sizes envelopeMaxKeyIDLen_def envelopeMaxWrappedKeyLen_def envelope_meta_def no_meta_def
        del: append_assoc)
qed

text \<open>
  An envelope opens to its plaintext and its key identifier with the master key it was made with, unless
  the tags of the stream's footer coincide.
\<close>

theorem DecryptEnvelope_EncryptEnvelope:
  assumes "length master = 32" "length dk = 32" "length nonce = 12" "length seed = 8" "length keyID \<le> 256"
  shows "DecryptEnvelope (fst (EncryptEnvelope dk nonce seed pt None master keyID)) fin master = (envelope_meta keyID, pt, None)
    \<or> footer_tag_collides dk seed (stream_count (data_cipher dk) pt)"
  using stream_roundtrip [of "data_cipher dk" seed pt fin] assms
  by (auto simp: EncryptEnvelope_layout DecryptEnvelope_layout sizes split: prod.splits)

theorem DecryptEnvelope_EncryptEnvelope_witness:
  "DecryptEnvelope (fst (EncryptEnvelope (replicate 32 1) (replicate 12 2) (replicate 8 3) [4, 5] None (replicate 32 6) ''k1''))
     None (replicate 32 6) = (envelope_meta ''k1'', [4, 5], None)
   \<or> footer_tag_collides (replicate 32 1) (replicate 8 3) 1"
  using DecryptEnvelope_EncryptEnvelope [of "replicate 32 6" "replicate 32 1" "replicate 12 2" "replicate 8 3" "''k1''" "[4, 5]" None]
  by (simp add: stream_count_def stream_chunks_def)

text \<open>
  The key identifier is not authenticated: exchanging it in a stored envelope for another of any
  admissible length leaves an envelope that opens as before and reports the other identifier.
\<close>

theorem envelope_keyid_unauthenticated:
  assumes "length master = 32" "length dk = 32" "length nonce = 12" "length keyID \<le> 256" "length keyID' = length keyID"
    and "fst (EncryptEnvelope dk nonce seed pt None master keyID) = env"
    and "DecryptEnvelope env fin master = (envelope_meta keyID, pt, None)"
  shows "DecryptEnvelope (take 14 env @ str_bytes keyID' @ drop (14 + length keyID) env) fin master = (envelope_meta keyID', pt, None)"
proof -
  let ?wk = "Encrypt nonce dk (data_cipher master)"
  obtain out e where o: "EncryptStream seed pt None (data_cipher dk) = (out, e)" by fastforce
  have wk: "length ?wk = 60" using assms by (simp add: length_Encrypt)
  have m: "length EnvelopeMagic = 8" by (simp add: EnvelopeMagic_def)
  have env: "env = envelope_header keyID ?wk @ out" using assms by (simp add: EncryptEnvelope_layout o)
  define pre where "pre = EnvelopeMagic @ [EnvelopeVersion, EnvelopeAlgoAES256GCM] @ PutUint16 (word_of_nat (length keyID)) @ PutUint16 60"
  have pre: "length pre = 14" "envelope_header i ?wk = pre @ str_bytes i @ ?wk" if "length i = length keyID" for i
    using m wk that by (simp_all add: pre_def envelope_header_def writeEnvelopeHeader_def envelopeMaxWrappedKeyLen_def)
  have "take 14 env @ str_bytes keyID' @ drop (14 + length keyID) env = envelope_header keyID' ?wk @ out"
    using pre(1) [OF refl] pre(2) [OF refl] pre(2) [OF assms(5)] by (simp add: env)
  then show ?thesis using assms env
    by (auto simp: DecryptEnvelope_layout split: prod.splits)
qed

text \<open>An empty reader is reported as an error, not as a reader without an envelope.\<close>

lemma IsEnvelope_empty: "IsEnvelope [] None = Inl (Plain ''EOF'')"
  by (simp add: IsEnvelope_def read_full_def)

lemma IsEnvelope_EncryptEnvelope:
  assumes "length master = 32" "length dk = 32" "length nonce = 12" "length keyID \<le> 256"
  shows "IsEnvelope (fst (EncryptEnvelope dk nonce seed pt fin master keyID)) None = Inr True"
proof -
  have "length EnvelopeMagic = 8" by (simp add: EnvelopeMagic_def)
  then show ?thesis using assms
    by (auto simp: EncryptEnvelope_layout IsEnvelope_def envelope_header_def writeEnvelopeHeader_def read_full_def split: prod.splits)
qed

end
