(* ===== verification/Encrypted_Store.thy ===== *)
theory Encrypted_Store
  imports Stream_Cipher Volume_Store
begin

text \<open>
  The encrypting decorator (\<^verbatim>\<open>src/src/storage/encrypted_blobstore.go\<close>) over any backend. The pipe between the
  encrypting goroutine and the backend is the stream that goroutine writes, with the error it closes the
  pipe with. The seed of a stream is an argument.
\<close>

section \<open>The decorator\<close>

record 'b EncryptedBlobStore =
  en_inner :: 'b
  en_cipher :: Cipher

definition NewEncryptedBlobStore :: "'b \<Rightarrow> string \<Rightarrow> 'b EncryptedBlobStore res" where
  "NewEncryptedBlobStore inner encKeyHex =
     (case NewCipherFromHex encKeyHex of
        Inl e \<Rightarrow> Inl (wrap e)
      | Inr c \<Rightarrow> Inr \<lparr>en_inner = inner, en_cipher = c\<rparr>)"

definition encrypted_pipe :: "bytes \<Rightarrow> Cipher \<Rightarrow> stream \<Rightarrow> stream" where
  "encrypted_pipe seed c content =
     (let (out, e) = EncryptStream seed (concat (fst content)) (snd content) c in ([out], map_option wrap e))"

definition Encrypted_PutBlob ::
  "'b BlobStore \<Rightarrow> bytes \<Rightarrow> string \<Rightarrow> stream \<Rightarrow> 'b EncryptedBlobStore \<Rightarrow> err option \<times> 'b EncryptedBlobStore" where
  "Encrypted_PutBlob bs seed hash content s =
     (let (e, b') = PutBlob bs hash (encrypted_pipe seed (en_cipher s) content) (en_inner s) in
      (map_option wrap e, s\<lparr>en_inner := b'\<rparr>))"

definition Encrypted_BlobExists :: "'b BlobStore \<Rightarrow> string \<Rightarrow> 'b EncryptedBlobStore \<Rightarrow> bool res" where
  "Encrypted_BlobExists bs hash s = (case BlobExists bs of Some ex \<Rightarrow> ex hash (en_inner s) | None \<Rightarrow> Inr True)"

definition Encrypted_GetBlob :: "'b BlobStore \<Rightarrow> string \<Rightarrow> 'b EncryptedBlobStore \<Rightarrow> stream res" where
  "Encrypted_GetBlob bs hash s =
     (case GetBlob bs hash (en_inner s) of
        Inl e \<Rightarrow> Inl e
      | Inr (cs, fin) \<Rightarrow>
          (let (out, e) = DecryptStream (concat cs) fin (en_cipher s) in Inr ([out], map_option wrap e)))"

definition Encrypted_DeleteBlob :: "'b BlobStore \<Rightarrow> string \<Rightarrow> 'b EncryptedBlobStore \<Rightarrow> err option \<times> 'b EncryptedBlobStore" where
  "Encrypted_DeleteBlob bs hash s =
     (let (e, b') = DeleteBlob bs hash (en_inner s) in (e, s\<lparr>en_inner := b'\<rparr>))"

section \<open>Over a backend that keeps its contract\<close>

lemma EncryptStream_no_error: "snd (EncryptStream seed pt (Some e) c) \<noteq> None"
proof -
  have "\<exists>out e'. encrypt_loop k sd n i p (Some e) = (out, Inl e')" if "0 < n" for k sd n i p
    using that
  proof (induction "length p" arbitrary: p i rule: less_induct)
    case less
    show ?case
    proof (cases "length p < n")
      case True
      then show ?thesis by (subst encrypt_loop.simps) simp
    next
      case False
      then have "length (drop n p) < length p" using less.prems by simp
      from less.hyps [OF this less.prems, of "i + 1"] False less.prems show ?thesis
        by (subst encrypt_loop.simps) (auto split: prod.splits)
    qed
  qed
  moreover have "0 < stream_chunk c" using stream_chunk_bounds(1) [of c] by simp
  ultimately obtain out e' where "encrypt_loop (ci_key c) seed (stream_chunk c) 0 pt (Some e) = (out, Inl e')" by blast
  then show ?thesis by (simp add: EncryptStream_def Let_def)
qed

lemma NewEncryptedBlobStore_key: "NewEncryptedBlobStore b k = Inr s \<Longrightarrow>
  length (ci_key (en_cipher s)) = 32 \<and> stream_chunk (en_cipher s) = 4096"
  by (auto simp: NewEncryptedBlobStore_def NewCipherFromHex_def NewCipher_def sizes stream_chunk_def split: sum.splits if_splits option.splits)

context blob_store
begin

text \<open>
  A put that succeeds over a healthy backend that did not hold the blob makes it readable with its
  plaintext; one whose plaintext could not be read to its end never succeeds.
\<close>

lemma encrypted_put_get:
  assumes "sound (en_inner s)" "healthy (en_inner s)" "content_hash h" "content (en_inner s) h = None"
    and "length (ci_key (en_cipher s)) = 32" "length seed = 8" "stream_chunk (en_cipher s) + 16 \<le> MaxChunkSize"
    and put: "Encrypted_PutBlob bs seed h (cs, fin) s = (None, s')"
  shows "fin = None \<and> (Encrypted_GetBlob bs h s' = Inr ([concat cs], None)
    \<or> footer_tag_collides (ci_key (en_cipher s)) seed (stream_count (en_cipher s) (concat cs)))"
proof -
  obtain out e where enc: "EncryptStream seed (concat cs) fin (en_cipher s) = (out, e)" by fastforce
  obtain b' where b': "PutBlob bs h ([out], map_option wrap e) (en_inner s) = (None, b')" "s' = s\<lparr>en_inner := b'\<rparr>"
    using put by (auto simp: Encrypted_PutBlob_def encrypted_pipe_def enc split: prod.splits)
  have ok: "e = None" "content b' h = Some out" using put_ok [OF assms(1,3) b'(1)] assms(4) by auto
  have fin: "fin = None" using EncryptStream_no_error [of seed "concat cs"] enc ok(1) by (cases fin) (metis snd_conv)+
  have "sound b'" "healthy b'"
    using put_sound [OF assms(1,3)] put_healthy [OF assms(1,3,2)] b'(1) by (metis snd_conv)+
  then obtain ds where ds: "GetBlob bs h b' = Inr (ds, None)" "concat ds = out"
    using get_healthy [OF _ assms(3) _ ok(2)] by blast
  from stream_roundtrip [OF assms(5,6,7), of "concat cs" None] fin show ?thesis
    using enc by (auto simp: Encrypted_GetBlob_def b'(2) ds split: prod.splits)
qed

lemma encrypted_other:
  assumes "sound (en_inner s)" "content_hash h" "content_hash k" "k \<noteq> h"
  shows "content (en_inner (snd (Encrypted_PutBlob bs seed h r s))) k = content (en_inner s) k"
    "content (en_inner (snd (Encrypted_DeleteBlob bs h s))) k = content (en_inner s) k"
  using put_other [OF assms] del_other [OF assms]
  by (auto simp: Encrypted_PutBlob_def Encrypted_DeleteBlob_def case_prod_beta Let_def)

end

text \<open>
  C34: A put of a new blob through the encrypting store over the local backend that reports success has read
  its content to the end, and the blob then reads back as its plaintext, unless the tags of the stream's
  footer coincide.
\<close>

theorem Encrypted_PutBlob_reads:
  assumes "NewEncryptedBlobStore b key = Inr s" "local_healthy b" "content_hash h" "local_content b h = None" "length seed = 8"
    and "Encrypted_PutBlob local_ops seed h (cs, fin) s = (None, s')"
  shows "fin = None \<and> (Encrypted_GetBlob local_ops h s' = Inr ([concat cs], None)
    \<or> footer_tag_collides (ci_key (en_cipher s)) seed (stream_count (en_cipher s) (concat cs)))"
proof -
  have "en_inner s = b" using assms(1) by (auto simp: NewEncryptedBlobStore_def split: sum.splits)
  with NewEncryptedBlobStore_key [OF assms(1)] assms show ?thesis
    by (intro local.encrypted_put_get) (auto simp: sizes)
qed

definition demo_key :: string where "demo_key = replicate 64 (CHR ''0'')"

lemma demo_key_store: "NewEncryptedBlobStore b demo_key = Inr \<lparr>en_inner = b, en_cipher = \<lparr>ci_key = replicate 32 0, ci_chunkSize = 4096\<rparr>\<rparr>"
proof -
  have "DecodeString demo_key = Some (replicate 32 0)" unfolding demo_key_def by code_simp
  then show ?thesis
    by (simp add: NewEncryptedBlobStore_def NewCipherFromHex_def NewCipher_def MaxKeyHexSize_def sizes) (simp add: demo_key_def)
qed

theorem Encrypted_PutBlob_reads_witness:
  "\<exists>s s'. NewEncryptedBlobStore empty_local demo_key = Inr s
     \<and> Encrypted_PutBlob local_ops (replicate 8 1) (HashBytes [1, 2]) ([[1], [2]], None) s = (None, s')
     \<and> (Encrypted_GetBlob local_ops (HashBytes [1, 2]) s' = Inr ([[1, 2]], None)
        \<or> footer_tag_collides (replicate 32 0) (replicate 8 1) (stream_count (en_cipher s) [1, 2]))"
proof -
  define s where "s = \<lparr>en_inner = empty_local, en_cipher = \<lparr>ci_key = replicate 32 0, ci_chunkSize = 4096\<rparr>\<rparr>"
  have n: "NewEncryptedBlobStore empty_local demo_key = Inr s" by (simp add: s_def demo_key_store)
  have "length (ci_key (en_cipher s)) = 32" "stream_chunk (en_cipher s) + 16 \<le> MaxChunkSize"
    by (simp_all add: s_def stream_chunk_def sizes)
  then obtain out where "EncryptStream (replicate 8 1) [1, 2] None (en_cipher s) = (out, None)"
    by (rule EncryptStream_parts)
  then obtain s' where "Encrypted_PutBlob local_ops (replicate 8 1) (HashBytes [1, 2]) ([[1], [2]], None) s = (None, s')"
    by (simp add: Encrypted_PutBlob_def encrypted_pipe_def local_ops_def s_def empty_local_put)
  with Encrypted_PutBlob_reads [OF n _ content_hash_HashBytes _ _ this] n show ?thesis by (auto simp: s_def)
qed

section \<open>Over a backend that checks hashes\<close>

definition volume_ops :: "VolumeBlobStore BlobStore" where
  "volume_ops = \<lparr>PutBlob = Volume_PutBlob, GetBlob = Volume_GetBlob, DeleteBlob = Volume_DeleteBlob,
     BlobExists = Some Volume_BlobExists\<rparr>"

text \<open>
  The volume store compares the bytes it receives with the address, which is the hash of the plaintext:
  over it a put can succeed only for a stream whose ciphertext and plaintext have the same SHA-256.
\<close>

theorem Encrypted_PutBlob_volume_refuses:
  assumes "Encrypted_PutBlob volume_ops seed (HashBytes (concat cs)) (cs, fin) s = (None, s')"
  shows "Sum256 (fst (EncryptStream seed (concat cs) fin (en_cipher s))) = Sum256 (concat cs)"
proof -
  obtain out e where enc: "EncryptStream seed (concat cs) fin (en_cipher s) = (out, e)" by fastforce
  have "fst (Volume_PutBlob (HashBytes (concat cs)) ([out], map_option wrap e) (en_inner s)) = None"
    using assms by (auto simp: Encrypted_PutBlob_def encrypted_pipe_def volume_ops_def enc split: prod.splits)
  then have "DecodeString (HashBytes (concat cs)) = Some (Sum256 out)"
    by (auto simp: Volume_PutBlob_def decodeContentHash_ok readVerifiedPayload_def split: sum.splits option.splits if_splits)
  then show ?thesis by (simp add: enc HashBytes_def Decode_Encode)
qed

end
