(* ===== verification/Connection_Auth.thy ===== *)
theory Connection_Auth
  imports Crypto_Primitives Virtual_Path
begin

text \<open>
  Authenticating connections: the challenge-response protocol and the peer token
  (\<^verbatim>\<open>src/src/common/auth.go\<close>), the limiter of failed attempts (\<^verbatim>\<open>auth_limiter.go\<close>) and the deadlines of a
  connection (\<^verbatim>\<open>net.go\<close>). Instants and durations are nanoseconds; a panic is an error value.
\<close>

section \<open>Tokens and challenges\<close>

definition AuthTokenLength :: int where "AuthTokenLength = 64"
definition challengeNonceSize :: nat where "challengeNonceSize = 32"
definition challengeResponseSize :: nat where "challengeResponseSize = 32"
definition peerTokenSuffix :: string where "peerTokenSuffix = '':momo-peer:''"

definition DerivePeerToken :: "string \<Rightarrow> string res" where
  "DerivePeerToken authToken = PadString (EncodeToString (Sum256 (str_bytes (authToken @ peerTokenSuffix)))) AuthTokenLength"

definition padAuthToken :: "string \<Rightarrow> string res" where
  "padAuthToken token = (if AuthTokenLength \<le> int (length token) then Inr token else PadString token AuthTokenLength)"

definition computeHMAC :: "string \<Rightarrow> bytes \<Rightarrow> bytes" where
  "computeHMAC key message = hmac_sha256 (str_bytes key) message"

text \<open>
  A party is what it writes and what it makes of the bytes the other sends. The server writes its nonce
  before it reads.
\<close>

definition read_response :: "bytes \<Rightarrow> bytes res" where
  "read_response inp =
     (if challengeResponseSize \<le> length inp then Inr (take challengeResponseSize inp)
      else Inl (if inp = [] then Plain ''EOF'' else Plain ''unexpected EOF''))"

definition ChallengeResponseServer :: "bytes \<Rightarrow> string \<Rightarrow> bytes \<Rightarrow> bool res" where
  "ChallengeResponseServer nonce expectedAuthToken inp =
     (case padAuthToken expectedAuthToken of
        Inl e \<Rightarrow> Inl e
      | Inr token \<Rightarrow>
          (case read_response inp of
             Inl e \<Rightarrow> Inl (wrap e)
           | Inr response \<Rightarrow> Inr (response = computeHMAC token nonce)))"

definition ChallengeResponseClient :: "string \<Rightarrow> bytes \<Rightarrow> bytes res" where
  "ChallengeResponseClient authToken inp =
     (if length inp < challengeNonceSize then Inl (Wrap EBADMSG)
      else case PadString authToken AuthTokenLength of
        Inl e \<Rightarrow> Inl e
      | Inr paddedToken \<Rightarrow> Inr (computeHMAC paddedToken (take challengeNonceSize inp)))"

definition ChallengeResponseServerPeer :: "bytes \<Rightarrow> string \<Rightarrow> bytes \<Rightarrow> bool res" where
  "ChallengeResponseServerPeer nonce expectedAuthToken inp =
     (case padAuthToken expectedAuthToken of
        Inl e \<Rightarrow> Inl e
      | Inr token \<Rightarrow>
          (case read_response inp of
             Inl e \<Rightarrow> Inl (wrap e)
           | Inr response \<Rightarrow>
               if response = computeHMAC token nonce then Inr False
               else case DerivePeerToken token of
                 Inl e \<Rightarrow> Inl e
               | Inr peerToken \<Rightarrow>
                   if response = computeHMAC peerToken nonce then Inr True else Inl (Wrap EACCES)))"

lemma length_computeHMAC [simp]: "length (computeHMAC k m) = 32"
  by (simp add: computeHMAC_def hmac_sha256_def Let_def)

lemma DerivePeerToken_value: "DerivePeerToken t = Inr (EncodeToString (Sum256 (str_bytes (t @ peerTokenSuffix))))"
  by (simp add: DerivePeerToken_def PadString_def AuthTokenLength_def)

definition padded_token :: "string \<Rightarrow> string" where
  "padded_token t = t @ replicate (64 - length t) (CHR 0x00)"

lemma pad_tokens:
  assumes "length t \<le> 64"
  shows "padAuthToken t = Inr (padded_token t)" "PadString t AuthTokenLength = Inr (padded_token t)"
    "padAuthToken (padded_token t) = Inr (padded_token t)" "length (padded_token t) = 64"
  using assms by (auto simp: padAuthToken_def PadString_def AuthTokenLength_def padded_token_def)

text \<open>
  A client that knows the token is accepted whatever the nonce, and accepted as a client; nothing else
  but the two HMACs of that nonce is accepted at all.
\<close>

theorem challenge_accepts:
  assumes "length token \<le> 64" "length nonce = 32"
  shows "\<exists>r. ChallengeResponseClient token nonce = Inr r \<and> ChallengeResponseServer nonce token r = Inr True
    \<and> ChallengeResponseServerPeer nonce token r = Inr False
    \<and> (\<forall>inp p. ChallengeResponseServerPeer nonce token inp = Inr p \<longrightarrow>
        take 32 inp = (if p then computeHMAC (EncodeToString (Sum256 (str_bytes (padded_token token @ peerTokenSuffix)))) nonce
          else computeHMAC (padded_token token) nonce))"
  using assms by (auto simp: ChallengeResponseClient_def ChallengeResponseServer_def ChallengeResponseServerPeer_def pad_tokens
      read_response_def challengeResponseSize_def challengeNonceSize_def DerivePeerToken_value split: if_splits)

theorem challenge_accepts_witness:
  "\<exists>r. ChallengeResponseClient ''secret'' (replicate 32 9) = Inr r \<and> ChallengeResponseServer (replicate 32 9) ''secret'' r = Inr True"
  using challenge_accepts [of "''secret''" "replicate 32 9"] by auto

text \<open>
  Peers derive their token from the configured secret, servers from the secret padded to 64 bytes: with a
  shorter secret the two tokens agree only on a SHA-256 collision.
\<close>

theorem peer_token_mismatch:
  assumes "length token < 64" "DerivePeerToken token = DerivePeerToken (padded_token token)"
  shows "Sum256 (str_bytes (token @ peerTokenSuffix)) = Sum256 (str_bytes (padded_token token @ peerTokenSuffix))
    \<and> str_bytes (token @ peerTokenSuffix) \<noteq> str_bytes (padded_token token @ peerTokenSuffix)"
proof -
  have "length (token @ peerTokenSuffix) \<noteq> length (padded_token token @ peerTokenSuffix)"
    using assms(1) pad_tokens(4) [of token] by simp
  then have "token @ peerTokenSuffix \<noteq> padded_token token @ peerTokenSuffix" by metis
  moreover have "EncodeToString x = EncodeToString y \<Longrightarrow> x = y" for x y by (metis Decode_Encode option.inject)
  ultimately show ?thesis using assms(2) by (auto simp: DerivePeerToken_value simp del: append_same_eq)
qed

section \<open>Limiting failed attempts\<close>

text \<open>A duration keeps its 64 bits, an instant is unbounded; the clock is an argument of each operation.\<close>

definition Second :: "64 word" where "Second = 1000000000"
definition authLimiterDefaultFactor :: "64 word" where "authLimiterDefaultFactor = 2"
definition authLimiterDefaultMaxDelay :: "64 word" where "authLimiterDefaultMaxDelay = 8 * Second"
definition authLimiterDefaultMaxFailures :: nat where "authLimiterDefaultMaxFailures = 5"
definition authLimiterDefaultIdleWindow :: "64 word" where "authLimiterDefaultIdleWindow = 300 * Second"

definition zero_time :: int where "zero_time = - 62135596800 * 1000000000"

record authLimiterEntry =
  ae_failures :: nat
  ae_nextAllow :: int
  ae_lockoutUntil :: int
  ae_lastSeen :: int

record AuthLimiter =
  al_baseDelay :: "64 word"
  al_factor :: "64 word"
  al_maxDelay :: "64 word"
  al_maxFailures :: nat
  al_lockout :: "64 word"
  al_idleWindow :: "64 word"
  al_sources :: "string \<rightharpoonup> authLimiterEntry"

definition limiter_lockout :: "64 word \<Rightarrow> 64 word" where
  "limiter_lockout baseDelay =
     (if baseDelay \<le>s 0 then 0
      else let l = baseDelay * 60; l = (if 60 * Second <s l then 60 * Second else l) in
        if l <s authLimiterDefaultMaxDelay then authLimiterDefaultMaxDelay else l)"

definition NewAuthLimiter :: "64 word \<Rightarrow> AuthLimiter" where
  "NewAuthLimiter baseDelay =
     \<lparr>al_baseDelay = baseDelay, al_factor = authLimiterDefaultFactor, al_maxDelay = authLimiterDefaultMaxDelay,
      al_maxFailures = authLimiterDefaultMaxFailures, al_lockout = limiter_lockout baseDelay,
      al_idleWindow = authLimiterDefaultIdleWindow, al_sources = Map.empty\<rparr>"

definition Enabled :: "AuthLimiter option \<Rightarrow> bool" where
  "Enabled lo = (case lo of None \<Rightarrow> False | Some l \<Rightarrow> 0 <s al_baseDelay l)"

definition evictIdle :: "int \<Rightarrow> AuthLimiter \<Rightarrow> AuthLimiter" where
  "evictIdle now l = l\<lparr>al_sources := (\<lambda>src. case al_sources l src of
       None \<Rightarrow> None
     | Some e \<Rightarrow> if sint (al_idleWindow l) < now - ae_lastSeen e then None else Some e)\<rparr>"

definition Allow :: "int \<Rightarrow> string \<Rightarrow> AuthLimiter \<Rightarrow> bool \<times> AuthLimiter" where
  "Allow now src l =
     (if \<not> Enabled (Some l) then (True, l)
      else case al_sources l src of
        None \<Rightarrow> (True, evictIdle now l)
      | Some e \<Rightarrow>
          if now < ae_lockoutUntil e then (False, l)
          else if now < ae_nextAllow e then (False, l)
          else (True, l))"

fun backoff_loop :: "AuthLimiter \<Rightarrow> nat \<Rightarrow> 64 word \<Rightarrow> 64 word" where
  "backoff_loop l 0 delay = (if al_maxDelay l <s delay then al_maxDelay l else delay)"
| "backoff_loop l (Suc n) delay =
     (let delay = delay * al_factor l in
      if al_maxDelay l \<le>s delay then al_maxDelay l else backoff_loop l n delay)"

definition backoffDelay :: "nat \<Rightarrow> AuthLimiter \<Rightarrow> 64 word" where
  "backoffDelay failures l = backoff_loop l (failures - 1) (al_baseDelay l)"

definition RecordFailure :: "int \<Rightarrow> string \<Rightarrow> AuthLimiter \<Rightarrow> 64 word \<times> AuthLimiter" where
  "RecordFailure now src l =
     (if \<not> Enabled (Some l) then (0, l)
      else
        let e = (case al_sources l src of
              None \<Rightarrow> \<lparr>ae_failures = 0, ae_nextAllow = zero_time, ae_lockoutUntil = zero_time, ae_lastSeen = zero_time\<rparr>
            | Some e \<Rightarrow> e);
            e = e\<lparr>ae_failures := ae_failures e + 1, ae_lastSeen := now\<rparr> in
        if al_maxFailures l \<le> ae_failures e then
          let until = now + sint (al_lockout l) in
          (al_lockout l, l\<lparr>al_sources := (al_sources l)(src \<mapsto> e\<lparr>ae_lockoutUntil := until, ae_nextAllow := until\<rparr>)\<rparr>)
        else
          let delay = backoffDelay (ae_failures e) l in
          (delay, l\<lparr>al_sources := (al_sources l)(src \<mapsto> e\<lparr>ae_nextAllow := now + sint delay\<rparr>)\<rparr>))"

definition RecordSuccess :: "string \<Rightarrow> AuthLimiter \<Rightarrow> AuthLimiter" where
  "RecordSuccess src l = (if \<not> Enabled (Some l) then l else l\<lparr>al_sources := (al_sources l)(src := None)\<rparr>)"

definition failures_of :: "string \<Rightarrow> AuthLimiter \<Rightarrow> nat" where
  "failures_of src l = (case al_sources l src of None \<Rightarrow> 0 | Some e \<Rightarrow> ae_failures e)"

text \<open>
  The limiters the operations produce: the tuning values of \<^verbatim>\<open>NewAuthLimiter\<close> stay, an entry has failed at
  least once, and it waits at most the longest delay after it was last seen.
\<close>

definition limiter_wf :: "AuthLimiter \<Rightarrow> bool" where
  "limiter_wf l \<longleftrightarrow> l\<lparr>al_sources := Map.empty\<rparr> = NewAuthLimiter (al_baseDelay l) \<and>
     (\<forall>e \<in> ran (al_sources l). 1 \<le> ae_failures e \<and> (ae_failures e < 5 \<longrightarrow> ae_lockoutUntil e = zero_time) \<and>
        (5 \<le> ae_failures e \<longrightarrow> ae_lockoutUntil e = ae_nextAllow e) \<and> zero_time \<le> ae_lastSeen e \<and>
        ae_nextAllow e \<le> ae_lastSeen e + 60000000000)"

lemma limiter_fields:
  assumes "limiter_wf l"
  shows "al_factor l = 2" "al_maxDelay l = 8000000000" "al_maxFailures l = 5" "al_idleWindow l = 300000000000"
    "al_lockout l = limiter_lockout (al_baseDelay l)"
  using assms
  by (cases l; simp add: limiter_wf_def NewAuthLimiter_def authLimiterDefaultFactor_def authLimiterDefaultMaxDelay_def
      authLimiterDefaultMaxFailures_def authLimiterDefaultIdleWindow_def Second_def)+

lemma limiter_lockout_bounds:
  assumes "0 <s b"
  shows "8000000000 \<le> sint (limiter_lockout b)" "sint (limiter_lockout b) \<le> 60000000000"
  using assms
  by (auto simp: limiter_lockout_def Let_def word_sless_alt word_sle_eq Second_def authLimiterDefaultMaxDelay_def)

lemma sint_double:
  assumes "0 < sint (d :: 64 word)" "sint d < 2 ^ 62"
  shows "sint (d * 2) = 2 * sint d"
proof -
  have "d * 2 = word_of_int (sint d * 2)" by simp
  then show ?thesis using assms sint_int64 [of "sint d * 2"] by simp
qed

lemma backoff_loop_min:
  assumes "al_factor l = 2" "al_maxDelay l = 8000000000"
  shows "0 < sint d \<Longrightarrow> sint d < 2 ^ 62 \<Longrightarrow> sint (backoff_loop l n d) = min (sint d * 2 ^ n) 8000000000"
proof (induction n arbitrary: d)
  case 0
  then show ?case using assms by (auto simp: word_sless_alt)
next
  case (Suc n)
  note dbl = sint_double [OF Suc.prems]
  show ?case
  proof (cases "8000000000 \<le> sint (d * 2)")
    case True
    have "sint d * 2 \<le> sint d * 2 ^ Suc n"
      using Suc.prems(1) by (intro mult_left_mono) (simp_all add: self_le_power)
    then have "min (sint d * 2 ^ Suc n) 8000000000 = 8000000000" using True dbl by linarith
    then show ?thesis using True assms by (simp add: word_sle_eq del: power_Suc)
  next
    case False
    then have "sint (backoff_loop l n (d * 2)) = min (sint (d * 2) * 2 ^ n) 8000000000"
      using Suc.prems dbl by (intro Suc.IH) simp_all
    then show ?thesis using False assms dbl by (simp add: word_sle_eq ac_simps)
  qed
qed

lemma backoffDelay_min:
  assumes "limiter_wf l" "0 <s al_baseDelay l" "sint (al_baseDelay l) < 2 ^ 62"
  shows "sint (backoffDelay f l) = min (sint (al_baseDelay l) * 2 ^ (f - 1)) 8000000000"
  using backoff_loop_min [OF limiter_fields(1,2) [OF assms(1)]] assms(2,3) by (simp add: backoffDelay_def word_sless_alt)

lemma limiter_wf_new: "limiter_wf (NewAuthLimiter b)"
  by (simp add: limiter_wf_def NewAuthLimiter_def)

lemma limiter_wf_fewer:
  assumes "limiter_wf l" "\<And>s e. m s = Some e \<Longrightarrow> al_sources l s = Some e"
  shows "limiter_wf (l\<lparr>al_sources := m\<rparr>)"
  using assms unfolding limiter_wf_def by (fastforce simp: ran_def)

lemma limiter_wf_set:
  assumes "limiter_wf l" "1 \<le> ae_failures e" "ae_failures e < 5 \<longrightarrow> ae_lockoutUntil e = zero_time"
    "5 \<le> ae_failures e \<longrightarrow> ae_lockoutUntil e = ae_nextAllow e" "zero_time \<le> ae_lastSeen e"
    "ae_nextAllow e \<le> ae_lastSeen e + 60000000000"
  shows "limiter_wf (l\<lparr>al_sources := (al_sources l)(src \<mapsto> e)\<rparr>)"
  using assms unfolding limiter_wf_def by (auto simp: ran_def split: if_splits)

lemma limiter_wf_keeps:
  assumes "limiter_wf l"
  shows "limiter_wf (snd (Allow now src l))" "limiter_wf (RecordSuccess src l)"
  using assms by (auto simp: Allow_def RecordSuccess_def evictIdle_def split: option.splits if_splits
      intro!: limiter_wf_fewer)

text \<open>What one failed attempt does.\<close>

lemma entry_updates:
  "e\<lparr>ae_failures := a, ae_lastSeen := b, ae_lockoutUntil := c, ae_nextAllow := d\<rparr> =
    \<lparr>ae_failures = a, ae_nextAllow = d, ae_lockoutUntil = c, ae_lastSeen = b\<rparr>"
  "e\<lparr>ae_failures := a, ae_lastSeen := b, ae_nextAllow := d\<rparr> =
    \<lparr>ae_failures = a, ae_nextAllow = d, ae_lockoutUntil = ae_lockoutUntil e, ae_lastSeen = b\<rparr>"
  by (cases e; simp)+

lemma RecordFailure_spec:
  assumes "limiter_wf l" "0 <s al_baseDelay l" "sint (al_baseDelay l) < 2 ^ 62" "zero_time \<le> now"
    and "RecordFailure now src l = (d, l')"
  shows "limiter_wf l' \<and> al_baseDelay l' = al_baseDelay l \<and> failures_of src l' = Suc (failures_of src l) \<and>
    sint d = (if failures_of src l < 4 then min (sint (al_baseDelay l) * 2 ^ failures_of src l) 8000000000
              else sint (limiter_lockout (al_baseDelay l))) \<and>
    (\<forall>t. zero_time \<le> t \<longrightarrow> fst (Allow t src l') = (now + sint d \<le> t)) \<and>
    (\<forall>s. s \<noteq> src \<longrightarrow> al_sources l' s = al_sources l s)"
proof -
  define f where "f = failures_of src l"
  define lo where "lo = (case al_sources l src of None \<Rightarrow> zero_time | Some e \<Rightarrow> ae_lockoutUntil e)"
  define m where "m e = l\<lparr>al_sources := (al_sources l)(src \<mapsto> e)\<rparr>" for e
  note fl = limiter_fields [OF assms(1)]
  have en: "Enabled (Some l)" using assms(2) by (simp add: Enabled_def)
  have lo: "f < 5 \<Longrightarrow> lo = zero_time" using assms(1)
    by (auto simp: f_def lo_def failures_of_def limiter_wf_def ran_def split: option.splits)
  have bd: "sint (backoffDelay (Suc f) l) = min (sint (al_baseDelay l) * 2 ^ f) 8000000000"
    using backoffDelay_min [OF assms(1-3), of "Suc f"] by simp
  show ?thesis
  proof (cases "4 \<le> f")
    case True
    let ?e = "\<lparr>ae_failures = Suc f, ae_nextAllow = now + sint d, ae_lockoutUntil = now + sint d, ae_lastSeen = now\<rparr>"
    have d: "d = limiter_lockout (al_baseDelay l)" "l' = m ?e"
      using assms(5) en True fl by (auto simp: RecordFailure_def f_def failures_of_def m_def entry_updates Let_def split: option.splits)
    have "limiter_wf l'" unfolding d(2) m_def
      using True limiter_lockout_bounds(2) [OF assms(2)] assms(4) d(1) by (intro limiter_wf_set [OF assms(1)]) simp_all
    then show ?thesis using True en f_def [symmetric] by (simp add: d failures_of_def m_def Allow_def Enabled_def)
  next
    case False
    let ?e = "\<lparr>ae_failures = Suc f, ae_nextAllow = now + sint d, ae_lockoutUntil = zero_time, ae_lastSeen = now\<rparr>"
    have d: "d = backoffDelay (Suc f) l" "l' = m ?e"
      using assms(5) en False fl lo
      by (auto simp: RecordFailure_def f_def failures_of_def m_def lo_def entry_updates Let_def split: option.splits)
    have "sint d \<le> 8000000000" using bd d(1) by simp
    then have "limiter_wf l'" unfolding d(2) m_def
      using False assms(4) by (intro limiter_wf_set [OF assms(1)]) simp_all
    then show ?thesis using False en f_def [symmetric] bd by (auto simp: d failures_of_def m_def Allow_def Enabled_def)
  qed
qed

text \<open>
  After a failed attempt an enabled limiter makes the source wait \<open>base * 2 ^ n\<close> after \<open>n\<close> earlier failures,
  at most eight seconds, and from the fifth failure on a lockout of between eight and sixty seconds; it
  is refused exactly until then and no other source is affected.
\<close>

theorem RecordFailure_backoff:
  assumes "limiter_wf l" "0 <s al_baseDelay l" "sint (al_baseDelay l) < 2 ^ 62" "zero_time \<le> now" "zero_time \<le> t"
    and "RecordFailure now src l = (d, l')"
  shows "limiter_wf l' \<and> fst (Allow t src l') = (now + sint d \<le> t) \<and> (\<forall>s. s \<noteq> src \<longrightarrow> al_sources l' s = al_sources l s) \<and>
    (if failures_of src l < 4 then sint d = min (sint (al_baseDelay l) * 2 ^ failures_of src l) 8000000000
     else 8000000000 \<le> sint d \<and> sint d \<le> 60000000000)"
  using RecordFailure_spec [OF assms(1-4,6)] limiter_lockout_bounds [OF assms(2)] assms(5) by simp

theorem RecordFailure_backoff_witness:
  "fst (Allow 199999999 ''10.0.0.1'' (snd (RecordFailure 0 ''10.0.0.1'' (snd (RecordFailure 0 ''10.0.0.1'' (NewAuthLimiter 100000000))))))
     = False"
proof -
  let ?l = "snd (RecordFailure 0 ''10.0.0.1'' (NewAuthLimiter 100000000))"
  have b: "0 <s (100000000 :: 64 word)" "sint (100000000 :: 64 word) = 100000000" "zero_time \<le> 0"
    by (simp_all add: word_sless_alt zero_time_def)
  obtain d where d: "RecordFailure 0 ''10.0.0.1'' (NewAuthLimiter 100000000) = (d, ?l)" by (metis prod.collapse)
  have l: "limiter_wf ?l" "al_baseDelay ?l = 100000000" "failures_of ''10.0.0.1'' ?l = 1"
    using RecordFailure_spec [OF limiter_wf_new _ _ _ d] b by (simp_all add: NewAuthLimiter_def failures_of_def)
  obtain d' where d': "RecordFailure 0 ''10.0.0.1'' ?l = (d', snd (RecordFailure 0 ''10.0.0.1'' ?l))" by (metis prod.collapse)
  from RecordFailure_backoff [OF l(1) _ _ _ _ d', of 199999999] b show ?thesis by (simp add: l zero_time_def)
qed

text \<open>Evicting idle entries releases no source that still has to wait.\<close>

lemma evictIdle_releases_none:
  assumes "limiter_wf l" "zero_time \<le> now"
  shows "fst (Allow now s (snd (Allow now src l))) = fst (Allow now s l)"
proof -
  have "fst (Allow now s (evictIdle now l)) = fst (Allow now s l)"
  proof (cases "al_sources l s")
    case (Some e)
    then have e: "ae_nextAllow e \<le> ae_lastSeen e + 60000000000" "ae_lockoutUntil e = zero_time \<or> ae_lockoutUntil e = ae_nextAllow e"
      using assms(1) unfolding limiter_wf_def ran_def by (metis (mono_tags, lifting) linorder_not_less mem_Collect_eq)+
    have w: "sint (al_idleWindow l) = 300000000000" using limiter_fields(4) [OF assms(1)] by simp
    show ?thesis using e w assms(2) by (auto simp: Allow_def evictIdle_def Some Enabled_def)
  qed (simp add: Allow_def evictIdle_def Enabled_def)
  then show ?thesis by (auto simp: Allow_def [of now src] split: option.splits)
qed

section \<open>Deadlines of a connection\<close>

text \<open>
  The wrapped connection is its two deadlines; what its calls return is an argument, told apart as far as
  the wrapper does.
\<close>

datatype net_err = NetEOF | NetUnexpectedEOF | NetTimeout | NetOther

record IdleTimeoutConn =
  it_timeout :: int
  it_absoluteDeadline :: "int option"
  it_lastReadRefresh :: int
  it_lastWriteRefresh :: int
  it_broken :: bool
  it_readDeadline :: "int option"
  it_writeDeadline :: "int option"

definition NewIdleTimeoutConn :: "int \<Rightarrow> IdleTimeoutConn" where
  "NewIdleTimeoutConn timeout =
     \<lparr>it_timeout = timeout, it_absoluteDeadline = None, it_lastReadRefresh = 0, it_lastWriteRefresh = 0,
      it_broken = False, it_readDeadline = None, it_writeDeadline = None\<rparr>"

definition cap_deadline :: "int option \<Rightarrow> int \<Rightarrow> int" where
  "cap_deadline dp deadline = (case dp of Some t \<Rightarrow> if t \<noteq> zero_time \<and> t < deadline then t else deadline | None \<Rightarrow> deadline)"

definition SetAbsoluteDeadline :: "int \<Rightarrow> int \<Rightarrow> IdleTimeoutConn \<Rightarrow> IdleTimeoutConn" where
  "SetAbsoluteDeadline now t c =
     (let deadline = cap_deadline (Some t) (now + it_timeout c) in
      c\<lparr>it_absoluteDeadline := Some t, it_readDeadline := Some deadline, it_writeDeadline := Some deadline\<rparr>)"

definition applyDeadlines :: "int \<Rightarrow> bool \<Rightarrow> IdleTimeoutConn \<Rightarrow> IdleTimeoutConn" where
  "applyDeadlines now isRead c =
     (let refresh = it_timeout c div 4;
          prev = (if isRead then it_lastReadRefresh c else it_lastWriteRefresh c);
          deadline = cap_deadline (it_absoluteDeadline c) (now + it_timeout c) in
      if prev \<noteq> 0 \<and> now - prev < refresh then c
      else if isRead then c\<lparr>it_lastReadRefresh := now, it_readDeadline := Some deadline\<rparr>
      else c\<lparr>it_lastWriteRefresh := now, it_writeDeadline := Some deadline\<rparr>)"

definition conn_errno :: "net_err \<Rightarrow> err" where
  "conn_errno e = (if e = NetTimeout then Wrap ETIMEDOUT else Wrap EIO)"

definition Conn_Read :: "int \<Rightarrow> bytes \<times> net_err option \<Rightarrow> IdleTimeoutConn \<Rightarrow> bytes \<times> err option \<times> IdleTimeoutConn" where
  "Conn_Read now answer c =
     (if it_broken c then ([], Some (Wrap EIO), c)
      else (fst answer,
            (case snd answer of
               None \<Rightarrow> None
             | Some NetEOF \<Rightarrow> Some (Plain ''EOF'')
             | Some NetUnexpectedEOF \<Rightarrow> Some (Plain ''unexpected EOF'')
             | Some e \<Rightarrow> Some (conn_errno e)),
            applyDeadlines now True c))"

definition Conn_Write :: "int \<Rightarrow> nat \<times> net_err option \<Rightarrow> IdleTimeoutConn \<Rightarrow> nat \<times> err option \<times> IdleTimeoutConn" where
  "Conn_Write now answer c =
     (if it_broken c then (0, Some (Wrap EIO), c)
      else (fst answer, map_option conn_errno (snd answer), applyDeadlines now False c))"

datatype conn_call = Call_Read "bytes \<times> net_err option" | Call_Write "nat \<times> net_err option" | Call_Deadline int

definition conn_step :: "int \<Rightarrow> conn_call \<Rightarrow> IdleTimeoutConn \<Rightarrow> IdleTimeoutConn" where
  "conn_step now k c = (case k of
       Call_Read a \<Rightarrow> snd (snd (Conn_Read now a c))
     | Call_Write a \<Rightarrow> snd (snd (Conn_Write now a c))
     | Call_Deadline t \<Rightarrow> SetAbsoluteDeadline now t c)"

inductive conn_reachable :: "int \<Rightarrow> int \<Rightarrow> IdleTimeoutConn \<Rightarrow> bool" for timeout where
  new: "conn_reachable timeout now (NewIdleTimeoutConn timeout)"
| call: "conn_reachable timeout now c \<Longrightarrow> now \<le> now' \<Longrightarrow> conn_reachable timeout now' (conn_step now' k c)"

text \<open>A deadline lies between what the last refresh and what the present allow, under the absolute deadline.\<close>

definition deadline_ok :: "int \<Rightarrow> IdleTimeoutConn \<Rightarrow> int \<Rightarrow> int option \<Rightarrow> bool" where
  "deadline_ok now c lr d \<longleftrightarrow>
     lr = 0 \<or> lr \<le> now \<and> (\<exists>x. d = Some x \<and> cap_deadline (it_absoluteDeadline c) (lr + it_timeout c) \<le> x \<and>
       x \<le> cap_deadline (it_absoluteDeadline c) (now + it_timeout c))"

definition conn_inv :: "int \<Rightarrow> int \<Rightarrow> IdleTimeoutConn \<Rightarrow> bool" where
  "conn_inv timeout now c \<longleftrightarrow> it_timeout c = timeout \<and> \<not> it_broken c \<and>
     deadline_ok now c (it_lastReadRefresh c) (it_readDeadline c) \<and> deadline_ok now c (it_lastWriteRefresh c) (it_writeDeadline c)"

lemma cap_deadline_mono: "x \<le> y \<Longrightarrow> cap_deadline a x \<le> cap_deadline a y"
  by (auto simp: cap_deadline_def split: option.splits)

lemma deadline_ok_later: "deadline_ok now c l d \<Longrightarrow> now \<le> now' \<Longrightarrow> deadline_ok now' c l d"
  using cap_deadline_mono [of "now + it_timeout c" "now' + it_timeout c" "it_absoluteDeadline c"]
  by (auto simp: deadline_ok_def)

lemma deadline_ok_updates [simp]:
  "deadline_ok now (c\<lparr>it_lastReadRefresh := x, it_readDeadline := y\<rparr>) = deadline_ok now c"
  "deadline_ok now (c\<lparr>it_lastWriteRefresh := x, it_writeDeadline := y\<rparr>) = deadline_ok now c"
  by (simp_all add: deadline_ok_def fun_eq_iff)

lemma applyDeadlines_inv:
  assumes "conn_inv timeout now c" "now \<le> now'"
  shows "conn_inv timeout now' (applyDeadlines now' r c)"
proof -
  have "deadline_ok now' c now' (Some (cap_deadline (it_absoluteDeadline c) (now' + it_timeout c)))" by (simp add: deadline_ok_def)
  then show ?thesis using assms deadline_ok_later [of now c _ _ now']
    by (auto simp: conn_inv_def applyDeadlines_def Let_def)
qed

lemma conn_reachable_inv: "conn_reachable timeout now c \<Longrightarrow> conn_inv timeout now c"
proof (induction rule: conn_reachable.induct)
  case (new now)
  show ?case by (simp add: conn_inv_def NewIdleTimeoutConn_def deadline_ok_def)
next
  case (call now c now' k)
  then have r: "conn_inv timeout now' (applyDeadlines now' b c)" for b by (simp add: applyDeadlines_inv)
  have nb: "\<not> it_broken c" using call.IH by (simp add: conn_inv_def)
  show ?case
  proof (cases k)
    case (Call_Deadline t)
    have "deadline_ok now' (SetAbsoluteDeadline now' t c) l (Some (cap_deadline (Some t) (now' + it_timeout c)))"
      if "deadline_ok now c l d" for l d
      using that call.hyps(2) cap_deadline_mono [of "l + it_timeout c" "now' + it_timeout c" "Some t"]
      by (auto simp: deadline_ok_def SetAbsoluteDeadline_def Let_def)
    then show ?thesis using call.IH by (auto simp: Call_Deadline conn_step_def conn_inv_def) (auto simp: SetAbsoluteDeadline_def Let_def)
  qed (use r nb in \<open>simp_all add: conn_step_def Conn_Read_def Conn_Write_def\<close>)
qed



end
