(* ===== verification/Sigv4.thy ===== *)
theory Sigv4
  imports Crypto_Primitives Virtual_Path
begin

text \<open>
  Verification of AWS Signature Version 4 (\<^verbatim>\<open>src/src/transport/sigv4.go\<close>). A request is the parts the
  verification reads: method, decoded path, query values, host and headers; the maps of Go are
  association lists with distinct keys, in the order Go happens to iterate. The clock is an argument, in
  nanoseconds since 1970.
\<close>

section \<open>Credentials\<close>

record sigV4Components =
  sv_AccessKey :: string
  sv_DateStamp :: string
  sv_Region :: string
  sv_SignedHeaders :: string
  sv_Signature :: string
  sv_AmzDate :: string

definition no_components :: sigV4Components where
  "no_components = \<lparr>sv_AccessKey = [], sv_DateStamp = [], sv_Region = [], sv_SignedHeaders = [], sv_Signature = [], sv_AmzDate = []\<rparr>"

record request =
  rq_Method :: string
  rq_Path :: string
  rq_Query :: "(string \<times> string list) list"
  rq_Host :: string
  rq_Header :: "(string \<times> string list) list"

definition Values_Get :: "(string \<times> string list) list \<Rightarrow> string \<Rightarrow> string" where
  "Values_Get vs k = (case map_of vs k of Some (v # _) \<Rightarrow> v | _ \<Rightarrow> [])"

definition parseCredentialScope :: "string \<Rightarrow> (string \<times> string \<times> string) res" where
  "parseCredentialScope cred =
     (case split_on (CHR ''/'') cred of
        accessKey # dateStamp # region # service # t # _ \<Rightarrow> Inr (accessKey, dateStamp, region)
      | _ \<Rightarrow> Inl (Bare EBADMSG))"

definition TrimLeft :: "string \<Rightarrow> char \<Rightarrow> string" where
  "TrimLeft s c = dropWhile (\<lambda>x. x = c) s"

text \<open>The loop over the comma-separated parts of the header; an empty last part changes nothing.\<close>

fun auth_parts :: "string list \<Rightarrow> sigV4Components \<Rightarrow> nat \<Rightarrow> (sigV4Components \<times> nat) res" where
  "auth_parts [] c partsFound = Inr (c, partsFound)"
| "auth_parts (part # rest) c partsFound =
     (let part = TrimLeft part (CHR '' '') in
      if HasPrefix part ''Credential='' then
        (case parseCredentialScope (drop 11 part) of
           Inl e \<Rightarrow> Inl e
         | Inr (accessKey, dateStamp, region) \<Rightarrow>
             auth_parts rest (c\<lparr>sv_AccessKey := accessKey, sv_DateStamp := dateStamp, sv_Region := region\<rparr>) (partsFound + 1))
      else if HasPrefix part ''SignedHeaders='' then auth_parts rest (c\<lparr>sv_SignedHeaders := drop 14 part\<rparr>) (partsFound + 1)
      else if HasPrefix part ''Signature='' then auth_parts rest (c\<lparr>sv_Signature := drop 10 part\<rparr>) (partsFound + 1)
      else auth_parts rest c partsFound)"

definition parseSigV4AuthHeader :: "string \<Rightarrow> sigV4Components res" where
  "parseSigV4AuthHeader authHeader =
     (if \<not> HasPrefix authHeader ''AWS4-HMAC-SHA256 '' then Inl (Bare EBADMSG)
      else case auth_parts (split_on (CHR '','') (drop 17 authHeader)) no_components 0 of
        Inl e \<Rightarrow> Inl e
      | Inr (c, partsFound) \<Rightarrow>
          if partsFound < 3 \<or> sv_AccessKey c = [] \<or> sv_Signature c = [] \<or> sv_SignedHeaders c = [] then Inl (Bare EBADMSG)
          else Inr c)"

definition isPresignedSigV4 :: "request \<Rightarrow> bool" where
  "isPresignedSigV4 req \<longleftrightarrow> Values_Get (rq_Query req) ''X-Amz-Algorithm'' = ''AWS4-HMAC-SHA256''"

definition parseSigV4QueryAuth :: "request \<Rightarrow> sigV4Components option" where
  "parseSigV4QueryAuth req =
     (let q = rq_Query req in
      if Values_Get q ''X-Amz-Algorithm'' \<noteq> ''AWS4-HMAC-SHA256'' then None
      else case parseCredentialScope (Values_Get q ''X-Amz-Credential'') of
        Inl e \<Rightarrow> None
      | Inr (accessKey, dateStamp, region) \<Rightarrow>
          let c = \<lparr>sv_AccessKey = accessKey, sv_DateStamp = dateStamp, sv_Region = region,
                   sv_SignedHeaders = Values_Get q ''X-Amz-SignedHeaders'', sv_Signature = Values_Get q ''X-Amz-Signature'',
                   sv_AmzDate = Values_Get q ''X-Amz-Date''\<rparr> in
          if sv_AccessKey c = [] \<or> sv_Signature c = [] \<or> sv_SignedHeaders c = [] \<or> sv_AmzDate c = [] then None else Some c)"

section \<open>The canonical request\<close>

text \<open>
  \<^verbatim>\<open>utf8.RuneCountInString\<close>: a valid encoding is one rune, any other byte is one of its own. The accepted
  second bytes depend on the first.
\<close>

definition cont_byte :: "nat \<Rightarrow> bool" where "cont_byte n \<longleftrightarrow> 128 \<le> n \<and> n \<le> 191"

definition rune_len :: "nat list \<Rightarrow> nat" where
  "rune_len bs = (case bs of
       [] \<Rightarrow> 0
     | b # r \<Rightarrow>
         if b < 194 \<or> 244 < b then 1
         else if b < 224 then (case r of c # _ \<Rightarrow> if cont_byte c then 2 else 1 | _ \<Rightarrow> 1)
         else if b < 240 then
           (case r of c # d # _ \<Rightarrow>
              if (if b = 224 then 160 \<le> c \<and> c \<le> 191 else if b = 237 then 128 \<le> c \<and> c \<le> 159 else cont_byte c) \<and> cont_byte d
              then 3 else 1 | _ \<Rightarrow> 1)
         else
           (case r of c # d # e # _ \<Rightarrow>
              if (if b = 240 then 144 \<le> c \<and> c \<le> 191 else if b = 244 then 128 \<le> c \<and> c \<le> 143 else cont_byte c)
                 \<and> cont_byte d \<and> cont_byte e then 4 else 1 | _ \<Rightarrow> 1))"

function rune_count :: "nat list \<Rightarrow> nat" where
  "rune_count bs = (if bs = [] then 0 else Suc (rune_count (drop (rune_len bs) bs)))"
  by pat_completeness auto
termination
proof (relation "measure length")
  fix bs :: "nat list" assume "bs \<noteq> []"
  moreover have "0 < rune_len bs" if "bs \<noteq> []"
    using that by (auto simp: rune_len_def neq_Nil_conv split: list.splits)
  ultimately show "(drop (rune_len bs) bs, bs) \<in> measure length" by simp
qed simp

declare rune_count.simps [simp del]

definition RuneCountInString :: "string \<Rightarrow> nat" where
  "RuneCountInString s = rune_count (map of_char s)"

definition unreserved :: "char \<Rightarrow> bool" where
  "unreserved c \<longleftrightarrow> CHR ''A'' \<le> c \<and> c \<le> CHR ''Z'' \<or> CHR ''a'' \<le> c \<and> c \<le> CHR ''z'' \<or> CHR ''0'' \<le> c \<and> c \<le> CHR ''9''
     \<or> c = CHR ''-'' \<or> c = CHR ''_'' \<or> c = CHR ''.'' \<or> c = CHR ''~''"

definition upper_hex :: string where "upper_hex = ''0123456789ABCDEF''"

definition escape_char :: "bool \<Rightarrow> char \<Rightarrow> string" where
  "escape_char encodeSlash c =
     (if unreserved c \<or> \<not> encodeSlash \<and> c = CHR ''/'' then [c]
      else [CHR ''%'', upper_hex ! (of_char c div 16), upper_hex ! (of_char c mod 16)])"

text \<open>The first pass only counts, so that a string without escapes is returned as it is.\<close>

definition sigV4Escape :: "string \<Rightarrow> bool \<Rightarrow> string res" where
  "sigV4Escape s encodeSlash =
     (if 1024 < RuneCountInString s then Inl (Wrap EINVAL)
      else Inr (concat (map (escape_char encodeSlash) s)))"

fun query_values :: "string \<Rightarrow> string list \<Rightarrow> string list res" where
  "query_values k [] = Inr []"
| "query_values k (v # vs) =
     (case sigV4Escape v True of
        Inl e \<Rightarrow> Inl e
      | Inr ev \<Rightarrow> (case query_values k vs of Inl e \<Rightarrow> Inl e | Inr rest \<Rightarrow> Inr ((k @ ''='' @ ev) # rest)))"

text \<open>A key without values still writes its name.\<close>

fun query_parts :: "(string \<times> string list) list \<Rightarrow> string list res" where
  "query_parts [] = Inr []"
| "query_parts ((k, vs) # rest) =
     (case sigV4Escape k True of
        Inl e \<Rightarrow> Inl e
      | Inr ek \<Rightarrow>
          (case query_values ek vs of
             Inl e \<Rightarrow> Inl e
           | Inr parts \<Rightarrow>
               (case query_parts rest of
                  Inl e \<Rightarrow> Inl e
                | Inr more_parts \<Rightarrow> Inr ((if parts = [] then [ek @ ''=''] else parts) @ more_parts))))"

definition buildCanonicalQueryString :: "(string \<times> string list) list \<Rightarrow> string res" where
  "buildCanonicalQueryString vs =
     (case query_parts (sort_key fst (filter (\<lambda>(k, v). k \<noteq> ''X-Amz-Signature'') vs)) of
        Inl e \<Rightarrow> Inl e
      | Inr parts \<Rightarrow> Inr (Join parts ''&''))"

definition lower_char :: "char \<Rightarrow> char" where
  "lower_char c = (if CHR ''A'' \<le> c \<and> c \<le> CHR ''Z'' then char_of (of_char c + 32 :: nat) else c)"

text \<open>
  \<^verbatim>\<open>strings.EqualFold\<close> where the first string is a header name, an ASCII token: besides the letters of the
  other case, the long s and the Kelvin sign fold to ASCII letters.
\<close>

fun fold_name :: "string \<Rightarrow> string" where
  "fold_name [] = []"
| "fold_name (c # s) =
     (if c = CHR 0xC5 \<and> take 1 s = [CHR 0xBF] then CHR ''s'' # fold_name (drop 1 s)
      else if c = CHR 0xE2 \<and> take 2 s = [CHR 0x84, CHR 0xAA] then CHR ''k'' # fold_name (drop 2 s)
      else lower_char c # fold_name s)"

definition EqualFold :: "string \<Rightarrow> string \<Rightarrow> bool" where
  "EqualFold a b \<longleftrightarrow> fold_name a = fold_name b"

definition getCanonicalHeaderValue :: "request \<Rightarrow> string \<Rightarrow> string res" where
  "getCanonicalHeaderValue req h =
     (if h = ''host'' then (if 4096 < length (rq_Host req) then Inl (Bare EBADMSG) else Inr (rq_Host req))
      else case find (\<lambda>(k, v). EqualFold k h) (rq_Header req) of
        None \<Rightarrow> Inl (Bare ENOENT)
      | Some (k, []) \<Rightarrow> Inr []
      | Some (k, v # _) \<Rightarrow> if 4096 < length v then Inl (Bare EBADMSG) else Inr v)"

definition parseSignedHeaders :: "string \<Rightarrow> string list res" where
  "parseSignedHeaders s =
     (let headerNames = filter (\<lambda>p. p \<noteq> []) (split_on (CHR '';'') s) in
      if 16 < length headerNames then Inl (Bare EBADMSG) else Inr headerNames)"

fun canonical_lines :: "request \<Rightarrow> string list \<Rightarrow> string res" where
  "canonical_lines req [] = Inr []"
| "canonical_lines req (h # hs) =
     (case getCanonicalHeaderValue req h of
        Inl e \<Rightarrow> Inl (if e = Bare ENOENT then Bare EBADMSG else e)
      | Inr v \<Rightarrow>
          (case canonical_lines req hs of
             Inl e \<Rightarrow> Inl e
           | Inr rest \<Rightarrow> Inr (h @ '':'' @ TrimSpace v @ [CHR 0x0A] @ rest)))"

definition buildCanonicalHeaders :: "request \<Rightarrow> string \<Rightarrow> string res" where
  "buildCanonicalHeaders req signedHeaders =
     (case parseSignedHeaders signedHeaders of Inl e \<Rightarrow> Inl e | Inr names \<Rightarrow> canonical_lines req (sort names))"

definition buildCanonicalRequest :: "request \<Rightarrow> string \<Rightarrow> string \<Rightarrow> string res" where
  "buildCanonicalRequest req signedHeaders payloadHash =
     (case sigV4Escape (if rq_Path req = [] then ''/'' else rq_Path req) False of
        Inl e \<Rightarrow> Inl e
      | Inr uri \<Rightarrow>
          (case buildCanonicalQueryString (rq_Query req) of
             Inl e \<Rightarrow> Inl e
           | Inr qs \<Rightarrow>
               (case buildCanonicalHeaders req signedHeaders of
                  Inl e \<Rightarrow> Inl e
                | Inr hs \<Rightarrow>
                    Inr (rq_Method req @ [CHR 0x0A] @ uri @ [CHR 0x0A] @ qs @ [CHR 0x0A] @ hs @ [CHR 0x0A]
                           @ signedHeaders @ [CHR 0x0A] @ payloadHash))))"

section \<open>Signatures\<close>

definition hmacSHA256 :: "bytes \<Rightarrow> string \<Rightarrow> bytes" where "hmacSHA256 key data = hmac_sha256 key (str_bytes data)"
definition hexSHA256 :: "bytes \<Rightarrow> string" where "hexSHA256 data = EncodeToString (Sum256 data)"
definition computeSignature :: "bytes \<Rightarrow> string \<Rightarrow> string" where
  "computeSignature signingKey stringToSign = EncodeToString (hmacSHA256 signingKey stringToSign)"

definition deriveSigningKey :: "string \<Rightarrow> string \<Rightarrow> string \<Rightarrow> bytes" where
  "deriveSigningKey secretKey dateStamp region =
     hmacSHA256 (hmacSHA256 (hmacSHA256 (hmacSHA256 (str_bytes (''AWS4'' @ secretKey)) dateStamp) region) ''s3'') ''aws4_request''"

definition buildStringToSign :: "string \<Rightarrow> string \<Rightarrow> string \<Rightarrow> string \<Rightarrow> string" where
  "buildStringToSign canonicalRequest amzDate dateStamp region =
     ''AWS4-HMAC-SHA256'' @ [CHR 0x0A] @ amzDate @ [CHR 0x0A] @ dateStamp @ ''/'' @ region @ ''/s3/aws4_request'' @ [CHR 0x0A]
       @ hexSHA256 (str_bytes canonicalRequest)"

definition verifySigV4SignatureWithPayload :: "request \<Rightarrow> sigV4Components \<Rightarrow> string \<Rightarrow> string \<Rightarrow> bool" where
  "verifySigV4SignatureWithPayload req c secretKey payloadHash =
     (case buildCanonicalRequest req (sv_SignedHeaders c) payloadHash of
        Inl e \<Rightarrow> False
      | Inr canonicalRequest \<Rightarrow>
          computeSignature (deriveSigningKey secretKey (sv_DateStamp c) (sv_Region c))
            (buildStringToSign canonicalRequest (sv_AmzDate c) (sv_DateStamp c) (sv_Region c)) = sv_Signature c)"

section \<open>Freshness\<close>

text \<open>
  \<^verbatim>\<open>time.Parse\<close> with the layout \<^verbatim>\<open>20060102T150405Z\<close>. It also accepts a fraction of a second that the layout
  does not mention, of which nine digits count.
\<close>

definition digit_val :: "char \<Rightarrow> nat option" where
  "digit_val c = (if CHR ''0'' \<le> c \<and> c \<le> CHR ''9'' then Some (of_char c - 48) else None)"

fun digits_val :: "string \<Rightarrow> nat \<Rightarrow> nat option" where
  "digits_val [] acc = Some acc"
| "digits_val (c # s) acc = (case digit_val c of None \<Rightarrow> None | Some d \<Rightarrow> digits_val s (acc * 10 + d))"

definition is_leap :: "nat \<Rightarrow> bool" where "is_leap y \<longleftrightarrow> y mod 4 = 0 \<and> (y mod 100 \<noteq> 0 \<or> y mod 400 = 0)"

definition month_days :: "nat \<Rightarrow> nat \<Rightarrow> nat" where
  "month_days y m = (if m = 2 then (if is_leap y then 29 else 28) else if m \<in> {4, 6, 9, 11} then 30 else 31)"

definition unix_days :: "nat \<Rightarrow> nat \<Rightarrow> nat \<Rightarrow> int" where
  "unix_days y m d =
     (let p = int y - 1 in 365 * p + p div 4 - p div 100 + p div 400 - 719162)
       + int (sum_list (map (month_days y) [1..<m])) + int d - 1"

definition fraction :: "string \<Rightarrow> nat \<times> string" where
  "fraction s = (case s of
       c # d # r \<Rightarrow>
         if (c = CHR ''.'' \<or> c = CHR '','') \<and> digit_val d \<noteq> None then
           let ds = takeWhile (\<lambda>c. digit_val c \<noteq> None) (d # r); ns = take 9 ds in
           (the (digits_val ns 0) * 10 ^ (9 - length ns), drop (length ds) (d # r))
         else (0, s)
     | _ \<Rightarrow> (0, s))"

definition parse_amz_date :: "string \<Rightarrow> int option" where
  "parse_amz_date s =
     (if length s < 15 then None
      else case (digits_val (take 4 s) 0, digits_val (sub_slice 4 6 s) 0, digits_val (sub_slice 6 8 s) 0) of
        (Some y, Some mo, Some d) \<Rightarrow>
          if s ! 8 \<noteq> CHR ''T'' then None
          else (case (digits_val (sub_slice 9 11 s) 0, digits_val (sub_slice 11 13 s) 0, digits_val (sub_slice 13 15 s) 0) of
            (Some h, Some mi, Some se) \<Rightarrow>
              let (ns, rest) = fraction (drop 15 s) in
              if rest \<noteq> ''Z'' then None
              else if mo < 1 \<or> 12 < mo \<or> d < 1 \<or> month_days y mo < d \<or> 24 \<le> h \<or> 60 \<le> mi \<or> 60 \<le> se then None
              else Some ((unix_days y mo d * 86400 + int (h * 3600 + mi * 60 + se)) * 1000000000 + int ns)
          | _ \<Rightarrow> None)
      | _ \<Rightarrow> None)"

definition sigV4MaxSkew :: int where "sigV4MaxSkew = 15 * 60 * 1000000000"

definition verifySigV4Timestamp :: "int \<Rightarrow> string \<Rightarrow> bool" where
  "verifySigV4Timestamp now amzDate =
     (case parse_amz_date amzDate of None \<Rightarrow> False | Some t \<Rightarrow> \<bar>now - t\<bar> \<le> sigV4MaxSkew)"

text \<open>\<^verbatim>\<open>strconv.Atoi\<close>, whose result is out of range well before it overflows here.\<close>

definition Atoi :: "string \<Rightarrow> int option" where
  "Atoi s =
     (let (neg, ds) = (case s of [] \<Rightarrow> (False, []) | c # t \<Rightarrow>
            if c = CHR ''+'' then (False, t) else if c = CHR ''-'' then (True, t) else (False, s)) in
      if ds = [] then None
      else case digits_val ds 0 of
        None \<Rightarrow> None
      | Some v \<Rightarrow> if neg then (if v \<le> 2 ^ 63 then Some (- int v) else None) else if v < 2 ^ 63 then Some (int v) else None)"

definition verifySigV4Expiry :: "int \<Rightarrow> request \<Rightarrow> bool" where
  "verifySigV4Expiry now req =
     (let amzDate = Values_Get (rq_Query req) ''X-Amz-Date''; expires = Values_Get (rq_Query req) ''X-Amz-Expires'' in
      if amzDate = [] \<or> expires = [] then False
      else case parse_amz_date amzDate of
        None \<Rightarrow> False
      | Some signTime \<Rightarrow>
          (case Atoi expires of
             None \<Rightarrow> False
           | Some ttlSec \<Rightarrow> if ttlSec \<le> 0 \<or> 86400 < ttlSec then False else now < signTime + ttlSec * 1000000000))"

definition s3UnsignedPayload :: string where "s3UnsignedPayload = ''UNSIGNED-PAYLOAD''"
definition emptyStringSHA256 :: string where "emptyStringSHA256 = hexSHA256 []"

definition verifySigV4Signature :: "int \<Rightarrow> request \<Rightarrow> string \<Rightarrow> string \<Rightarrow> bool" where
  "verifySigV4Signature now req authHeader secretKey =
     (if isPresignedSigV4 req then
        (case parseSigV4QueryAuth req of
           None \<Rightarrow> False
         | Some c \<Rightarrow>
             if \<not> verifySigV4Expiry now req then False
             else let payloadHash = Values_Get (rq_Header req) ''X-Amz-Content-Sha256'' in
               if payloadHash \<noteq> [] then verifySigV4SignatureWithPayload req c secretKey payloadHash
               else verifySigV4SignatureWithPayload req c secretKey s3UnsignedPayload
                    \<or> verifySigV4SignatureWithPayload req c secretKey emptyStringSHA256)
      else case parseSigV4AuthHeader authHeader of
        Inl e \<Rightarrow> False
      | Inr c \<Rightarrow>
          let amzDate = Values_Get (rq_Header req) ''X-Amz-Date'' in
          if amzDate = [] then False
          else if \<not> verifySigV4Timestamp now amzDate then False
          else let payloadHash = Values_Get (rq_Header req) ''X-Amz-Content-Sha256'' in
            verifySigV4SignatureWithPayload req (c\<lparr>sv_AmzDate := amzDate\<rparr>) secretKey
              (if payloadHash = [] then emptyStringSHA256 else payloadHash))"

section \<open>Escaping loses nothing\<close>

lemma escape_char_cases:
  "escape_char b c = [c] \<and> c \<noteq> CHR ''%'' \<or>
   (\<exists>h l. escape_char b c = [CHR ''%'', upper_hex ! h, upper_hex ! l] \<and> of_char c = 16 * h + l \<and> h < 16 \<and> l < 16)"
proof -
  have "n div 16 < 16 \<and> n = 16 * (n div 16) + n mod 16 \<and> n mod 16 < 16" if "n < 256" for n :: nat using that by auto
  from this [of "of_char c"] have "of_char c div 16 < (16 :: nat)" "of_char c = 16 * (of_char c div 16) + of_char c mod (16 :: nat)"
    "of_char c mod 16 < (16 :: nat)" by (simp_all only: of_char_bound simp_thms)
  note n = this
  have np: "\<not> unreserved (CHR ''%'')" by (simp add: unreserved_def less_eq_char_def)
  show ?thesis
  proof (cases "unreserved c \<or> \<not> b \<and> c = CHR ''/''")
    case True
    then have "c \<noteq> CHR ''%''" using np by auto
    then show ?thesis using True by (simp add: escape_char_def)
  next
    case False
    then have "escape_char b c = [CHR ''%'', upper_hex ! (of_char c div 16), upper_hex ! (of_char c mod 16)]"
      unfolding escape_char_def by (rule if_not_P)
    with n show ?thesis by blast
  qed
qed

lemma upper_hex_inj: "a < 16 \<Longrightarrow> b < 16 \<Longrightarrow> upper_hex ! a = upper_hex ! b \<Longrightarrow> a = b"
  using nth_eq_iff_index_eq [of upper_hex a b] by (simp add: upper_hex_def)

lemma same_hex:
  assumes "of_char c = 16 * h + l" "of_char d = 16 * h' + (l' :: nat)" "h < 16" "l < 16" "h' < 16" "l' < 16"
    "upper_hex ! h = upper_hex ! h'" "upper_hex ! l = upper_hex ! l'"
  shows "c = d"
proof -
  have "h = h'" "l = l'" using assms upper_hex_inj by blast+
  then have "(of_char c :: nat) = of_char d" using assms(1,2) by simp
  then show ?thesis by simp
qed

lemma escape_string_inj: "concat (map (escape_char b) s) = concat (map (escape_char b) t) \<Longrightarrow> s = t"
proof (induction s arbitrary: t)
  case Nil
  then show ?case using escape_char_cases [of b] by (cases t) (metis append_is_Nil_conv concat.simps(2) list.distinct(1) list.simps(9) concat.simps(1) list.simps(8))+
next
  case (Cons c s)
  have ne: "escape_char b x \<noteq> []" for x using escape_char_cases [of b x] by auto
  with Cons.prems obtain d u where t: "t = d # u" by (cases t) auto
  have eq: "escape_char b c @ concat (map (escape_char b) s) = escape_char b d @ concat (map (escape_char b) u)"
    using Cons.prems t by simp
  have "c = d \<and> length (escape_char b c) = length (escape_char b d)"
    using eq escape_char_cases [of b c] escape_char_cases [of b d] by (auto intro: same_hex)
  then show ?case using eq Cons.IH [of u] t by simp
qed

text \<open>Different paths, and different query keys and values, have different canonical forms.\<close>

lemma sigV4Escape_injective:
  assumes "sigV4Escape s b = Inr e" "sigV4Escape t b = Inr e"
  shows "s = t"
  using assms escape_string_inj by (auto simp: sigV4Escape_def split: if_splits)

section \<open>What a signature binds\<close>

lemma escape_chars: "set (escape_char b c) \<inter> {CHR 0x0A, CHR ''&'', CHR ''=''} = {}"
proof -
  have u: "\<not> unreserved x" if "x \<in> {CHR 0x0A, CHR ''&'', CHR ''=''}" for x
    using that by (auto simp: unreserved_def less_eq_char_def)
  have h: "upper_hex ! i \<notin> {CHR 0x0A, CHR ''&'', CHR ''=''}" if "i < 16" for i
  proof -
    have "length upper_hex = 16" by (simp add: upper_hex_def)
    then have "upper_hex ! i \<in> set upper_hex" using that nth_mem [of i upper_hex] by presburger
    moreover have "set upper_hex \<inter> {CHR 0x0A, CHR ''&'', CHR ''=''} = {}" by (simp add: upper_hex_def)
    ultimately show ?thesis by blast
  qed
  from escape_char_cases [of b c] show ?thesis
  proof
    assume "escape_char b c = [c] \<and> c \<noteq> CHR ''%''"
    moreover have "c \<notin> {CHR 0x0A, CHR ''&'', CHR ''=''}" if "escape_char b c = [c]"
      using that u [of c] by (auto simp: escape_char_def split: if_splits)
    ultimately show ?thesis by auto
  next
    assume "\<exists>h l. escape_char b c = [CHR ''%'', upper_hex ! h, upper_hex ! l] \<and> of_char c = 16 * h + l \<and> h < 16 \<and> l < 16"
    then obtain i j where e: "escape_char b c = [CHR ''%'', upper_hex ! i, upper_hex ! j]" "i < 16" "j < 16" by blast
    show ?thesis using h [OF e(2)] h [OF e(3)] unfolding e(1) by auto
  qed
qed

lemma sigV4Escape_chars: "sigV4Escape s b = Inr e \<Longrightarrow> set e \<inter> {CHR 0x0A, CHR ''&'', CHR ''=''} = {}"
  using escape_chars [of b] by (fastforce simp: sigV4Escape_def split: if_splits)

definition query_pairs :: "(string \<times> string list) list \<Rightarrow> (string \<times> string) list" where
  "query_pairs vs = concat (map (\<lambda>(k, ws). map (Pair k) (if ws = [] then [[]] else ws)) vs)"

definition pair_part :: "string \<times> string \<Rightarrow> string" where
  "pair_part p = concat (map (escape_char True) (fst p)) @ ''='' @ concat (map (escape_char True) (snd p))"

lemma query_values_parts:
  "query_values (concat (map (escape_char True) k)) vs = Inr parts \<Longrightarrow> parts = map (\<lambda>v. pair_part (k, v)) vs"
  by (induction vs arbitrary: parts) (auto simp: sigV4Escape_def pair_part_def split: sum.splits if_splits)

lemma query_parts_pairs: "query_parts vs = Inr parts \<Longrightarrow> parts = map pair_part (query_pairs vs)"
proof (induction vs arbitrary: parts rule: query_parts.induct)
  case (2 k vs rest)
  then obtain ek ps ms where p: "sigV4Escape k True = Inr ek" "query_values ek vs = Inr ps" "query_parts rest = Inr ms"
    "parts = (if ps = [] then [ek @ ''=''] else ps) @ ms" by (auto split: sum.splits)
  have ek: "ek = concat (map (escape_char True) k)" using p(1) by (auto simp: sigV4Escape_def split: if_splits)
  have "ps = map (\<lambda>v. pair_part (k, v)) vs" using query_values_parts p(2) ek by blast
  moreover have "ms = map pair_part (query_pairs rest)" using "2.IH" p by blast
  ultimately show ?case using p(4) ek by (auto simp: query_pairs_def pair_part_def)
qed (simp add: query_pairs_def)

lemma pair_part_chars: "CHR ''&'' \<notin> set (pair_part p)" "CHR 0x0A \<notin> set (pair_part p)"
  using escape_chars [of True] by (fastforce simp: pair_part_def)+

lemma pair_part_inj: "pair_part p = pair_part q \<Longrightarrow> p = q"
proof -
  assume eq: "pair_part p = pair_part q"
  have ne: "CHR ''='' \<notin> set (concat (map (escape_char True) s))" for s using escape_chars [of True] by fastforce
  have "split_on (CHR ''='') (pair_part x) = [concat (map (escape_char True) (fst x)), concat (map (escape_char True) (snd x))]" for x
    using ne by (simp add: pair_part_def split_on_append_sep split_on_single)
  then show "p = q" using eq escape_string_inj by (metis list.inject prod.expand)
qed

lemma Join_pair_parts_inj:
  assumes "Join (map pair_part ps) ''&'' = Join (map pair_part qs) ''&''"
  shows "ps = qs"
proof -
  have ne: "Join (map pair_part xs) ''&'' \<noteq> []" if "xs \<noteq> []" for xs
    using that by (cases xs; cases "tl xs") (auto simp: pair_part_def)
  have "map pair_part ps = map pair_part qs"
  proof (cases "ps = [] \<or> qs = []")
    case True
    then show ?thesis using assms ne [of ps] ne [of qs] by fastforce
  next
    case False
    have sp: "split_on (CHR ''&'') (Join (map pair_part xs) ''&'') = map pair_part xs" if "xs \<noteq> []" for xs
      using that pair_part_chars(1) by (intro split_on_Join) auto
    show ?thesis using False sp [of ps] sp [of qs] unfolding assms by simp
  qed
  moreover have "inj pair_part" using pair_part_inj by (rule injI)
  ultimately show ?thesis by (simp add: inj_map_eq_map)
qed

definition signed_query :: "request \<Rightarrow> (string \<times> string) list" where
  "signed_query req = query_pairs (sort_key fst (filter (\<lambda>(k, v). k \<noteq> ''X-Amz-Signature'') (rq_Query req)))"

lemma canonical_query: "buildCanonicalQueryString (rq_Query req) = Inr qs \<Longrightarrow> qs = Join (map pair_part (signed_query req)) ''&''"
  by (auto simp: buildCanonicalQueryString_def signed_query_def dest: query_parts_pairs split: sum.splits)

lemma Join_no_newline: "CHR 0x0A \<notin> set (Join (map pair_part ps) ''&'')"
  by (induction ps rule: induct_list012) (auto simp: pair_part_chars)

text \<open>
  C14: The canonical request binds what it was made from: requests that canonicalize alike have the same
  method, the same path and the same query parameters apart from the signature.
\<close>

theorem buildCanonicalRequest_binds:
  assumes "buildCanonicalRequest a sh ph = Inr c" "buildCanonicalRequest b sh' ph' = Inr c"
    and "CHR 0x0A \<notin> set (rq_Method a)" "CHR 0x0A \<notin> set (rq_Method b)"
  shows "rq_Method a = rq_Method b \<and> (rq_Path a = rq_Path b \<or> {rq_Path a, rq_Path b} = {[], ''/''}) \<and> signed_query a = signed_query b"
proof -
  have parts: "\<exists>uri rest. sigV4Escape (if rq_Path r = [] then ''/'' else rq_Path r) False = Inr uri \<and>
      split_on (CHR 0x0A) c = rq_Method r # uri # Join (map pair_part (signed_query r)) ''&'' # rest"
    if "buildCanonicalRequest r s p = Inr c" "CHR 0x0A \<notin> set (rq_Method r)" for r s p
  proof -
    note built = that
    obtain uri qs hs where u: "sigV4Escape (if rq_Path r = [] then ''/'' else rq_Path r) False = Inr uri"
      "buildCanonicalQueryString (rq_Query r) = Inr qs"
      "c = rq_Method r @ [CHR 0x0A] @ uri @ [CHR 0x0A] @ qs @ [CHR 0x0A] @ hs @ [CHR 0x0A] @ s @ [CHR 0x0A] @ p"
      using built(1) unfolding buildCanonicalRequest_def by (auto split: sum.splits)
    have "CHR 0x0A \<notin> set uri" using sigV4Escape_chars [OF u(1)] by auto
    moreover have "CHR 0x0A \<notin> set qs" using canonical_query [OF u(2)] Join_no_newline by simp
    ultimately show ?thesis using u built(2) canonical_query [OF u(2)] by (simp add: split_on_append_sep)
  qed
  obtain u1 r1 where a: "sigV4Escape (if rq_Path a = [] then ''/'' else rq_Path a) False = Inr u1"
    "split_on (CHR 0x0A) c = rq_Method a # u1 # Join (map pair_part (signed_query a)) ''&'' # r1" using parts [OF assms(1,3)] by blast
  obtain u2 r2 where b: "sigV4Escape (if rq_Path b = [] then ''/'' else rq_Path b) False = Inr u2"
    "split_on (CHR 0x0A) c = rq_Method b # u2 # Join (map pair_part (signed_query b)) ''&'' # r2" using parts [OF assms(2,4)] by blast
  have e: "rq_Method a = rq_Method b" "u1 = u2" "Join (map pair_part (signed_query a)) ''&'' = Join (map pair_part (signed_query b)) ''&''"
    using a(2) b(2) by auto
  have "(if rq_Path a = [] then ''/'' else rq_Path a) = (if rq_Path b = [] then ''/'' else rq_Path b)"
    using sigV4Escape_injective [OF a(1)] b(1) e(2) by blast
  then show ?thesis using e(1) Join_pair_parts_inj [OF e(3)] by (cases "rq_Path a = []"; cases "rq_Path b = []") auto
qed

definition demo_request :: "string \<Rightarrow> request" where
  "demo_request path = \<lparr>rq_Method = ''GET'', rq_Path = path, rq_Query = [], rq_Host = ''h'',
     rq_Header = [(''X-Amz-Date'', [''20260101T000000Z''])]\<rparr>"

lemma demo_canonical:
  assumes "path \<in> {[], ''/''}"
  shows "buildCanonicalRequest (demo_request path) ''host'' p = Inr (''GET'' @ [CHR 0x0A] @ ''/'' @ [CHR 0x0A, CHR 0x0A] @ ''host:h'' @
    [CHR 0x0A, CHR 0x0A] @ ''host'' @ [CHR 0x0A] @ p)"
proof -
  have "RuneCountInString ''/'' = 1" by (simp add: RuneCountInString_def rune_count.simps rune_len_def)
  moreover have "escape_char False (CHR ''/'') = ''/''" by (simp add: escape_char_def)
  ultimately have e: "sigV4Escape ''/'' False = Inr ''/''" by (simp add: sigV4Escape_def)
  have t: "TrimSpace ''h'' = ''h''" by (rule TrimSpace_id) (simp add: space_runes_def)
  show ?thesis using assms e t
    by (auto simp: buildCanonicalRequest_def demo_request_def buildCanonicalQueryString_def buildCanonicalHeaders_def
        parseSignedHeaders_def getCanonicalHeaderValue_def)
qed

theorem buildCanonicalRequest_binds_witness:
  "buildCanonicalRequest (demo_request []) ''host'' ''p'' = buildCanonicalRequest (demo_request ''/'') ''host'' ''p''
   \<and> signed_query (demo_request []) = signed_query (demo_request ''/'')"
proof -
  have a: "[] \<in> {[], ''/''}" "''/'' \<in> {[], ''/''}" by simp_all
  show ?thesis
    using buildCanonicalRequest_binds [OF demo_canonical [OF a(1), of "''p''"] demo_canonical [OF a(2), of "''p''"]]
      demo_canonical [OF a(1), of "''p''"] demo_canonical [OF a(2), of "''p''"] by (simp add: demo_request_def)
qed

definition signed_with :: "request \<Rightarrow> sigV4Components \<Rightarrow> string \<Rightarrow> bool" where
  "signed_with req c secretKey \<longleftrightarrow> (\<exists>payloadHash cr. buildCanonicalRequest req (sv_SignedHeaders c) payloadHash = Inr cr \<and>
     sv_Signature c = computeSignature (deriveSigningKey secretKey (sv_DateStamp c) (sv_Region c))
       (buildStringToSign cr (sv_AmzDate c) (sv_DateStamp c) (sv_Region c)))"

lemma with_payload_signed: "verifySigV4SignatureWithPayload req c secretKey p \<Longrightarrow> signed_with req c secretKey"
  unfolding verifySigV4SignatureWithPayload_def signed_with_def by (cases "buildCanonicalRequest req (sv_SignedHeaders c) p") (simp_all, metis)

lemma verifySigV4Signature_accepts:
  assumes "verifySigV4Signature now req authHeader secretKey"
  shows "\<exists>c t. signed_with req c secretKey \<and> sv_AccessKey c \<noteq> [] \<and> parse_amz_date (sv_AmzDate c) = Some t \<and>
    (if isPresignedSigV4 req then now < t + 86400 * 1000000000 else \<bar>now - t\<bar> \<le> 900 * 1000000000)"
proof (cases "isPresignedSigV4 req")
  case True
  then obtain c where c: "parseSigV4QueryAuth req = Some c" "verifySigV4Expiry now req" "signed_with req c secretKey"
    using assms by (auto simp: verifySigV4Signature_def Let_def dest: with_payload_signed split: option.splits if_splits)
  have "sv_AmzDate c = Values_Get (rq_Query req) ''X-Amz-Date''" "sv_AccessKey c \<noteq> []"
    using c(1) by (auto simp: parseSigV4QueryAuth_def Let_def split: if_splits sum.splits)
  then show ?thesis using c(2,3) True by (auto simp: verifySigV4Expiry_def Let_def split: if_splits option.splits)
next
  case False
  then obtain c where c: "parseSigV4AuthHeader authHeader = Inr c"
    "verifySigV4Timestamp now (Values_Get (rq_Header req) ''X-Amz-Date'')"
    "signed_with req (c\<lparr>sv_AmzDate := Values_Get (rq_Header req) ''X-Amz-Date''\<rparr>) secretKey"
    using assms by (auto simp: verifySigV4Signature_def Let_def dest: with_payload_signed split: sum.splits if_splits)
  have "sv_AccessKey c \<noteq> []" using c(1) by (auto simp: parseSigV4AuthHeader_def split: if_splits sum.splits)
  then show ?thesis using c(2,3) False
    by (intro exI [of _ "c\<lparr>sv_AmzDate := Values_Get (rq_Header req) ''X-Amz-Date''\<rparr>"])
      (auto simp: verifySigV4Timestamp_def sigV4MaxSkew_def split: option.splits)
qed


text \<open>A request signed with the secret is accepted.\<close>

definition demo_signature :: string where
  "demo_signature = computeSignature (deriveSigningKey ''s3cr3t'' ''20260101'' ''r1'')
     (buildStringToSign (''GET'' @ [CHR 0x0A] @ ''/'' @ [CHR 0x0A, CHR 0x0A] @ ''host:h'' @ [CHR 0x0A, CHR 0x0A] @ ''host''
        @ [CHR 0x0A] @ emptyStringSHA256) ''20260101T000000Z'' ''20260101'' ''r1'')"

definition demo_auth :: string where
  "demo_auth = ''AWS4-HMAC-SHA256 '' @ ''Credential=AK/20260101/r1/s3/aws4_request'' @ '','' @ ''SignedHeaders=host'' @ '','' @ ''Signature='' @ demo_signature"

lemma demo_auth_parses: "parseSigV4AuthHeader demo_auth = Inr \<lparr>sv_AccessKey = ''AK'', sv_DateStamp = ''20260101'', sv_Region = ''r1'',
    sv_SignedHeaders = ''host'', sv_Signature = demo_signature, sv_AmzDate = []\<rparr>"
proof -
  have sub: "set demo_signature \<subseteq> set hextable" by (simp add: demo_signature_def computeSignature_def set_EncodeToString)
  have "length demo_signature = 64"
    by (simp add: demo_signature_def computeSignature_def hmacSHA256_def hmac_sha256_def Let_def)
  then have ne: "demo_signature \<noteq> []" by auto
  have "CHR '','' \<notin> set demo_signature" using sub by (auto simp: hextable_def)
  then have sp: "split_on (CHR '','') demo_signature = [demo_signature]" by (rule split_on_single)
  show ?thesis using ne
    by (simp add: parseSigV4AuthHeader_def demo_auth_def HasPrefix_def sp TrimLeft_def parseCredentialScope_def no_components_def)
qed

lemma demo_date: "parse_amz_date ''20260101T000000Z'' = Some 1767225600000000000" by code_simp

lemma demo_verifies: "verifySigV4Signature 1767225600000000000 (demo_request ''/'') demo_auth ''s3cr3t''"
proof -
  have h: "Values_Get (rq_Header (demo_request ''/'')) ''X-Amz-Date'' = ''20260101T000000Z''"
    "Values_Get (rq_Header (demo_request ''/'')) ''X-Amz-Content-Sha256'' = []" "\<not> isPresignedSigV4 (demo_request ''/'')"
    by (simp_all add: Values_Get_def demo_request_def isPresignedSigV4_def)
  have "''/'' \<in> {[], ''/''}" by simp
  note dc = demo_canonical [OF this, of emptyStringSHA256]
  show ?thesis
    unfolding verifySigV4Signature_def verifySigV4Timestamp_def verifySigV4SignatureWithPayload_def Let_def h demo_auth_parses demo_date
    by (simp only: dc sum.case option.case sigV4Components.simps h(3) if_False if_True not_False_eq_True list.distinct simp_thms demo_signature_def)
       (simp add: sigV4MaxSkew_def)
qed


text \<open>A presigned request is accepted long before its date: the check has no lower end.\<close>

lemma verifySigV4Expiry_future:
  "verifySigV4Expiry 0 \<lparr>rq_Method = ''GET'', rq_Path = ''/b'', rq_Query = [(''X-Amz-Date'', [''20990101T000000Z'']), (''X-Amz-Expires'', [''1''])],
     rq_Host = ''h'', rq_Header = []\<rparr>"
proof -
  have "parse_amz_date ''20990101T000000Z'' = Some 4070908800000000000" by code_simp
  moreover have "digits_val ''1'' 0 = Some 1" by code_simp
  ultimately show ?thesis by (simp add: verifySigV4Expiry_def Values_Get_def Atoi_def Let_def)
qed

end
