(* ===== verification/Aws_Chunked.thy ===== *)
theory Aws_Chunked
  imports Crypto_Primitives Virtual_Path
begin

text \<open>
  The decoder of \<^verbatim>\<open>aws-chunked\<close> uploads (\<^verbatim>\<open>src/src/transport/aws_chunked.go\<close>): framed chunks whose signatures
  form a chain that starts at the request's signature. The connection is the bytes it will deliver and
  how it ends; a hash is the bytes written to it.
\<close>

section \<open>Framing variants\<close>

definition s3StreamingSignedPayload :: string where "s3StreamingSignedPayload = ''STREAMING-AWS4-HMAC-SHA256-PAYLOAD''"
definition s3StreamingSignedTrailer :: string where "s3StreamingSignedTrailer = ''STREAMING-AWS4-HMAC-SHA256-PAYLOAD-TRAILER''"
definition s3StreamingUnsignedTrailer :: string where "s3StreamingUnsignedTrailer = ''STREAMING-UNSIGNED-PAYLOAD-TRAILER''"
definition s3StreamingContentEncoding :: string where "s3StreamingContentEncoding = ''aws-chunked''"
definition maxAWSChunkSize :: nat where "maxAWSChunkSize = 8 * 1024 * 1024"
definition maxAWSChunkHeaderLine :: nat where "maxAWSChunkHeaderLine = 1024"
definition maxAWSChunkTrailers :: nat where "maxAWSChunkTrailers = 64 * 1024"
definition awsChunkSigField :: string where "awsChunkSigField = ''chunk-signature=''"
definition awsChunkEmptySHA256 :: string where "awsChunkEmptySHA256 = ''e3b0c44298fc1c149afbf4c8996fb92427ae41e4649b934ca495991b7852b855''"
definition awsChunkStringToSignPayload :: string where "awsChunkStringToSignPayload = ''AWS4-HMAC-SHA256-PAYLOAD''"

datatype streamingMode = StreamingNone | StreamingSigned | StreamingSignedTrailer | StreamingUnsignedTrailer

definition Contains :: "string \<Rightarrow> string \<Rightarrow> bool" where
  "Contains s sub = list_ex (\<lambda>i. HasPrefix (drop i s) sub) [0..<length s + 1]"

definition streamingModeOf :: "string \<Rightarrow> string \<Rightarrow> streamingMode" where
  "streamingModeOf sha256Literal contentEncoding =
     (if sha256Literal = s3StreamingSignedPayload then StreamingSigned
      else if sha256Literal = s3StreamingSignedTrailer then StreamingSignedTrailer
      else if sha256Literal = s3StreamingUnsignedTrailer then StreamingUnsignedTrailer
      else if Contains contentEncoding s3StreamingContentEncoding then StreamingUnsignedTrailer
      else StreamingNone)"

definition isStreamingLiteral :: "string \<Rightarrow> bool" where
  "isStreamingLiteral h \<longleftrightarrow>
     h \<in> {s3StreamingSignedPayload, s3StreamingSignedTrailer, s3StreamingUnsignedTrailer} \<or> HasPrefix h ''STREAMING-''"

section \<open>The decoder\<close>

record streamingSigningCtx =
  sc_signingKey :: bytes
  sc_amzDate :: string
  sc_scope :: string
  sc_seedSig :: string

record awsChunkedReader =
  ac_source :: bytes
  ac_fin :: "err option"
  ac_ctx :: "streamingSigningCtx option"
  ac_prevSig :: string
  ac_trailers :: bool
  ac_maxTotal :: int
  ac_chunkHasher :: bytes
  ac_contentHash :: bytes
  ac_chunkSig :: string
  ac_remaining :: nat
  ac_needHeader :: bool
  ac_decoded :: int
  ac_done :: bool
  ac_err :: "err option"

definition newAWSChunkedReader :: "bytes \<Rightarrow> err option \<Rightarrow> streamingSigningCtx option \<Rightarrow> bool \<Rightarrow> int \<Rightarrow> awsChunkedReader" where
  "newAWSChunkedReader src fin ctx trailers maxTotal =
     \<lparr>ac_source = src, ac_fin = fin, ac_ctx = ctx, ac_prevSig = (case ctx of None \<Rightarrow> '''' | Some c \<Rightarrow> sc_seedSig c),
      ac_trailers = trailers, ac_maxTotal = maxTotal, ac_chunkHasher = [], ac_contentHash = [], ac_chunkSig = '''',
      ac_remaining = 0, ac_needHeader = True, ac_decoded = 0, ac_done = False, ac_err = None\<rparr>"

definition ContentHash :: "awsChunkedReader \<Rightarrow> string" where
  "ContentHash r = EncodeToString (Sum256 (ac_contentHash r))"

definition chunk_signature :: "streamingSigningCtx \<Rightarrow> string \<Rightarrow> string \<Rightarrow> string" where
  "chunk_signature c prevSig chunkHashHex =
     EncodeToString (hmac_sha256 (sc_signingKey c) (str_bytes
       (awsChunkStringToSignPayload @ [CHR 0x0A] @ sc_amzDate c @ [CHR 0x0A] @ sc_scope c @ [CHR 0x0A] @ prevSig @ [CHR 0x0A]
          @ awsChunkEmptySHA256 @ [CHR 0x0A] @ chunkHashHex)))"

text \<open>Without a signing key nothing is verified; the callers test for it.\<close>

definition verifyChunkHash :: "string \<Rightarrow> awsChunkedReader \<Rightarrow> err option \<times> awsChunkedReader" where
  "verifyChunkHash chunkHashHex r =
     (case ac_ctx r of
        None \<Rightarrow> (None, r)
      | Some c \<Rightarrow>
          let expected = chunk_signature c (ac_prevSig r) chunkHashHex in
          if expected \<noteq> ac_chunkSig r then (Some (Wrap EACCES), r) else (None, r\<lparr>ac_prevSig := expected\<rparr>))"

text \<open>
  A line of the buffered reader, whose buffer holds 4096 bytes: one that fills the buffer is longer than
  the limit.
\<close>

definition readHeaderLine :: "bytes \<Rightarrow> err option \<Rightarrow> (string \<times> bytes) res" where
  "readHeaderLine src fin =
     (case IndexByte src 10 of
        Some i \<Rightarrow>
          if maxAWSChunkHeaderLine < i + 1 then Inl (Wrap EBADMSG)
          else let buf = bytes_str (take i src) in
            Inr (if buf \<noteq> [] \<and> last buf = CHR 0x0D then butlast buf else buf, drop (i + 1) src)
      | None \<Rightarrow>
          if 4096 \<le> length src then Inl (Wrap EBADMSG)
          else case fin of None \<Rightarrow> Inl (Wrap EBADMSG) | Some e \<Rightarrow> Inl e)"

fun hex_value :: "string \<Rightarrow> nat \<Rightarrow> nat option" where
  "hex_value [] acc = Some acc"
| "hex_value (c # s) acc = (case fromHexChar c of None \<Rightarrow> None | Some d \<Rightarrow> hex_value s (acc * 16 + d))"

definition ParseInt16 :: "string \<Rightarrow> int option" where
  "ParseInt16 s =
     (let (neg, ds) = (case s of [] \<Rightarrow> (False, []) | c # t \<Rightarrow>
            if c = CHR ''+'' then (False, t) else if c = CHR ''-'' then (True, t) else (False, s)) in
      if ds = [] then None
      else case hex_value ds 0 of
        None \<Rightarrow> None
      | Some v \<Rightarrow> if neg then (if v \<le> 2 ^ 63 then Some (- int v) else None) else if v < 2 ^ 63 then Some (int v) else None)"

fun chunk_sig_parts :: "string list \<Rightarrow> string \<Rightarrow> string res" where
  "chunk_sig_parts [] sig = Inr sig"
| "chunk_sig_parts (part # rest) sig =
     (if HasPrefix part awsChunkSigField then
        let sig = drop (length awsChunkSigField) part in
        if 64 < length sig then Inl (Wrap EBADMSG) else chunk_sig_parts rest sig
      else chunk_sig_parts rest sig)"

definition parseAWSChunkHeader :: "string \<Rightarrow> (nat \<times> string) res" where
  "parseAWSChunkHeader line =
     (let (sizeStr, rest) = (case IndexByte line (CHR '';'') of
            Some idx \<Rightarrow> (take idx line, drop (idx + 1) line) | None \<Rightarrow> (line, [])) in
      (case ParseInt16 (TrimSpace sizeStr) of
         None \<Rightarrow> Inl (Wrap EBADMSG)
       | Some sz \<Rightarrow>
           if sz < 0 then Inl (Wrap EBADMSG)
           else if int maxAWSChunkSize < sz then Inl (Wrap EBADMSG)
           else (case chunk_sig_parts (split_on (CHR '';'') rest) [] of
               Inl e \<Rightarrow> Inl e
             | Inr sig \<Rightarrow> Inr (nat sz, sig))))"

definition expectCRLF :: "bytes \<Rightarrow> bytes res" where
  "expectCRLF src =
     (if length src < 2 then Inl (Wrap EBADMSG)
      else if take 2 src \<noteq> [13, 10] then Inl (Wrap EBADMSG)
      else Inr (drop 2 src))"

function trailer_loop :: "bytes \<Rightarrow> err option \<Rightarrow> nat \<Rightarrow> bytes res" where
  "trailer_loop src fin tot =
     (case readHeaderLine src fin of
        Inl e \<Rightarrow> Inl e
      | Inr (line, src') \<Rightarrow>
          let tot = tot + length line + 2 in
          if maxAWSChunkTrailers < tot then Inl (Wrap EBADMSG)
          else if line = [] then Inr src'
          else trailer_loop src' fin tot)"
  by pat_completeness auto

lemma readHeaderLine_shorter: "readHeaderLine src fin = Inr (line, src') \<Longrightarrow> length src' < length src"
  by (auto simp: readHeaderLine_def Let_def dest: IndexByte_SomeD split: option.splits if_splits)

termination trailer_loop
  by (relation "measure (\<lambda>(src, fin, tot). length src)") (auto dest: readHeaderLine_shorter)

declare trailer_loop.simps [simp del]

definition readChunkHeader :: "awsChunkedReader \<Rightarrow> err option \<times> awsChunkedReader" where
  "readChunkHeader r =
     (case readHeaderLine (ac_source r) (ac_fin r) of
        Inl e \<Rightarrow> (Some e, r)
      | Inr (line, src) \<Rightarrow>
          let r = r\<lparr>ac_source := src\<rparr> in
          (case parseAWSChunkHeader line of
             Inl e \<Rightarrow> (Some e, r)
           | Inr (n, sig) \<Rightarrow>
               let r = r\<lparr>ac_remaining := n, ac_chunkSig := sig, ac_chunkHasher := []\<rparr> in
               if n = 0 then
                 (case verifyChunkHash awsChunkEmptySHA256 r of
                    (Some e, r) \<Rightarrow> (Some e, r)
                  | (None, r) \<Rightarrow>
                      (case expectCRLF (ac_source r) of
                         Inl e \<Rightarrow> (Some (wrap e), r)
                       | Inr src \<Rightarrow>
                           (case (if ac_trailers r then trailer_loop src (ac_fin r) 0 else Inr src) of
                              Inl e \<Rightarrow> (Some e, r)
                            | Inr src \<Rightarrow> (None, r\<lparr>ac_source := src, ac_done := True\<rparr>))))
               else (None, r)))"

definition readChunkData :: "nat \<Rightarrow> awsChunkedReader \<Rightarrow> bytes \<times> err option \<times> awsChunkedReader" where
  "readChunkData k r =
     (let n = min k (ac_remaining r) in
      if length (ac_source r) < n then
        ([], Some (case ac_fin r of None \<Rightarrow> Wrap EBADMSG | Some e \<Rightarrow> e), r)
      else
        let p = take n (ac_source r);
            r = r\<lparr>ac_source := drop n (ac_source r), ac_remaining := ac_remaining r - n, ac_chunkHasher := ac_chunkHasher r @ p,
                  ac_contentHash := ac_contentHash r @ p, ac_decoded := ac_decoded r + int n\<rparr> in
        if ac_maxTotal r < ac_decoded r then ([], Some (Wrap EOVERFLOW), r)
        else if ac_remaining r = 0 then
          (case expectCRLF (ac_source r) of
             Inl e \<Rightarrow> ([], Some (wrap e), r)
           | Inr src \<Rightarrow>
               (case verifyChunkHash (EncodeToString (Sum256 (ac_chunkHasher r))) (r\<lparr>ac_source := src\<rparr>) of
                  (Some e, r) \<Rightarrow> ([], Some e, r)
                | (None, r) \<Rightarrow> (p, None, r\<lparr>ac_chunkHasher := []\<rparr>)))
        else (p, None, r))"

text \<open>
  The loop of \<^verbatim>\<open>Read\<close> passes at most once through its last line, since a header leaves bytes of its chunk
  to read or ends the body. Errors stay.
\<close>

definition read_data_step :: "nat \<Rightarrow> awsChunkedReader \<Rightarrow> bytes \<times> err option \<times> awsChunkedReader" where
  "read_data_step k r = (case readChunkData k r of
       (p, Some e, r) \<Rightarrow> ([], Some e, r\<lparr>ac_err := Some e\<rparr>)
     | (p, None, r) \<Rightarrow> (p, None, r))"

definition Chunked_Read :: "nat \<Rightarrow> awsChunkedReader \<Rightarrow> bytes \<times> err option \<times> awsChunkedReader" where
  "Chunked_Read k r =
     (if ac_done r then ([], Some (Plain ''EOF''), r)
      else case ac_err r of
        Some e \<Rightarrow> ([], Some e, r)
      | None \<Rightarrow>
          if \<not> ac_needHeader r \<and> 0 < ac_remaining r then read_data_step k r
          else (case readChunkHeader (r\<lparr>ac_needHeader := True\<rparr>) of
             (Some e, r) \<Rightarrow> ([], Some e, r\<lparr>ac_err := Some e\<rparr>)
           | (None, r) \<Rightarrow>
               let r = r\<lparr>ac_needHeader := False\<rparr> in
               if ac_done r then ([], Some (Plain ''EOF''), r) else read_data_step k r))"

section \<open>What is accepted\<close>

text \<open>
  A framed body: header lines that declare the size and the signature of the chunk after them, each
  signature following from the one before. Without a signing context signatures are free.
\<close>

definition chunk_line :: "bytes \<Rightarrow> nat \<Rightarrow> string \<Rightarrow> bool" where
  "chunk_line line n sig \<longleftrightarrow>
     (\<exists>tx. (\<forall>rest fin. readHeaderLine (line @ rest) fin = Inr (tx, rest)) \<and> parseAWSChunkHeader tx = Inr (n, sig))"

definition sig_ok :: "streamingSigningCtx option \<Rightarrow> string \<Rightarrow> string \<Rightarrow> string \<Rightarrow> bool" where
  "sig_ok ctx prev sig h = (case ctx of None \<Rightarrow> True | Some c \<Rightarrow> sig = chunk_signature c prev h)"

definition next_sig :: "streamingSigningCtx option \<Rightarrow> string \<Rightarrow> string \<Rightarrow> string" where
  "next_sig ctx prev sig = (case ctx of None \<Rightarrow> prev | Some c \<Rightarrow> sig)"

definition data_hash :: "bytes \<Rightarrow> string" where "data_hash d = EncodeToString (Sum256 d)"

inductive framed :: "streamingSigningCtx option \<Rightarrow> string \<Rightarrow> bytes list \<Rightarrow> string \<Rightarrow> bytes \<Rightarrow> bool" for ctx seed where
  no_chunk: "framed ctx seed [] seed []"
| chunk: "framed ctx seed ds q bs \<Longrightarrow> chunk_line line (length d) sig \<Longrightarrow> sig_ok ctx q sig (data_hash d) \<Longrightarrow>
    framed ctx seed (ds @ [d]) (next_sig ctx q sig) (bs @ line @ d @ [13, 10])"

definition body_framed :: "streamingSigningCtx option \<Rightarrow> string \<Rightarrow> bytes list \<Rightarrow> bytes \<Rightarrow> bool" where
  "body_framed ctx seed ds bs \<longleftrightarrow>
     (\<exists>pre q line sig rest. framed ctx seed ds q pre \<and> chunk_line line 0 sig \<and> sig_ok ctx q sig awsChunkEmptySHA256 \<and>
        bs = pre @ line @ [13, 10] @ rest)"

definition seed_of :: "streamingSigningCtx option \<Rightarrow> string" where
  "seed_of ctx = (case ctx of None \<Rightarrow> '''' | Some c \<Rightarrow> sc_seedSig c)"

text \<open>The state of a decoder that has delivered \<open>out\<close> of the bytes \<open>src\<close>.\<close>

definition at_header :: "bytes \<Rightarrow> bytes \<Rightarrow> awsChunkedReader \<Rightarrow> bool" where
  "at_header src out r \<longleftrightarrow> (\<exists>ds pre. framed (ac_ctx r) (seed_of (ac_ctx r)) ds (ac_prevSig r) pre \<and>
     src = pre @ ac_source r \<and> out = concat ds)"

definition in_chunk :: "bytes \<Rightarrow> bytes \<Rightarrow> awsChunkedReader \<Rightarrow> bool" where
  "in_chunk src out r \<longleftrightarrow> (\<exists>ds pre line. framed (ac_ctx r) (seed_of (ac_ctx r)) ds (ac_prevSig r) pre \<and>
     chunk_line line (length (ac_chunkHasher r) + ac_remaining r) (ac_chunkSig r) \<and>
     src = pre @ line @ ac_chunkHasher r @ ac_source r \<and> out = concat ds @ ac_chunkHasher r)"

definition counts :: "bytes \<Rightarrow> awsChunkedReader \<Rightarrow> bool" where
  "counts out r \<longleftrightarrow> ac_contentHash r = out \<and> ac_decoded r = int (length out) \<and> int (length out) \<le> ac_maxTotal r"

definition reading :: "bytes \<Rightarrow> bytes \<Rightarrow> awsChunkedReader \<Rightarrow> bool" where
  "reading src out r \<longleftrightarrow> counts out r \<and> \<not> ac_done r \<and>
     (if ac_needHeader r \<or> ac_remaining r = 0 then at_header src out r else in_chunk src out r)"

definition finished :: "bytes \<Rightarrow> bytes \<Rightarrow> awsChunkedReader \<Rightarrow> bool" where
  "finished src out r \<longleftrightarrow> counts out r \<and> ac_done r \<and>
     (\<exists>ds. body_framed (ac_ctx r) (seed_of (ac_ctx r)) ds src \<and> out = concat ds)"

lemma needHeader_irrelevant [simp]:
  "in_chunk src out (r\<lparr>ac_needHeader := b\<rparr>) = in_chunk src out r" "counts out (r\<lparr>ac_needHeader := b\<rparr>) = counts out r"
  "at_header src out (r\<lparr>ac_needHeader := b\<rparr>) = at_header src out r"
  by (simp_all add: in_chunk_def counts_def at_header_def)

lemma readHeaderLine_split:
  assumes "readHeaderLine src fin = Inr (tx, rest)"
  shows "\<exists>line. src = line @ rest \<and> (\<forall>rest' fin'. readHeaderLine (line @ rest') fin' = Inr (tx, rest'))"
proof -
  obtain i where i: "IndexByte src 10 = Some i" "i + 1 \<le> 1024" "rest = drop (i + 1) src"
    and tx: "tx = (let buf = bytes_str (take i src) in if buf \<noteq> [] \<and> last buf = CHR 0x0D then butlast buf else buf)"
    using assms by (auto simp: readHeaderLine_def Let_def maxAWSChunkHeaderLine_def split: option.splits if_splits)
  note sd = IndexByte_SomeD [OF i(1)]
  have src: "src = (take i src @ [10]) @ rest" using sd i(3) by simp
  have "IndexByte ((take i src @ [10]) @ rest') 10 = Some i" for rest'
    using sd IndexByte_append [of "10" "take i src" rest'] by (simp add: min_def)
  then have "readHeaderLine ((take i src @ [10]) @ rest') fin' = Inr (tx, rest')" for rest' fin'
    using sd i(2) tx by (simp add: readHeaderLine_def maxAWSChunkHeaderLine_def Let_def)
  then show ?thesis using src by metis
qed

lemma verifyChunkHash_cases:
  "verifyChunkHash h r = (e, r') \<Longrightarrow>
     (e = None \<longleftrightarrow> sig_ok (ac_ctx r) (ac_prevSig r) (ac_chunkSig r) h) \<and>
     (e = None \<longrightarrow> r' = r\<lparr>ac_prevSig := next_sig (ac_ctx r) (ac_prevSig r) (ac_chunkSig r)\<rparr>)"
  by (auto simp: verifyChunkHash_def sig_ok_def next_sig_def Let_def split: option.splits if_splits)

lemma expectCRLF_ok: "expectCRLF src = Inr rest \<longleftrightarrow> src = [13, 10] @ rest"
proof -
  have "\<not> length src < 2 \<Longrightarrow> take 2 src = [13, 10] \<Longrightarrow> src = [13, 10] @ drop 2 src" by (metis append_take_drop_id)
  then show ?thesis by (auto simp: expectCRLF_def)
qed

lemma readChunkHeader_ok:
  assumes "at_header src out r" "counts out r" "readChunkHeader r = (None, r')" "\<not> ac_done r"
  shows "counts out r' \<and> ac_ctx r' = ac_ctx r \<and>
    (if ac_done r' then \<exists>ds. body_framed (ac_ctx r) (seed_of (ac_ctx r)) ds src \<and> out = concat ds
     else in_chunk src out r' \<and> 0 < ac_remaining r')"
proof -
  obtain ds pre where f: "framed (ac_ctx r) (seed_of (ac_ctx r)) ds (ac_prevSig r) pre" "src = pre @ ac_source r" "out = concat ds"
    using assms(1) by (auto simp: at_header_def)
  obtain tx rest n sig where h: "readHeaderLine (ac_source r) (ac_fin r) = Inr (tx, rest)" "parseAWSChunkHeader tx = Inr (n, sig)"
    using assms(3) by (auto simp: readChunkHeader_def Let_def split: sum.splits prod.splits)
  obtain line where l: "ac_source r = line @ rest" "chunk_line line n sig"
    using readHeaderLine_split [OF h(1)] h(2) by (auto simp: chunk_line_def)
  define r1 where "r1 = r\<lparr>ac_source := rest, ac_remaining := n, ac_chunkSig := sig, ac_chunkHasher := []\<rparr>"
  have c1: "counts out r1" "ac_ctx r1 = ac_ctx r" "ac_prevSig r1 = ac_prevSig r" "ac_source r1 = rest" "ac_chunkSig r1 = sig" "\<not> ac_done r1"
    using assms(2,4) by (simp_all add: counts_def r1_def)
  show ?thesis
  proof (cases "n = 0")
    case False
    then have "r' = r1" using assms(3) h by (simp add: readChunkHeader_def r1_def Let_def)
    then show ?thesis using False c1 f l by (auto simp: in_chunk_def r1_def)
  next
    case True
    obtain e r2 where v: "verifyChunkHash awsChunkEmptySHA256 r1 = (e, r2)" by fastforce
    note vc = verifyChunkHash_cases [OF v]
    have h': "readChunkHeader r = (case verifyChunkHash awsChunkEmptySHA256 r1 of
                    (Some e, r) \<Rightarrow> (Some e, r)
                  | (None, r) \<Rightarrow>
                      (case expectCRLF (ac_source r) of
                         Inl e \<Rightarrow> (Some (wrap e), r)
                       | Inr src \<Rightarrow>
                           (case (if ac_trailers r then trailer_loop src (ac_fin r) 0 else Inr src) of
                              Inl e \<Rightarrow> (Some e, r)
                            | Inr src \<Rightarrow> (None, r\<lparr>ac_source := src, ac_done := True\<rparr>))))"
      using h True by (simp add: readChunkHeader_def r1_def Let_def)
    have e: "e = None" using assms(3) h' v by (auto split: option.splits)
    then have r2: "r2 = r1\<lparr>ac_prevSig := next_sig (ac_ctx r) (ac_prevSig r) sig\<rparr>" using vc c1 by simp
    obtain src2 src3 where s: "expectCRLF rest = Inr src2" "r' = r2\<lparr>ac_source := src3, ac_done := True\<rparr>"
      using assms(3) h' v e r2 c1 by (auto split: sum.splits)
    have "body_framed (ac_ctx r) (seed_of (ac_ctx r)) ds src"
      unfolding body_framed_def using f l True vc e c1 s(1)
      by (intro exI [of _ pre] exI [of _ "ac_prevSig r"] exI [of _ line] exI [of _ sig] exI [of _ src2]) (simp add: expectCRLF_ok)
    then show ?thesis using c1 f s(2) r2 by (auto simp: counts_def)
  qed
qed

lemma read_data_step_ok:
  assumes "in_chunk src out r" "counts out r" "0 < ac_remaining r" "\<not> ac_done r" "\<not> ac_needHeader r" "read_data_step k r = (p, None, r')"
  shows "reading src (out @ p) r' \<and> ac_ctx r' = ac_ctx r"
proof -
  obtain ds pre line where f: "framed (ac_ctx r) (seed_of (ac_ctx r)) ds (ac_prevSig r) pre"
    "chunk_line line (length (ac_chunkHasher r) + ac_remaining r) (ac_chunkSig r)"
    "src = pre @ line @ ac_chunkHasher r @ ac_source r" "out = concat ds @ ac_chunkHasher r"
    using assms(1) by (auto simp: in_chunk_def)
  define n where "n = min k (ac_remaining r)"
  define p' where "p' = take n (ac_source r)"
  define r1 where "r1 = r\<lparr>ac_source := drop n (ac_source r), ac_remaining := ac_remaining r - n, ac_chunkHasher := ac_chunkHasher r @ p',
    ac_contentHash := ac_contentHash r @ p', ac_decoded := ac_decoded r + int n\<rparr>"
  have rd: "readChunkData k r = (p, None, r')"
    using assms(6) by (auto simp: read_data_step_def split: prod.splits option.splits)
  have eq: "readChunkData k r =
    (if length (ac_source r) < n then ([], Some (case ac_fin r of None \<Rightarrow> Wrap EBADMSG | Some e \<Rightarrow> e), r)
     else if ac_maxTotal r1 < ac_decoded r1 then ([], Some (Wrap EOVERFLOW), r1)
     else if ac_remaining r1 = 0 then
       (case expectCRLF (ac_source r1) of
          Inl e \<Rightarrow> ([], Some (wrap e), r1)
        | Inr src \<Rightarrow>
            (case verifyChunkHash (data_hash (ac_chunkHasher r1)) (r1\<lparr>ac_source := src\<rparr>) of
               (Some e, r) \<Rightarrow> ([], Some e, r)
             | (None, r) \<Rightarrow> (p', None, r\<lparr>ac_chunkHasher := []\<rparr>)))
     else (p', None, r1))"
    by (simp only: readChunkData_def Let_def n_def p'_def r1_def data_hash_def)
  have n: "n \<le> length (ac_source r)" "\<not> ac_maxTotal r1 < ac_decoded r1" using rd by (auto simp: eq split: if_splits)
  have len: "length p' = n" "p' @ drop n (ac_source r) = ac_source r" using n(1) by (simp_all add: p'_def)
  have c1: "counts (out @ p') r1" using assms(2) n(2) len by (simp add: counts_def r1_def)
  show ?thesis
  proof (cases "ac_remaining r1 = 0")
    case False
    then have r': "p = p'" "r' = r1"
      using rd n by (simp_all add: eq)
    have "length (ac_chunkHasher r1) + ac_remaining r1 = length (ac_chunkHasher r) + ac_remaining r"
      using len(1) by (simp add: r1_def n_def)
    then have "in_chunk src (out @ p') r1"
      unfolding in_chunk_def using f len by (intro exI [of _ ds] exI [of _ pre] exI [of _ line]) (simp add: r1_def)
    then show ?thesis using False c1 assms(4,5) r' by (simp add: reading_def r1_def)
  next
    case True
    define d where "d = ac_chunkHasher r @ p'"
    obtain rest e r2 where s: "ac_source r1 = [13, 10] @ rest" "verifyChunkHash (data_hash d) (r1\<lparr>ac_source := rest\<rparr>) = (e, r2)"
      "e = None" "p = p'" "r' = r2\<lparr>ac_chunkHasher := []\<rparr>"
    proof -
      have dd: "ac_chunkHasher r1 = d" by (simp add: d_def r1_def)
      obtain rest where rest: "expectCRLF (ac_source r1) = Inr rest" using rd n True by (auto simp: eq split: sum.splits)
      obtain e r2 where v: "verifyChunkHash (data_hash d) (r1\<lparr>ac_source := rest\<rparr>) = (e, r2)" by fastforce
      have "(case e of Some e \<Rightarrow> ([], Some e, r2) | None \<Rightarrow> (p', None, r2\<lparr>ac_chunkHasher := []\<rparr>)) = (p, None, r')"
        using rd n True rest v by (simp add: eq dd)
      then show ?thesis using that rest v by (cases e) (auto simp: expectCRLF_ok)
    qed
    have r2: "sig_ok (ac_ctx r) (ac_prevSig r) (ac_chunkSig r) (data_hash d)"
      "r2 = r1\<lparr>ac_source := rest, ac_prevSig := next_sig (ac_ctx r) (ac_prevSig r) (ac_chunkSig r)\<rparr>"
      using verifyChunkHash_cases [OF s(2)] s(3) by (simp_all add: r1_def)
    have "length d = length (ac_chunkHasher r) + ac_remaining r" using True len(1) by (simp add: d_def r1_def n_def)
    then have "framed (ac_ctx r) (seed_of (ac_ctx r)) (ds @ [d]) (next_sig (ac_ctx r) (ac_prevSig r) (ac_chunkSig r)) (pre @ line @ d @ [13, 10])"
      using f(1,2) r2(1) by (intro framed.chunk) simp_all
    moreover have "src = (pre @ line @ d @ [13, 10]) @ rest" using f(3) len(2) s(1) by (simp add: d_def r1_def)
    moreover have "out @ p' = concat (ds @ [d])" by (simp add: f(4) d_def)
    ultimately have "at_header src (out @ p') r'"
      unfolding at_header_def by (intro exI [of _ "ds @ [d]"] exI [of _ "pre @ line @ d @ [13, 10]"]) (simp add: s(5) r2(2) r1_def)
    then show ?thesis using c1 assms(4) True s r2(2) by (simp add: reading_def counts_def r1_def)
  qed
qed

lemma verifyChunkHash_done: "verifyChunkHash h r = (e, r') \<Longrightarrow> ac_done r' = ac_done r"
  by (auto simp: verifyChunkHash_def Let_def split: option.splits if_splits)

lemma readChunkHeader_error: "readChunkHeader r = (Some e, r') \<Longrightarrow> ac_done r' = ac_done r"
  by (auto simp: readChunkHeader_def Let_def dest: verifyChunkHash_done split: sum.splits prod.splits if_splits option.splits)

lemma read_data_step_done: "read_data_step k r = (p, e, r') \<Longrightarrow> ac_done r' = ac_done r"
  by (auto simp: read_data_step_def readChunkData_def Let_def dest: verifyChunkHash_done split: sum.splits prod.splits if_splits option.splits)

lemma verifyChunkHash_max: "verifyChunkHash h r = (e, r') \<Longrightarrow> ac_maxTotal r' = ac_maxTotal r"
  by (auto simp: verifyChunkHash_def Let_def split: option.splits if_splits)

lemma readChunkHeader_max: "readChunkHeader r = (e, r') \<Longrightarrow> ac_maxTotal r' = ac_maxTotal r"
  by (auto simp: readChunkHeader_def Let_def dest!: verifyChunkHash_max split: sum.splits prod.splits if_splits option.splits)

lemma read_data_step_max: "read_data_step k r = (p, e, r') \<Longrightarrow> ac_maxTotal r' = ac_maxTotal r"
  by (auto simp: read_data_step_def readChunkData_def Let_def dest!: verifyChunkHash_max split: sum.splits prod.splits if_splits option.splits)

lemma Chunked_Read_max: "Chunked_Read k r = (p, e, r') \<Longrightarrow> ac_maxTotal r' = ac_maxTotal r"
  by (auto simp: Chunked_Read_def Let_def dest!: readChunkHeader_max read_data_step_max split: prod.splits if_splits option.splits)

lemma Chunked_Read_ok:
  assumes "reading src out r" "Chunked_Read k r = (p, e, r')"
  shows "(e = None \<longrightarrow> reading src (out @ p) r' \<and> ac_ctx r' = ac_ctx r) \<and>
    (ac_done r' \<longrightarrow> finished src out r' \<and> p = [] \<and> e = Some (Plain ''EOF'') \<and> ac_ctx r' = ac_ctx r)"
proof (cases "\<not> ac_needHeader r \<and> 0 < ac_remaining r")
  case True
  have i: "in_chunk src out r" "counts out r" "\<not> ac_done r" using assms(1) True by (auto simp: reading_def)
  show ?thesis
  proof (cases "ac_err r")
    case None
    then have s: "read_data_step k r = (p, e, r')" using assms(2) True i(3) by (simp add: Chunked_Read_def)
    then show ?thesis using read_data_step_ok [OF i(1,2) _ i(3)] True read_data_step_done [OF s] i(3) by auto
  qed (use assms(2) i(3) in \<open>auto simp: Chunked_Read_def\<close>)
next
  case False
  have i: "at_header src out r" "counts out r" "\<not> ac_done r" using assms(1) False by (auto simp: reading_def split: if_splits)
  have h: "at_header src out (r\<lparr>ac_needHeader := True\<rparr>)" "counts out (r\<lparr>ac_needHeader := True\<rparr>)" using i by (simp_all add: at_header_def counts_def)
  obtain e1 r1 where r1: "readChunkHeader (r\<lparr>ac_needHeader := True\<rparr>) = (e1, r1)" by fastforce
  define r2 where "r2 = r1\<lparr>ac_needHeader := False\<rparr>"
  show ?thesis
  proof (cases "ac_err r = None \<and> e1 = None")
    case True
    then have ok: "counts out r1 \<and> ac_ctx r1 = ac_ctx r \<and>
        (if ac_done r1 then \<exists>ds. body_framed (ac_ctx r) (seed_of (ac_ctx r)) ds src \<and> out = concat ds
         else in_chunk src out r1 \<and> 0 < ac_remaining r1)"
      using readChunkHeader_ok [OF h(1,2)] r1 i(3) by (simp cong: if_cong)
    have eq: "(p, e, r') = (if ac_done r2 then ([], Some (Plain ''EOF''), r2) else read_data_step k r2)"
      using assms(2) False True i(3) r1 by (auto simp add: Chunked_Read_def r2_def Let_def split: if_splits)
    show ?thesis
    proof (cases "ac_done r2")
      case True
      then show ?thesis using eq ok by (auto simp: finished_def counts_def r2_def)
    next
      case nd: False
      then have "in_chunk src out r2" "counts out r2" "0 < ac_remaining r2" "\<not> ac_needHeader r2" "ac_ctx r2 = ac_ctx r"
        using ok by (auto simp: r2_def)
      then show ?thesis using read_data_step_ok [of src out r2 k p r'] read_data_step_done [of k r2 p e r'] eq nd by auto
    qed
  next
    case nt: False
    have "e \<noteq> None \<and> \<not> ac_done r'"
    proof (cases "ac_err r")
      case (Some x)
      then have "e = Some x \<and> r' = r" using assms(2) i(3) by (simp add: Chunked_Read_def)
      then show ?thesis using i(3) by simp
    next
      case None
      with nt obtain x where "e1 = Some x" by auto
      then show ?thesis using assms(2) False i(3) r1 readChunkHeader_error [of "r\<lparr>ac_needHeader := True\<rparr>" x r1] None
        by (auto simp: Chunked_Read_def)
    qed
    then show ?thesis by auto
  qed
qed

text \<open>A caller reads with buffers of any sizes.\<close>

inductive reads :: "awsChunkedReader \<Rightarrow> bytes \<Rightarrow> awsChunkedReader \<Rightarrow> bool" for r0 where
  start: "reads r0 [] r0"
| read: "reads r0 out r \<Longrightarrow> Chunked_Read k r = (p, None, r') \<Longrightarrow> reads r0 (out @ p) r'"

lemma reads_reading:
  assumes "reads (newAWSChunkedReader src fin ctx tr mx) out r" "0 \<le> mx"
  shows "reading src out r \<and> ac_ctx r = ctx \<and> ac_maxTotal r = mx"
  using assms(1)
proof (induction rule: reads.induct)
  case start
  have "framed ctx (seed_of ctx) [] (seed_of ctx) []" by (rule framed.no_chunk)
  then show ?case using assms(2)
    by (auto simp: reading_def counts_def at_header_def newAWSChunkedReader_def seed_of_def)
next
  case (read out r k p r')
  have "ac_maxTotal r' = ac_maxTotal r" using read.hyps(2) by (rule Chunked_Read_max)
  then show ?case using read.IH Chunked_Read_ok [of src out r k p None r'] read.hyps(2) by auto
qed

text \<open>
  C12: A body that was read to its end, with whatever buffers, was framed as the format demands, and with a
  signing context every chunk carried the signature that follows from its data and the signature before
  it, starting at the request's; the bytes delivered are the chunks' data, the reported hash is theirs,
  and they are no more than the limit.
\<close>

theorem Chunked_Read_authentic:
  assumes "reads (newAWSChunkedReader src fin ctx tr mx) out r" "0 \<le> mx" "Chunked_Read k r = (p, e, r')" "ac_done r'"
  shows "\<exists>ds. body_framed ctx (seed_of ctx) ds src \<and> out = concat ds \<and> ContentHash r' = HashBytes out \<and> int (length out) \<le> mx"
proof -
  note rr = reads_reading [OF assms(1,2)]
  from Chunked_Read_ok [OF conjunct1 [OF rr] assms(3)] assms(4) have f: "finished src out r'" "ac_ctx r' = ctx" using rr by auto
  have "int (length out) \<le> mx" using rr by (simp add: reading_def counts_def)
  with f show ?thesis by (auto simp: finished_def counts_def ContentHash_def HashBytes_def)
qed

section \<open>What is framed is accepted\<close>

text \<open>A decoder between two chunks that has delivered \<open>out\<close> and still has \<open>rest\<close> to read.\<close>

definition between :: "awsChunkedReader \<Rightarrow> bytes \<Rightarrow> bytes \<Rightarrow> string \<Rightarrow> awsChunkedReader \<Rightarrow> bool" where
  "between r0 out rest q r \<longleftrightarrow> ac_source r = rest \<and> ac_prevSig r = q \<and> (ac_needHeader r \<or> ac_remaining r = 0) \<and>
     \<not> ac_done r \<and> ac_err r = None \<and> ac_decoded r = int (length out) \<and> ac_ctx r = ac_ctx r0 \<and>
     ac_trailers r = ac_trailers r0 \<and> ac_maxTotal r = ac_maxTotal r0 \<and> ac_fin r = ac_fin r0"

definition within :: "awsChunkedReader \<Rightarrow> bytes \<Rightarrow> bytes \<Rightarrow> bytes \<Rightarrow> bytes \<Rightarrow> string \<Rightarrow> string \<Rightarrow> awsChunkedReader \<Rightarrow> bool" where
  "within r0 out d0 todo rest q sig r \<longleftrightarrow> ac_source r = todo @ [13, 10] @ rest \<and> ac_prevSig r = q \<and> \<not> ac_needHeader r \<and>
     ac_remaining r = length todo \<and> ac_chunkHasher r = d0 \<and> ac_chunkSig r = sig \<and>
     \<not> ac_done r \<and> ac_err r = None \<and> ac_decoded r = int (length out) \<and> ac_ctx r = ac_ctx r0 \<and>
     ac_trailers r = ac_trailers r0 \<and> ac_maxTotal r = ac_maxTotal r0 \<and> ac_fin r = ac_fin r0"

lemma verifyChunkHash_accepts:
  "sig_ok (ac_ctx r) (ac_prevSig r) (ac_chunkSig r) h \<Longrightarrow>
     verifyChunkHash h r = (None, r\<lparr>ac_prevSig := next_sig (ac_ctx r) (ac_prevSig r) (ac_chunkSig r)\<rparr>)"
  by (auto simp: verifyChunkHash_def sig_ok_def next_sig_def Let_def split: option.splits)

lemma expectCRLF_CRLF [simp]: "expectCRLF (13 # 10 # rest) = Inr rest"
  using expectCRLF_ok [of "13 # 10 # rest" rest] by simp

lemma data_step_within:
  assumes w: "within r0 out dn todo rest q sig r" and k: "0 < k" "todo \<noteq> []"
    and mx: "int (length out + length todo) \<le> ac_maxTotal r0" and s: "sig_ok (ac_ctx r0) q sig (data_hash (dn @ todo))"
  shows "\<exists>r'. read_data_step k r = (take k todo, None, r') \<and>
    (if k < length todo then within r0 (out @ take k todo) (dn @ take k todo) (drop k todo) rest q sig r'
     else between r0 (out @ todo) rest (next_sig (ac_ctx r0) q sig) r')"
proof (cases "k < length todo")
  case True
  then show ?thesis using w mx by (auto simp: within_def read_data_step_def readChunkData_def Let_def min_def)
next
  case False
  define r1 where "r1 = r\<lparr>ac_source := [13, 10] @ rest, ac_remaining := 0, ac_chunkHasher := dn @ todo,
    ac_contentHash := ac_contentHash r @ todo, ac_decoded := ac_decoded r + int (length todo)\<rparr>"
  let ?r2 = "r1\<lparr>ac_source := rest\<rparr>"
  have "sig_ok (ac_ctx ?r2) (ac_prevSig ?r2) (ac_chunkSig ?r2) (data_hash (ac_chunkHasher r1))"
    using w s by (simp add: within_def r1_def)
  note v = verifyChunkHash_accepts [OF this]
  have "readChunkData k r = (todo, None, ?r2\<lparr>ac_prevSig := next_sig (ac_ctx r0) q sig, ac_chunkHasher := []\<rparr>)"
    using w False mx v by (simp add: readChunkData_def Let_def min_def within_def r1_def data_hash_def)
  then show ?thesis using w False by (auto simp: read_data_step_def within_def between_def r1_def)
qed

lemma header_step:
  assumes b: "between r0 out (line @ d @ [13, 10] @ rest) q r" and l: "chunk_line line (length d) sig" "d \<noteq> []"
  shows "\<exists>r1. within r0 out [] d rest q sig r1 \<and> Chunked_Read k r = read_data_step k r1"
proof -
  obtain tx where tx: "\<And>rest fin. readHeaderLine (line @ rest) fin = Inr (tx, rest)" "parseAWSChunkHeader tx = Inr (length d, sig)"
    using l by (auto simp: chunk_line_def)
  define r1 where "r1 = r\<lparr>ac_source := d @ [13, 10] @ rest, ac_remaining := length d, ac_chunkSig := sig, ac_chunkHasher := [], ac_needHeader := False\<rparr>"
  have "Chunked_Read k r = read_data_step k r1"
    using b tx l(2) by (auto simp: Chunked_Read_def between_def readChunkHeader_def Let_def r1_def)
  moreover have "within r0 out [] d rest q sig r1" using b by (simp add: within_def between_def r1_def)
  ultimately show ?thesis by blast
qed

lemma reads_within:
  assumes "0 < (k :: nat)" "sig_ok (ac_ctx r0) q sig (data_hash (dn @ todo))" "int (length out + length todo) \<le> ac_maxTotal r0"
    "todo \<noteq> []" "reads r0 out r" "within r0 out dn todo rest q sig r"
  shows "\<exists>r'. reads r0 (out @ todo) r' \<and> between r0 (out @ todo) rest (next_sig (ac_ctx r0) q sig) r'"
  using assms(2-6)
proof (induction "length todo" arbitrary: todo dn out r rule: less_induct)
  case less
  obtain r' where r': "read_data_step k r = (take k todo, None, r')"
    "if k < length todo then within r0 (out @ take k todo) (dn @ take k todo) (drop k todo) rest q sig r'
     else between r0 (out @ todo) rest (next_sig (ac_ctx r0) q sig) r'"
    using data_step_within [OF less.prems(5) assms(1) less.prems(3,2,1)] by blast
  have "Chunked_Read k r = (take k todo, None, r')"
    using r'(1) less.prems(3,5) by (simp add: Chunked_Read_def within_def)
  with less.prems(4) have rd: "reads r0 (out @ take k todo) r'" by (rule reads.read)
  show ?case
  proof (cases "k < length todo")
    case True
    have "\<exists>r''. reads r0 ((out @ take k todo) @ drop k todo) r'' \<and>
        between r0 ((out @ take k todo) @ drop k todo) rest (next_sig (ac_ctx r0) q sig) r''"
      using True r'(2) less.prems assms(1) rd by (intro less.hyps) auto
    then show ?thesis by simp
  next
    case False
    then show ?thesis using r'(2) rd by auto
  qed
qed

lemma reads_framed:
  assumes "framed ctx (seed_of ctx) ds q pre" "0 < (k :: nat)" "[] \<notin> set ds" "int (length (concat ds)) \<le> mx"
  shows "\<exists>r. reads (newAWSChunkedReader (pre @ rest) fin ctx tr mx) (concat ds) r \<and>
    between (newAWSChunkedReader (pre @ rest) fin ctx tr mx) (concat ds) rest q r"
  using assms(1,3,4)
proof (induction arbitrary: rest rule: framed.induct)
  case no_chunk
  show ?case by (intro exI [of _ "newAWSChunkedReader ([] @ rest) fin ctx tr mx"])
      (simp add: between_def newAWSChunkedReader_def seed_of_def reads.start)
next
  case (chunk ds q pre line d sig)
  define r0 where "r0 = newAWSChunkedReader ((pre @ line @ d @ [13, 10]) @ rest) fin ctx tr mx"
  have r0: "ac_ctx r0 = ctx" "ac_maxTotal r0 = mx" by (simp_all add: r0_def newAWSChunkedReader_def)
  obtain r where r: "reads r0 (concat ds) r" "between r0 (concat ds) (line @ d @ [13, 10] @ rest) q r"
    using chunk.IH [of "line @ d @ [13, 10] @ rest"] chunk.prems by (auto simp: r0_def)
  have d: "d \<noteq> []" "int (length (concat ds) + length d) \<le> ac_maxTotal r0" using chunk.prems r0 by auto
  obtain r1 where r1: "within r0 (concat ds) [] d rest q sig r1" "Chunked_Read k r = read_data_step k r1"
    using header_step [OF r(2) chunk.hyps(2) d(1)] by blast
  obtain r2 where r2: "read_data_step k r1 = (take k d, None, r2)"
    "if k < length d then within r0 (concat ds @ take k d) (take k d) (drop k d) rest q sig r2
     else between r0 (concat ds @ d) rest (next_sig ctx q sig) r2"
    using data_step_within [OF r1(1) assms(2) d] chunk.hyps(3) r0(1) by (auto cong: if_cong)
  have rd: "reads r0 (concat ds @ take k d) r2" using r(1) r1(2) r2(1) by (intro reads.read) simp_all
  have "\<exists>r. reads r0 (concat ds @ d) r \<and> between r0 (concat ds @ d) rest (next_sig ctx q sig) r"
  proof (cases "k < length d")
    case True
    then have "\<exists>r'. reads r0 ((concat ds @ take k d) @ drop k d) r' \<and>
        between r0 ((concat ds @ take k d) @ drop k d) rest (next_sig (ac_ctx r0) q sig) r'"
      using r2(2) chunk.hyps(3) d(2) r0 rd by (intro reads_within [where dn = "take k d", OF assms(2)]) auto
    then show ?thesis using r0 by simp
  next
    case False
    then show ?thesis using r2(2) rd by auto
  qed
  then show ?case by (simp add: r0_def)
qed

lemma reads_body:
  assumes "body_framed ctx (seed_of ctx) ds src" "0 < k" "[] \<notin> set ds" "int (length (concat ds)) \<le> mx"
  shows "\<exists>r r'. reads (newAWSChunkedReader src fin ctx False mx) (concat ds) r \<and>
    Chunked_Read k r = ([], Some (Plain ''EOF''), r') \<and> ac_done r'"
proof -
  obtain pre q line sig rest where b: "framed ctx (seed_of ctx) ds q pre" "chunk_line line 0 sig"
    "sig_ok ctx q sig awsChunkEmptySHA256" "src = pre @ line @ [13, 10] @ rest" using assms(1) by (auto simp: body_framed_def)
  let ?r0 = "newAWSChunkedReader src fin ctx False mx"
  obtain r where r: "reads ?r0 (concat ds) r" "between ?r0 (concat ds) (line @ [13, 10] @ rest) q r"
    using reads_framed [OF b(1) assms(2,3,4), of "line @ [13, 10] @ rest" fin False] b(4) by auto
  obtain tx where tx: "\<And>rest fin. readHeaderLine (line @ rest) fin = Inr (tx, rest)" "parseAWSChunkHeader tx = Inr (0, sig)"
    using b(2) by (auto simp: chunk_line_def)
  define r1 where "r1 = r\<lparr>ac_needHeader := True, ac_source := [13, 10] @ rest, ac_remaining := 0, ac_chunkSig := sig, ac_chunkHasher := []\<rparr>"
  have src: "ac_source r = line @ 13 # 10 # rest" "ac_trailers r = False" "ac_ctx r = ctx" "ac_prevSig r = q"
    using r(2) by (auto simp: between_def newAWSChunkedReader_def)
  have "verifyChunkHash awsChunkEmptySHA256 r1 = (None, r1\<lparr>ac_prevSig := next_sig ctx q sig\<rparr>)"
    using verifyChunkHash_accepts [of r1 awsChunkEmptySHA256] b(3) src by (simp add: r1_def)
  then have "readChunkHeader (r\<lparr>ac_needHeader := True\<rparr>) = (None, r1\<lparr>ac_prevSig := next_sig ctx q sig, ac_source := rest, ac_done := True\<rparr>)"
    using tx src by (simp add: readChunkHeader_def Let_def r1_def)
  then have "Chunked_Read k r = ([], Some (Plain ''EOF''), r1\<lparr>ac_prevSig := next_sig ctx q sig, ac_source := rest, ac_done := True, ac_needHeader := False\<rparr>)"
    using r(2) by (auto simp: Chunked_Read_def between_def)
  then show ?thesis using r(1) by auto
qed


definition demo_body :: bytes where "demo_body = [50, 13, 10, 97, 98, 13, 10, 48, 13, 10, 13, 10]"

lemma demo_line:
  assumes "d \<in> {48, 50}"
  shows "chunk_line [d, 13, 10] (if d = 50 then 2 else 0) []"
proof -
  have ts: "TrimSpace ''2'' = ''2''" "TrimSpace ''0'' = ''0''" by (rule TrimSpace_id; simp add: space_runes_def)+
  have hx: "fromHexChar (CHR ''2'') = Some 2" "fromHexChar (CHR ''0'') = Some 0" by code_simp+
  have t: "parseAWSChunkHeader ''2'' = Inr (2, [])" "parseAWSChunkHeader ''0'' = Inr (0, [])"
    by (simp_all add: parseAWSChunkHeader_def ts ParseInt16_def hx maxAWSChunkSize_def awsChunkSigField_def HasPrefix_def)
  have cr: "char_of (13 :: nat) = CHR 0x0D" by code_simp
  have b: "bytes_str [50] = ''2''" "bytes_str [48] = ''0''" by code_simp+
  have "parseAWSChunkHeader (bytes_str [d]) = Inr (if d = 50 then 2 else 0, [])" using assms t b by auto
  moreover have "readHeaderLine ([d, 13, 10] @ rest) fin = Inr (bytes_str [d], rest)" for rest fin
    using assms b cr by (auto simp: readHeaderLine_def maxAWSChunkHeaderLine_def bytes_str_def Let_def)
  ultimately show ?thesis unfolding chunk_line_def by blast
qed

lemma demo_body_framed: "body_framed None (seed_of None) [[97, 98]] demo_body"
proof -
  have "framed None (seed_of None) ([] @ [[97, 98]]) (next_sig None (seed_of None) []) ([] @ [50, 13, 10] @ [97, 98] @ [13, 10])"
    using demo_line [of 50] by (intro framed.chunk framed.no_chunk) (simp_all add: sig_ok_def numeral_2_eq_2)
  then show ?thesis unfolding body_framed_def
    using demo_line [of 48]
    by (intro exI [of _ "[50, 13, 10] @ [97, 98] @ [13, 10]"] exI [of _ "next_sig None (seed_of None) []"] exI [of _ "[48, 13, 10]"] exI [of _ "[]"])
      (auto simp: sig_ok_def demo_body_def)
qed


theorem Chunked_Read_authentic_witness:
  "\<exists>r r' ds. Chunked_Read 1 r = ([], Some (Plain ''EOF''), r') \<and> body_framed None (seed_of None) ds demo_body \<and> [97, 98] = concat ds
     \<and> ContentHash r' = HashBytes [97, 98]"
proof -
  obtain r r' where r: "reads (newAWSChunkedReader demo_body None None False 100) [97, 98] r"
    "Chunked_Read 1 r = ([], Some (Plain ''EOF''), r')" "ac_done r'" using reads_body [OF demo_body_framed, of 1 100 None] by auto
  from Chunked_Read_authentic [OF r(1) _ r(2,3)] r(2) show ?thesis by auto
qed

end
