(* ===== verification/Gossip.thy ===== *)
theory Gossip
  imports Lease
begin

text \<open>
  Gossip membership and failure detection (\<^verbatim>\<open>src/src/p2p/gossip.go\<close>) and the queries it routes
  (\<^verbatim>\<open>scatter_gather.go\<close>). A handler returns the state it leaves, what it sends and the callbacks it makes.
  The clock, the shuffle, which sends fail and the floating-point average are arguments. Instants and
  durations are 64-bit nanoseconds.
\<close>

section \<open>Scatter and gather\<close>

text \<open>A query waits on a channel of answers with room for one per peer.\<close>

record pendingQuery =
  pq_peerCount :: nat
  pq_responses :: "QueryResponsePayload list"

record ScatterGather =
  sg_localID :: "32 word"
  sg_nextRequestID :: "64 word"
  sg_pending :: "64 word \<rightharpoonup> pendingQuery"
  sg_queriesTotal :: "64 word"
  sg_timeoutsTotal :: "64 word"

definition NewScatterGather :: "32 word \<Rightarrow> ScatterGather" where
  "NewScatterGather localID =
     \<lparr>sg_localID = localID, sg_nextRequestID = 0, sg_pending = Map.empty, sg_queriesTotal = 0, sg_timeoutsTotal = 0\<rparr>"

type_synonym query_handler = "(byte \<Rightarrow> bytes \<Rightarrow> string + bytes) option"

definition handleQuery :: "query_handler \<Rightarrow> RPC \<Rightarrow> ScatterGather \<Rightarrow> (32 word \<times> RPC) list" where
  "handleQuery handler rpc sg =
     (case DecodeQueryPayload (rpc_Payload rpc) of
        Inl _ \<Rightarrow> []
      | Inr payload \<Rightarrow>
          let (respErr, respData) = (case handler of
                None \<Rightarrow> ([], [])
              | Some h \<Rightarrow> (case h (qp_Type payload) (qp_Data payload) of Inl e \<Rightarrow> (e, []) | Inr d \<Rightarrow> ([], d))) in
          [(rpc_From rpc, \<lparr>rpc_From = sg_localID sg, rpc_Type = MsgQueryResponse,
             rpc_Payload = QueryResponse_Encode \<lparr>qr_RequestID = qp_RequestID payload, qr_Data = respData, qr_Error = respErr\<rparr>\<rparr>)])"

definition handleQueryResponse :: "RPC \<Rightarrow> ScatterGather \<Rightarrow> ScatterGather" where
  "handleQueryResponse rpc sg =
     (case DecodeQueryResponsePayload (rpc_Payload rpc) of
        Inl _ \<Rightarrow> sg
      | Inr payload \<Rightarrow>
          (case sg_pending sg (qr_RequestID payload) of
             None \<Rightarrow> sg
           | Some pq \<Rightarrow>
               if length (pq_responses pq) < pq_peerCount pq then
                 sg\<lparr>sg_pending := (sg_pending sg)(qr_RequestID payload \<mapsto> pq\<lparr>pq_responses := pq_responses pq @ [payload]\<rparr>)\<rparr>
               else sg))"

definition Scatter_HandleRPC :: "query_handler \<Rightarrow> RPC \<Rightarrow> ScatterGather \<Rightarrow> ScatterGather \<times> (32 word \<times> RPC) list" where
  "Scatter_HandleRPC handler rpc sg =
     (if rpc_Type rpc = MsgQuery then (sg, handleQuery handler rpc sg)
      else if rpc_Type rpc = MsgQueryResponse then (handleQueryResponse rpc sg, [])
      else (sg, []))"

text \<open>
  \<^verbatim>\<open>Query\<close> in its parts: what it registers and broadcasts, and its loop over what the \<^verbatim>\<open>select\<close> receives; the
  timer fires when nothing else comes.
\<close>

definition Query_start :: "PeerMap \<Rightarrow> byte \<Rightarrow> bytes \<Rightarrow> ScatterGather \<Rightarrow> (ScatterGather \<times> 64 word \<times> nat \<times> RPC) option" where
  "Query_start peers qt data sg =
     (let peerCount = other_peers (sg_localID sg) peers in
      if peerCount = 0 then None
      else let requestID = sg_nextRequestID sg + 1 in
        Some (sg\<lparr>sg_nextRequestID := requestID,
                 sg_pending := (sg_pending sg)(requestID \<mapsto> \<lparr>pq_peerCount = peerCount, pq_responses = []\<rparr>),
                 sg_queriesTotal := sg_queriesTotal sg + 1\<rparr>,
              requestID, peerCount,
              \<lparr>rpc_From = sg_localID sg, rpc_Type = MsgQuery,
               rpc_Payload = Query_Encode \<lparr>qp_Type = qt, qp_RequestID = requestID, qp_Data = data\<rparr>\<rparr>))"

fun Query_loop :: "nat \<Rightarrow> QueryResponsePayload list \<Rightarrow> QueryResponsePayload option list \<Rightarrow> QueryResponsePayload list \<times> bool" where
  "Query_loop peerCount results evs =
     (if peerCount \<le> length results then (results, False)
      else case evs of
        Some resp # evs' \<Rightarrow> Query_loop peerCount (results @ [resp]) evs'
      | _ \<Rightarrow> (results, True))"

declare Query_loop.simps [simp del]

definition Query_end :: "64 word \<Rightarrow> bool \<Rightarrow> ScatterGather \<Rightarrow> ScatterGather" where
  "Query_end requestID timedOut sg =
     sg\<lparr>sg_pending := (sg_pending sg)(requestID := None),
        sg_timeoutsTotal := (if timedOut then sg_timeoutsTotal sg + 1 else sg_timeoutsTotal sg)\<rparr>"

section \<open>The gossiper\<close>

definition MaxPeersInHeartbeat :: nat where "MaxPeersInHeartbeat = 256"
definition minGossipFanout :: nat where "minGossipFanout = 1"
definition maxGossipFanout :: nat where "maxGossipFanout = 10"

record GossipConfig =
  gc_LocalID :: "32 word"
  gc_SuspicionTimeout :: "64 word"
  gc_Fanout :: int
  gc_IndirectPingCount :: int

text \<open>
  The loop compares the number of peers with the powers of e, none of which is near an integer; the list
  holds their integer parts.
\<close>

fun fanout_loop :: "nat list \<Rightarrow> nat \<Rightarrow> nat \<Rightarrow> nat" where
  "fanout_loop [] n f = f"
| "fanout_loop (v # vs) n f =
     (if v < n then (if maxGossipFanout \<le> f + 1 then maxGossipFanout else fanout_loop vs n (f + 1)) else f)"

definition e_powers :: "nat list" where "e_powers = [2, 7, 20, 54, 148, 403, 1096, 2980, 8103]"

definition adaptiveFanout :: "nat \<Rightarrow> nat" where
  "adaptiveFanout aliveCount = (if aliveCount \<le> 1 then minGossipFanout else fanout_loop e_powers aliveCount minGossipFanout)"

definition effectiveFanout :: "int \<Rightarrow> nat \<Rightarrow> int" where
  "effectiveFanout cfgFanout aliveCount = (if 0 < cfgFanout then cfgFanout else int (adaptiveFanout aliveCount))"

text \<open>A pending ping is its one-place channel: whether an acknowledgement lies in it.\<close>

record Gossiper =
  g_cfg :: GossipConfig
  g_peers :: PeerMap
  g_rtt :: "32 word \<rightharpoonup> 64 word"
  g_pendingPings :: "64 word \<rightharpoonup> bool"
  g_nextPingID :: "64 word"
  g_loadProvider :: "PeerLoad option"
  g_scatterGather :: "ScatterGather option"
  g_leaseManager :: "LeaseManager option"
  g_hasMetadataRPC :: bool

datatype gossip_event = Joined Peer | Left "32 word"

definition rtt_Update :: "(64 word \<Rightarrow> 64 word \<Rightarrow> 64 word) \<Rightarrow> 32 word \<Rightarrow> 64 word \<Rightarrow> (32 word \<rightharpoonup> 64 word) \<Rightarrow> 64 word \<times> (32 word \<rightharpoonup> 64 word)" where
  "rtt_Update ewma peerID sample rtts =
     (let v = (case rtts peerID of None \<Rightarrow> sample | Some prev \<Rightarrow> ewma prev sample) in (v, rtts(peerID \<mapsto> v)))"

definition rtt_Get :: "32 word \<Rightarrow> (32 word \<rightharpoonup> 64 word) \<Rightarrow> 64 word" where
  "rtt_Get peerID rtts = (case rtts peerID of None \<Rightarrow> 0 | Some v \<Rightarrow> v)"

definition adaptiveTimeout :: "32 word \<Rightarrow> Gossiper \<Rightarrow> 64 word" where
  "adaptiveTimeout peerID g =
     (let rtt = rtt_Get peerID (g_rtt g); t = gc_SuspicionTimeout (g_cfg g) in
      if rtt \<le>s 0 then t
      else let adaptive = rtt * 10 in
        if adaptive <s t then t else if 5 * t <s adaptive then 5 * t else adaptive)"

text \<open>One peer of \<^verbatim>\<open>checkSuspicion\<close>: its new state and whether it is reported as gone.\<close>

definition suspect_peer :: "64 word \<Rightarrow> Gossiper \<Rightarrow> Peer \<Rightarrow> Peer \<times> bool" where
  "suspect_peer now g p =
     (if p_ID p = gc_LocalID (g_cfg g) then (p, False)
      else let elapsed = sint now - sint (p_lastSeen p); timeout = adaptiveTimeout (p_ID p) g in
        (case p_state p of
           PeerStateAlive \<Rightarrow> (if sint timeout < elapsed then SetState PeerStateSuspect p else p, False)
         | PeerStateSuspect \<Rightarrow> if sint (2 * timeout) < elapsed then (SetState PeerStateOffline p, True) else (p, False)
         | PeerStateOffline \<Rightarrow> (p, False)))"

definition checkSuspicion :: "64 word \<Rightarrow> Gossiper \<Rightarrow> Gossiper \<times> gossip_event list" where
  "checkSuspicion now g =
     (g\<lparr>g_peers := map (\<lambda>p. fst (suspect_peer now g p)) (PeerMap_All (g_peers g))\<rparr>,
      map (\<lambda>p. Left (p_ID p)) (filter (\<lambda>p. snd (suspect_peer now g p)) (PeerMap_All (g_peers g))))"

text \<open>What a heartbeat, a ping or an acknowledgement does to the entry of its sender.\<close>

definition revive :: "64 word \<Rightarrow> Peer \<Rightarrow> Peer" where
  "revive now p =
     (let p = Touch now p in
      if p_state p = PeerStateSuspect \<or> p_state p = PeerStateOffline then SetState PeerStateAlive p else p)"

fun merge_peers :: "64 word \<Rightarrow> 32 word \<Rightarrow> PeerInfo list \<Rightarrow> PeerMap \<Rightarrow> PeerMap \<times> gossip_event list" where
  "merge_peers now localID [] m = (m, [])"
| "merge_peers now localID (i # is) m =
     (if pi_ID i = localID \<or> PeerMap_Get (pi_ID i) m \<noteq> None then merge_peers now localID is m
      else let peer = NewPeer now (pi_ID i) (pi_Addr i); (m', evs) = merge_peers now localID is (PeerMap_Add peer m) in
        (m', Joined peer # evs))"

definition handleHeartbeat :: "64 word \<Rightarrow> RPC \<Rightarrow> Gossiper \<Rightarrow> Gossiper \<times> gossip_event list" where
  "handleHeartbeat now rpc g =
     (case DecodeHeartbeatPayload (rpc_Payload rpc) of
        Inl _ \<Rightarrow> (g, [])
      | Inr payload \<Rightarrow>
          let (m, evs) = merge_peers now (gc_LocalID (g_cfg g)) (take MaxPeersInHeartbeat (hb_Peers payload)) (g_peers g) in
          (g\<lparr>g_peers := modify_peer (rpc_From rpc) (revive now) m\<rparr>, evs))"

definition handleMembership :: "64 word \<Rightarrow> RPC \<Rightarrow> Gossiper \<Rightarrow> Gossiper \<times> gossip_event list" where
  "handleMembership now rpc g =
     (case DecodeHeartbeatPayload (rpc_Payload rpc) of
        Inl _ \<Rightarrow> (g, [])
      | Inr payload \<Rightarrow>
          let (m, evs) = merge_peers now (gc_LocalID (g_cfg g)) (take MaxPeersInHeartbeat (hb_Peers payload)) (g_peers g) in
          (g\<lparr>g_peers := m\<rparr>, evs))"

definition markSuspectIfAlive :: "32 word \<Rightarrow> Gossiper \<Rightarrow> Gossiper" where
  "markSuspectIfAlive peerID g =
     g\<lparr>g_peers := modify_peer peerID (\<lambda>p. if p_state p = PeerStateAlive then SetState PeerStateSuspect p else p) (g_peers g)\<rparr>"

definition handleSuspect :: "RPC \<Rightarrow> Gossiper \<Rightarrow> Gossiper" where
  "handleSuspect rpc g =
     (if length (rpc_Payload rpc) < 4 then g
      else let suspectID = Uint32 (take 4 (rpc_Payload rpc)) in
        if suspectID = gc_LocalID (g_cfg g) then g else markSuspectIfAlive suspectID g)"

definition handleLoad :: "RPC \<Rightarrow> Gossiper \<Rightarrow> Gossiper" where
  "handleLoad rpc g =
     (case DecodeLoadPayload (rpc_Payload rpc) of
        Inl _ \<Rightarrow> g
      | Inr load \<Rightarrow> g\<lparr>g_peers := modify_peer (rpc_From rpc) (SetLoad load) (g_peers g)\<rparr>)"

definition handlePing :: "64 word \<Rightarrow> RPC \<Rightarrow> Gossiper \<Rightarrow> Gossiper \<times> (32 word \<times> RPC) list" where
  "handlePing now rpc g =
     (case DecodePingPayload (rpc_Payload rpc) of
        Inl _ \<Rightarrow> (g, [])
      | Inr payload \<Rightarrow>
          (g\<lparr>g_peers := modify_peer (rpc_From rpc) (revive now) (g_peers g)\<rparr>,
           [(rpc_From rpc, \<lparr>rpc_From = gc_LocalID (g_cfg g), rpc_Type = MsgAck,
              rpc_Payload = Ping_Encode (payload\<lparr>pp_TargetID := gc_LocalID (g_cfg g)\<rparr>)\<rparr>)]))"

definition handleAck :: "64 word \<Rightarrow> RPC \<Rightarrow> Gossiper \<Rightarrow> Gossiper" where
  "handleAck now rpc g =
     (case DecodePingPayload (rpc_Payload rpc) of
        Inl _ \<Rightarrow> g
      | Inr payload \<Rightarrow>
          (case g_pendingPings g (pp_PingID payload) of
             None \<Rightarrow> g
           | Some full \<Rightarrow>
               g\<lparr>g_pendingPings := (g_pendingPings g)(pp_PingID payload \<mapsto> True),
                 g_peers := modify_peer (rpc_From rpc) (revive now) (g_peers g)\<rparr>))"

definition removePendingPing :: "64 word \<Rightarrow> Gossiper \<Rightarrow> Gossiper" where
  "removePendingPing pingID g = g\<lparr>g_pendingPings := (g_pendingPings g)(pingID := None)\<rparr>"

section \<open>Sending\<close>

definition broadcastLoad :: "Peer list \<Rightarrow> Gossiper \<Rightarrow> (32 word \<times> RPC) list" where
  "broadcastLoad peers g =
     (case g_loadProvider g of
        None \<Rightarrow> []
      | Some load \<Rightarrow>
          map (\<lambda>p. (p_ID p, \<lparr>rpc_From = gc_LocalID (g_cfg g), rpc_Type = MsgLoad, rpc_Payload = Load_Encode load\<rparr>)) peers)"

definition sendHeartbeat :: "(Peer list \<Rightarrow> Peer list) \<Rightarrow> Gossiper \<Rightarrow> (32 word \<times> RPC) list" where
  "sendHeartbeat shuffle g =
     (let fanout = effectiveFanout (gc_Fanout (g_cfg g)) (AliveCount (g_peers g));
          peers = RandomPeers shuffle fanout (gc_LocalID (g_cfg g)) (g_peers g) in
      if peers = [] then []
      else broadcastLoad peers g @
        map (\<lambda>p. (p_ID p, \<lparr>rpc_From = gc_LocalID (g_cfg g), rpc_Type = MsgHeartbeat,
               rpc_Payload = Heartbeat_Encode \<lparr>hb_Peers = PeerInfos (g_peers g)\<rparr>\<rparr>)) peers)"

definition AnnounceJoin :: "Peer \<Rightarrow> Gossiper \<Rightarrow> RPC" where
  "AnnounceJoin newPeer g =
     \<lparr>rpc_From = gc_LocalID (g_cfg g), rpc_Type = MsgMembership,
      rpc_Payload = Heartbeat_Encode \<lparr>hb_Peers = [\<lparr>pi_ID = p_ID newPeer, pi_Addr = p_Addr newPeer\<rparr>]\<rparr>\<rparr>"

definition AnnounceSuspect :: "32 word \<Rightarrow> Gossiper \<Rightarrow> RPC" where
  "AnnounceSuspect peerID g =
     \<lparr>rpc_From = gc_LocalID (g_cfg g), rpc_Type = MsgSuspect, rpc_Payload = PutUint32 peerID\<rparr>"

text \<open>
  \<^verbatim>\<open>sendPing\<close> in its parts: the ping it registers and sends, what follows an acknowledgement, and what
  follows a timeout, first of the direct ping and then of the indirect ones.
\<close>

definition ping_id :: "32 word \<Rightarrow> 64 word \<Rightarrow> 64 word" where
  "ping_id localID n = or (push_bit 32 (ucast localID)) (and n 0xFFFFFFFF)"

definition Ping_start :: "(Peer list \<Rightarrow> Peer list) \<Rightarrow> 64 word \<Rightarrow> Gossiper \<Rightarrow> (Gossiper \<times> 64 word \<times> Peer \<times> RPC) option" where
  "Ping_start shuffle now g =
     (case RandomPeers shuffle 1 (gc_LocalID (g_cfg g)) (g_peers g) of
        [] \<Rightarrow> None
      | target # _ \<Rightarrow>
          let n = g_nextPingID g + 1; pingID = ping_id (gc_LocalID (g_cfg g)) n in
          Some (g\<lparr>g_nextPingID := n, g_pendingPings := (g_pendingPings g)(pingID \<mapsto> False)\<rparr>, pingID, target,
                \<lparr>rpc_From = gc_LocalID (g_cfg g), rpc_Type = MsgPing,
                 rpc_Payload = Ping_Encode \<lparr>pp_PingID = pingID, pp_TargetID = p_ID target, pp_Timestamp = now\<rparr>\<rparr>))"

definition recordPingSuccess :: "(64 word \<Rightarrow> 64 word \<Rightarrow> 64 word) \<Rightarrow> 64 word \<Rightarrow> 64 word \<Rightarrow> 32 word \<Rightarrow> Gossiper \<Rightarrow> Gossiper" where
  "recordPingSuccess ewma now sentAt target g =
     (let (v, rtts) = rtt_Update ewma target (now - sentAt) (g_rtt g) in
      g\<lparr>g_rtt := rtts, g_peers := modify_peer target (SetRTT v) (g_peers g)\<rparr>)"

definition sendIndirectPing ::
  "(Peer list \<Rightarrow> Peer list) \<Rightarrow> (32 word \<Rightarrow> bool) \<Rightarrow> 32 word \<Rightarrow> 64 word \<Rightarrow> 64 word \<Rightarrow> Gossiper \<Rightarrow> bool \<times> (32 word \<times> RPC) list" where
  "sendIndirectPing shuffle send_ok targetID pingID timestamp g =
     (let peers = filter (\<lambda>p. p_ID p \<noteq> targetID) (RandomPeers shuffle (gc_IndirectPingCount (g_cfg g)) (gc_LocalID (g_cfg g)) (g_peers g));
          rpc = \<lparr>rpc_From = gc_LocalID (g_cfg g), rpc_Type = MsgIndirectPing,
                 rpc_Payload = Ping_Encode \<lparr>pp_PingID = pingID, pp_TargetID = targetID, pp_Timestamp = timestamp\<rparr>\<rparr> in
      (list_ex (\<lambda>p. send_ok (p_ID p)) peers, map (\<lambda>p. (p_ID p, rpc)) (filter (\<lambda>p. send_ok (p_ID p)) peers)))"

definition Ping_acked :: "(64 word \<Rightarrow> 64 word \<Rightarrow> 64 word) \<Rightarrow> 64 word \<Rightarrow> 64 word \<Rightarrow> 64 word \<Rightarrow> 32 word \<Rightarrow> Gossiper \<Rightarrow> Gossiper" where
  "Ping_acked ewma now sentAt pingID target g = removePendingPing pingID (recordPingSuccess ewma now sentAt target g)"

definition Ping_failed :: "64 word \<Rightarrow> 32 word \<Rightarrow> Gossiper \<Rightarrow> Gossiper" where
  "Ping_failed pingID target g = removePendingPing pingID (markSuspectIfAlive target g)"

text \<open>
  \<^verbatim>\<open>handleIndirectPing\<close> up to its \<^verbatim>\<open>select\<close>, in which it then waits: for the acknowledgement, which it forwards
  to the requester, or for the timeout.
\<close>

definition handleIndirectPing :: "bool \<Rightarrow> RPC \<Rightarrow> Gossiper \<Rightarrow> Gossiper \<times> (32 word \<times> RPC) list \<times> (32 word \<times> PingPayload) option" where
  "handleIndirectPing sent rpc g =
     (case DecodePingPayload (rpc_Payload rpc) of
        Inl _ \<Rightarrow> (g, [], None)
      | Inr payload \<Rightarrow>
          if PeerMap_Get (pp_TargetID payload) (g_peers g) = None then (g, [], None)
          else
            let pingRPC = \<lparr>rpc_From = gc_LocalID (g_cfg g), rpc_Type = MsgPing, rpc_Payload = Ping_Encode payload\<rparr> in
            if \<not> sent then (g, [], None)
            else (g\<lparr>g_pendingPings := (g_pendingPings g)(pp_PingID payload \<mapsto> False)\<rparr>,
                  [(pp_TargetID payload, pingRPC)], Some (rpc_From rpc, payload)))"

definition IndirectPing_acked :: "32 word \<Rightarrow> PingPayload \<Rightarrow> Gossiper \<Rightarrow> Gossiper \<times> (32 word \<times> RPC) list" where
  "IndirectPing_acked requester payload g =
     (removePendingPing (pp_PingID payload) g,
      [(requester, \<lparr>rpc_From = gc_LocalID (g_cfg g), rpc_Type = MsgAck, rpc_Payload = Ping_Encode payload\<rparr>)])"

section \<open>Dispatch\<close>

definition MsgOPRFEvalRequest :: byte where "MsgOPRFEvalRequest = 12"
definition MsgOPRFEvalResponse :: byte where "MsgOPRFEvalResponse = 13"
definition MsgPutMetadata :: byte where "MsgPutMetadata = 14"
definition MsgReplicateMetadataResponse :: byte where "MsgReplicateMetadataResponse = 19"
definition MsgListShard :: byte where "MsgListShard = 20"
definition MsgListShardResponse :: byte where "MsgListShardResponse = 21"
definition MsgReplicateVersion :: byte where "MsgReplicateVersion = 22"
definition MsgReplicateVersionResponse :: byte where "MsgReplicateVersionResponse = 23"

text \<open>
  What a message does to the gossiper. The providers of oblivious evaluations and of metadata are
  outside; the message is handed to the metadata provider when the flag says so.
\<close>

record gossip_out =
  go_sends :: "(32 word \<times> RPC) list"
  go_events :: "gossip_event list"
  go_waiting :: "(32 word \<times> PingPayload) option"
  go_metadata :: "RPC option"

definition quiet :: gossip_out where "quiet = \<lparr>go_sends = [], go_events = [], go_waiting = None, go_metadata = None\<rparr>"

definition Gossip_HandleRPC :: "query_handler \<Rightarrow> bool \<Rightarrow> int \<Rightarrow> RPC \<Rightarrow> Gossiper \<Rightarrow> Gossiper \<times> gossip_out" where
  "Gossip_HandleRPC handler sent now rpc g =
     (let t = rpc_Type rpc; w = UnixNano now in
      if t = MsgHeartbeat then (let (g, evs) = handleHeartbeat w rpc g in (g, quiet\<lparr>go_events := evs\<rparr>))
      else if t = MsgMembership then (let (g, evs) = handleMembership w rpc g in (g, quiet\<lparr>go_events := evs\<rparr>))
      else if t = MsgSuspect then (handleSuspect rpc g, quiet)
      else if t = MsgPing then (let (g, s) = handlePing w rpc g in (g, quiet\<lparr>go_sends := s\<rparr>))
      else if t = MsgAck then (handleAck w rpc g, quiet)
      else if t = MsgIndirectPing then
        (let (g, s, wt) = handleIndirectPing sent rpc g in (g, quiet\<lparr>go_sends := s, go_waiting := wt\<rparr>))
      else if t = MsgLoad then (handleLoad rpc g, quiet)
      else if t = MsgQuery \<or> t = MsgQueryResponse then
        (case g_scatterGather g of
           None \<Rightarrow> (g, quiet)
         | Some sg \<Rightarrow> (let (sg, s) = Scatter_HandleRPC handler rpc sg in (g\<lparr>g_scatterGather := Some sg\<rparr>, quiet\<lparr>go_sends := s\<rparr>)))
      else if t = MsgLeaseRequest \<or> t = MsgLeaseGrant \<or> t = MsgLeaseRelease then
        (case g_leaseManager g of
           None \<Rightarrow> (g, quiet)
         | Some lm \<Rightarrow> (let (lm, s) = HandleLeaseRPC now rpc lm in (g\<lparr>g_leaseManager := Some lm\<rparr>, quiet\<lparr>go_sends := s\<rparr>)))
      else if t = MsgOPRFEvalRequest \<or> t = MsgOPRFEvalResponse then (g, quiet)
      else if MsgPutMetadata \<le> t \<and> t \<le> MsgReplicateMetadataResponse then
        (g, quiet\<lparr>go_metadata := (if g_hasMetadataRPC g then Some rpc else None)\<rparr>)
      else (g, quiet))"

lemmas msg_types = MsgHeartbeat_def MsgMembership_def MsgSuspect_def MsgPing_def MsgAck_def MsgIndirectPing_def MsgLoad_def
  MsgQuery_def MsgQueryResponse_def MsgLeaseRequest_def MsgLeaseGrant_def MsgLeaseRelease_def MsgOPRFEvalRequest_def
  MsgOPRFEvalResponse_def MsgPutMetadata_def MsgReplicateMetadataResponse_def MsgListShard_def MsgListShardResponse_def
  MsgReplicateVersion_def MsgReplicateVersionResponse_def

text \<open>
  Messages of version replication and of shard listings are dropped: no metadata provider ever sees them,
  so a replicated version is never stored and its sender waits until its timeout.
\<close>

theorem version_replication_undelivered:
  assumes "rpc_Type rpc \<in> {MsgListShard, MsgListShardResponse, MsgReplicateVersion, MsgReplicateVersionResponse}"
  shows "Gossip_HandleRPC handler sent now rpc g = (g, quiet)"
  using assms by (auto simp: Gossip_HandleRPC_def msg_types word_le_nat_alt)

section \<open>The membership a node keeps\<close>

text \<open>What no step takes away: every known peer stays known, with its address.\<close>

definition peers_kept :: "PeerMap \<Rightarrow> PeerMap \<Rightarrow> bool" where
  "peers_kept m m' \<longleftrightarrow> (\<forall>p \<in> set m. \<exists>q \<in> set m'. p_ID q = p_ID p \<and> p_Addr q = p_Addr p)"

definition peers_new :: "PeerMap \<Rightarrow> PeerMap \<Rightarrow> 32 word set" where
  "peers_new m m' = p_ID ` set m' - p_ID ` set m"

lemma peers_kept_refl [simp]: "peers_kept m m" by (auto simp: peers_kept_def)

lemma peers_new_same [simp]: "peers_new m m = {}" by (simp add: peers_new_def)

lemma peers_kept_trans: "peers_kept m m' \<Longrightarrow> peers_kept m' m'' \<Longrightarrow> peers_kept m m''"
  unfolding peers_kept_def by metis

lemma peers_kept_map:
  "(\<And>p. p_ID (f p) = p_ID p) \<Longrightarrow> (\<And>p. p_Addr (f p) = p_Addr p) \<Longrightarrow> peers_kept m (map f m)"
  by (auto simp: peers_kept_def)

lemma peers_map_ids: "(\<And>p. p_ID (f p) = p_ID p) \<Longrightarrow> p_ID ` set (map f m) = p_ID ` set m"
  by (auto simp: image_iff)

lemma modify_peer_ids: "(\<And>p. p_ID (f p) = p_ID p) \<Longrightarrow> p_ID ` set (modify_peer pid f m) = p_ID ` set m"
  unfolding modify_peer_def by (rule peers_map_ids) simp

lemma peers_kept_modify:
  "(\<And>p. p_ID (f p) = p_ID p) \<Longrightarrow> (\<And>p. p_Addr (f p) = p_Addr p) \<Longrightarrow> peers_kept m (modify_peer pid f m)"
  unfolding modify_peer_def by (rule peers_kept_map) simp_all

lemma peer_setters [simp]:
  "p_ID (revive now p) = p_ID p" "p_Addr (revive now p) = p_Addr p"
  "p_ID (SetState st p) = p_ID p" "p_Addr (SetState st p) = p_Addr p"
  "p_ID (SetLoad l p) = p_ID p" "p_Addr (SetLoad l p) = p_Addr p"
  "p_ID (SetRTT v p) = p_ID p" "p_Addr (SetRTT v p) = p_Addr p"
  by (simp_all add: revive_def Touch_def SetState_def SetLoad_def SetRTT_def Let_def)

lemma suspect_peer_setters [simp]:
  "p_ID (fst (suspect_peer now g p)) = p_ID p" "p_Addr (fst (suspect_peer now g p)) = p_Addr p"
  by (auto simp: suspect_peer_def Let_def split: PeerState.splits)

lemma PeerMap_Get_known: "PeerMap_Get pid m = None \<longleftrightarrow> pid \<notin> p_ID ` set m"
  by (auto simp: PeerMap_Get_None)

lemma PeerMap_Add_fresh: "PeerMap_Get (p_ID p) m = None \<Longrightarrow> PeerMap_Add p m = m @ [p]"
  by (auto simp: PeerMap_Get_None PeerMap_Add_def filter_id_conv)

text \<open>
  Merging a list of announced peers appends exactly the unknown ones, once each and in their order, and
  reports each of them; it never enters the local node.
\<close>

lemma merge_peers_spec:
  "merge_peers now lid is m = (m', evs) \<Longrightarrow>
   \<exists>ps. m' = m @ ps \<and> evs = map Joined ps \<and> distinct (map p_ID ps) \<and>
     p_ID ` set ps = pi_ID ` set is - insert lid (p_ID ` set m) \<and>
     (\<forall>p \<in> set ps. p_state p = p_state (NewPeer now (p_ID p) (p_Addr p)) \<and>
        (\<exists>i \<in> set is. pi_ID i = p_ID p \<and> pi_Addr i = p_Addr p)) \<and> length ps \<le> length is"
proof (induction now lid "is" m arbitrary: m' evs rule: merge_peers.induct)
  case (1 now lid m)
  then show ?case by simp
next
  case (2 now lid i "is" m)
  show ?case
  proof (cases "pi_ID i = lid \<or> PeerMap_Get (pi_ID i) m \<noteq> None")
    case True
    then have "merge_peers now lid is m = (m', evs)" using 2(3) by simp
    from 2(1)[OF True this] obtain ps where
      ps: "m' = m @ ps" "evs = map Joined ps" "distinct (map p_ID ps)"
        "p_ID ` set ps = pi_ID ` set is - insert lid (p_ID ` set m)"
        "\<forall>p \<in> set ps. p_state p = p_state (NewPeer now (p_ID p) (p_Addr p)) \<and> (\<exists>i \<in> set is. pi_ID i = p_ID p \<and> pi_Addr i = p_Addr p)"
        "length ps \<le> length is" by blast
    have "pi_ID i \<in> insert lid (p_ID ` set m)" using True unfolding PeerMap_Get_known by blast
    then have "p_ID ` set ps = pi_ID ` set (i # is) - insert lid (p_ID ` set m)" using ps(4) by auto
    then show ?thesis using ps by (intro exI [of _ ps]) auto
  next
    case False
    let ?p = "NewPeer now (pi_ID i) (pi_Addr i)"
    have id [simp]: "p_ID ?p = pi_ID i" "p_Addr ?p = pi_Addr i" by (simp_all add: NewPeer_def)
    have add: "PeerMap_Add ?p m = m @ [?p]" using False by (simp add: PeerMap_Add_fresh)
    obtain evs' where r: "merge_peers now lid is (m @ [?p]) = (m', evs')" "evs = Joined ?p # evs'"
      using 2(3) False by (auto simp: Let_def add split: prod.splits)
    from 2(2)[OF False refl, unfolded add, OF r(1)] obtain ps where
      ps: "m' = (m @ [?p]) @ ps" "evs' = map Joined ps" "distinct (map p_ID ps)"
        "p_ID ` set ps = pi_ID ` set is - insert lid (p_ID ` set (m @ [?p]))"
        "\<forall>p \<in> set ps. p_state p = p_state (NewPeer now (p_ID p) (p_Addr p)) \<and> (\<exists>i \<in> set is. pi_ID i = p_ID p \<and> pi_Addr i = p_Addr p)"
        "length ps \<le> length is" by blast
    have new: "pi_ID i \<noteq> lid" "pi_ID i \<notin> p_ID ` set m" using False by (auto simp: PeerMap_Get_known)
    have "pi_ID i \<notin> p_ID ` set ps" using ps(4) by auto
    then have dist: "distinct (map p_ID (?p # ps))" using ps(3) by simp
    have ids: "p_ID ` set (?p # ps) = pi_ID ` set (i # is) - insert lid (p_ID ` set m)" using ps(4) new by auto
    show ?thesis
      by (rule exI [of _ "?p # ps"]) (use ps r dist ids in auto)
  qed
qed

definition event_peer :: "gossip_event \<Rightarrow> 32 word" where
  "event_peer e = (case e of Joined p \<Rightarrow> p_ID p | Left pid \<Rightarrow> pid)"

lemma event_peer_simps [simp]: "event_peer (Joined p) = p_ID p" "event_peer (Left pid) = pid"
  by (simp_all add: event_peer_def)

text \<open>What a handler may do to the membership; only the first two kinds of messages bring new peers.\<close>

definition membership_step :: "bool \<Rightarrow> Gossiper \<Rightarrow> Gossiper \<Rightarrow> gossip_event list \<Rightarrow> bool" where
  "membership_step announces g g' evs \<longleftrightarrow>
     peer_map (g_peers g') \<and> g_cfg g' = g_cfg g \<and> peers_kept (g_peers g) (g_peers g') \<and>
     gc_LocalID (g_cfg g) \<notin> peers_new (g_peers g) (g_peers g') \<and>
     event_peer ` set evs = peers_new (g_peers g) (g_peers g') \<and> distinct (map event_peer evs) \<and>
     length evs \<le> (if announces then MaxPeersInHeartbeat else 0)"

lemma membership_step_modify:
  assumes "peer_map (g_peers g)" "\<And>p. p_ID (f p) = p_ID p" "\<And>p. p_Addr (f p) = p_Addr p"
    "g_peers g' = modify_peer pid f (g_peers g)" "g_cfg g' = g_cfg g"
  shows "membership_step b g g' []"
  using assms by (auto simp: membership_step_def peers_new_def modify_peer_ids peers_kept_modify)

lemma membership_step_same:
  "peer_map (g_peers g) \<Longrightarrow> g_peers g' = g_peers g \<Longrightarrow> g_cfg g' = g_cfg g \<Longrightarrow> membership_step b g g' []"
  by (simp add: membership_step_def)

lemma membership_step_merge:
  assumes m: "peer_map (g_peers g)"
    and r: "merge_peers now (gc_LocalID (g_cfg g)) (take MaxPeersInHeartbeat is) (g_peers g) = (m', evs)"
    and g': "g_peers g' = modify_peer pid f m'" "g_cfg g' = g_cfg g"
    and f: "\<And>p. p_ID (f p) = p_ID p" "\<And>p. p_Addr (f p) = p_Addr p"
  shows "membership_step True g g' evs"
proof -
  from merge_peers_spec [OF r] obtain ps where
    ps: "m' = g_peers g @ ps" "evs = map Joined ps" "distinct (map p_ID ps)"
      "p_ID ` set ps = pi_ID ` set (take MaxPeersInHeartbeat is) - insert (gc_LocalID (g_cfg g)) (p_ID ` set (g_peers g))"
      "length ps \<le> length (take MaxPeersInHeartbeat is)" by blast
  have dj: "p_ID ` set ps \<inter> p_ID ` set (g_peers g) = {}" using ps(4) by blast
  have pm: "peer_map m'" using m ps(1,3) dj unfolding peer_map_def by auto
  have kept: "peers_kept (g_peers g) (g_peers g')"
    using peers_kept_modify [OF f] unfolding g'(1) by (rule peers_kept_trans [rotated]) (auto simp: peers_kept_def ps(1))
  have new: "peers_new (g_peers g) (g_peers g') = p_ID ` set ps"
    unfolding peers_new_def g'(1) modify_peer_ids [OF f(1)] using ps(1) dj by auto
  have ev: "event_peer ` set evs = p_ID ` set ps" "map event_peer evs = map p_ID ps" unfolding ps(2) by (auto simp: image_iff)
  have "gc_LocalID (g_cfg g) \<notin> p_ID ` set ps" using ps(4) by blast
  then show ?thesis
    unfolding membership_step_def new ev using pm kept ps(2,3,5) f g' by auto
qed

lemma modify_peer_ident: "modify_peer pid (\<lambda>p. p) m = m" by (simp add: modify_peer_def)

lemma handleHeartbeat_step:
  "peer_map (g_peers g) \<Longrightarrow> handleHeartbeat now rpc g = (g', evs) \<Longrightarrow> membership_step True g g' evs"
  by (auto simp: handleHeartbeat_def membership_step_same Let_def split: sum.splits prod.splits
      intro!: membership_step_merge [where pid = "rpc_From rpc" and f = "revive now"])

lemma handleMembership_step:
  "peer_map (g_peers g) \<Longrightarrow> handleMembership now rpc g = (g', evs) \<Longrightarrow> membership_step True g g' evs"
  by (auto simp: handleMembership_def membership_step_same Let_def modify_peer_ident split: sum.splits prod.splits
      intro!: membership_step_merge [where f = "\<lambda>p. p"])

lemma markSuspectIfAlive_step: "peer_map (g_peers g) \<Longrightarrow> membership_step b g (markSuspectIfAlive pid g) []"
  by (rule membership_step_modify [where pid = pid and f = "\<lambda>p. if p_state p = PeerStateAlive then SetState PeerStateSuspect p else p"])
     (simp_all add: markSuspectIfAlive_def)

lemma small_handlers_step:
  assumes "peer_map (g_peers g)"
  shows "membership_step b g (handleSuspect rpc g) []" "membership_step b g (handleLoad rpc g) []"
    "membership_step b g (fst (handlePing now rpc g)) []" "membership_step b g (handleAck now rpc g) []"
    "membership_step b g (fst (handleIndirectPing sent rpc g)) []"
  using assms
  by (auto simp: handleSuspect_def handleLoad_def handlePing_def handleAck_def handleIndirectPing_def Let_def
      markSuspectIfAlive_step intro: membership_step_same split: sum.splits option.splits)
     (auto intro: membership_step_modify [where f = "SetLoad l" for l] membership_step_modify [where f = "revive now"])

lemma HandleRPC_step:
  assumes "peer_map (g_peers g)" and "Gossip_HandleRPC handler sent now rpc g = (g', out)"
  shows "membership_step (rpc_Type rpc \<in> {MsgHeartbeat, MsgMembership}) g g' (go_events out)"
proof -
  note s = small_handlers_step [OF assms(1)]
  have q: "go_events (quiet\<lparr>go_sends := x\<rparr>) = []" "go_events (quiet\<lparr>go_metadata := y\<rparr>) = []"
    "go_events (quiet\<lparr>go_sends := x, go_waiting := z\<rparr>) = []" "go_events quiet = []" "go_events (quiet\<lparr>go_events := e\<rparr>) = e" for x y z e
    by (simp_all add: quiet_def)
  have p: "handlePing w rpc g = (g', x) \<Longrightarrow> membership_step False g g' []"
    "handleIndirectPing sent rpc g = (g', x, y) \<Longrightarrow> membership_step False g g' []" for w x y
    using s(3) [of False w rpc] s(5) [of False sent rpc] by simp_all
  show ?thesis
    using assms unfolding Gossip_HandleRPC_def Let_def
    by (auto simp: q s(1,2,4) p handleHeartbeat_step handleMembership_step membership_step_same split: if_splits prod.splits option.splits)
qed

text \<open>
  No message makes a node forget a peer or change its address, enter itself among its peers, or hold two
  entries for one ID; the join callback is made exactly once for each peer that is new, and only a heartbeat
  or a membership message brings new ones, at most 256 of them.
\<close>

theorem HandleRPC_membership:
  assumes "peer_map (g_peers g)" and "Gossip_HandleRPC handler sent now rpc g = (g', out)"
  shows "membership_step (rpc_Type rpc \<in> {MsgHeartbeat, MsgMembership}) g g' (go_events out)"
  by (rule HandleRPC_step [OF assms])

text \<open>Timeouts and round trips for which the durations do not overflow: below some eighteen years.\<close>

definition timeouts_fit :: "Gossiper \<Rightarrow> bool" where
  "timeouts_fit g \<longleftrightarrow> 0 < sint (gc_SuspicionTimeout (g_cfg g)) \<and> sint (gc_SuspicionTimeout (g_cfg g)) < 2 ^ 59 \<and>
     (\<forall>v \<in> ran (g_rtt g). sint v < 2 ^ 59)"

lemma sint_mult_fits:
  fixes w :: "64 word"
  assumes "0 \<le> sint w" "sint w < 2 ^ 59" "0 \<le> k" "k \<le> 10"
  shows "sint (word_of_int k * w) = k * sint w"
proof -
  have "k * sint w \<le> 10 * sint w" by (rule mult_right_mono) (use assms in auto)
  then have "k * sint w < 2 ^ 63" using assms(2) by simp
  moreover have "0 \<le> k * sint w" using assms by simp
  moreover have "word_of_int k * w = word_of_int (k * sint w)" by simp
  ultimately show ?thesis using sint_int64 [of "k * sint w"] by (simp del: of_int_mult)
qed

lemma adaptiveTimeout_bounds:
  assumes "timeouts_fit g"
  shows "sint (gc_SuspicionTimeout (g_cfg g)) \<le> sint (adaptiveTimeout pid g)"
    "sint (adaptiveTimeout pid g) \<le> 5 * sint (gc_SuspicionTimeout (g_cfg g))"
proof -
  let ?t = "gc_SuspicionTimeout (g_cfg g)" and ?r = "rtt_Get pid (g_rtt g)"
  have t: "0 < sint ?t" "sint ?t < 2 ^ 59" using assms by (auto simp: timeouts_fit_def)
  have r: "sint ?r < 2 ^ 59" using assms by (auto simp: timeouts_fit_def rtt_Get_def ran_def split: option.splits)
  have t5: "sint (5 * ?t) = 5 * sint ?t" using sint_mult_fits [of ?t 5] t by simp
  have "sint (gc_SuspicionTimeout (g_cfg g)) \<le> sint (adaptiveTimeout pid g) \<and>
    sint (adaptiveTimeout pid g) \<le> 5 * sint (gc_SuspicionTimeout (g_cfg g))"
    using t t5 by (auto simp: adaptiveTimeout_def Let_def word_sless_alt)
  then show "sint ?t \<le> sint (adaptiveTimeout pid g)" "sint (adaptiveTimeout pid g) \<le> 5 * sint ?t" by simp_all
qed

lemma PeerMap_Get_map: "(\<And>p. p_ID (f p) = p_ID p) \<Longrightarrow> PeerMap_Get pid (map f m) = map_option f (PeerMap_Get pid m)"
  by (induction m) (auto simp: PeerMap_Get_def)

definition suspicion_ok :: "int \<Rightarrow> Gossiper \<Rightarrow> Peer \<Rightarrow> Peer \<Rightarrow> bool \<Rightarrow> bool" where
  "suspicion_ok now g p q gone \<longleftrightarrow>
     (let elapsed = now - sint (p_lastSeen p); t = sint (gc_SuspicionTimeout (g_cfg g)); self = (p_ID p = gc_LocalID (g_cfg g)) in
      (self \<or> elapsed \<le> t \<longrightarrow> q = p) \<and>
      (p_state p = PeerStateAlive \<longrightarrow> p_state q \<noteq> PeerStateOffline) \<and>
      (\<not> self \<and> 5 * t < elapsed \<longrightarrow> p_state q \<noteq> PeerStateAlive) \<and>
      (\<not> self \<and> 10 * t < elapsed \<and> p_state p = PeerStateSuspect \<longrightarrow> p_state q = PeerStateOffline) \<and>
      (gone \<longleftrightarrow> p_state p = PeerStateSuspect \<and> p_state q = PeerStateOffline))"

lemma suspect_peer_ok:
  assumes fit: "timeouts_fit g"
  shows "suspicion_ok (sint now) g p (fst (suspect_peer now g p)) (snd (suspect_peer now g p))"
proof -
  let ?a = "adaptiveTimeout (p_ID p) g" and ?t = "gc_SuspicionTimeout (g_cfg g)"
  have b: "0 < sint ?t" "sint ?t < 2 ^ 59" "sint ?t \<le> sint ?a" "sint ?a \<le> 5 * sint ?t"
    using fit adaptiveTimeout_bounds [OF fit] by (auto simp: timeouts_fit_def)
  then have "sint (2 * ?a) = 2 * sint ?a" using sint_int64 [of "2 * sint ?a"] by simp
  then show ?thesis
    using b by (cases "p_state p") (auto simp: suspicion_ok_def suspect_peer_def Let_def SetState_def)
qed

text \<open>
  C28: Failure detection is neither hasty nor blind. The local node and a peer heard from within the configured
  timeout are left as they are; no peer goes from alive to offline at once; a peer silent for five timeouts is
  no longer alive and a suspect silent for ten is offline; the leave callback is made for exactly the peers
  that went from suspect to offline; and nobody is forgotten.
\<close>

theorem checkSuspicion_spec:
  assumes m: "peer_map (g_peers g)" and fit: "timeouts_fit g" and c: "checkSuspicion now g = (g', evs)"
  shows "peer_map (g_peers g') \<and> peers_kept (g_peers g) (g_peers g') \<and> peers_new (g_peers g) (g_peers g') = {} \<and>
    (\<forall>p q. PeerMap_Get pid (g_peers g) = Some p \<and> PeerMap_Get pid (g_peers g') = Some q \<longrightarrow>
       suspicion_ok (sint now) g p q (Left pid \<in> set evs))"
proof -
  let ?f = "\<lambda>p. fst (suspect_peer now g p)"
  have g': "g_peers g' = map ?f (g_peers g)"
    and evs: "evs = map (\<lambda>p. Left (p_ID p)) (filter (\<lambda>p. snd (suspect_peer now g p)) (g_peers g))"
    using c by (auto simp: checkSuspicion_def PeerMap_All_def)
  have "suspicion_ok (sint now) g p q (Left pid \<in> set evs)"
    if p: "PeerMap_Get pid (g_peers g) = Some p" and q: "PeerMap_Get pid (g_peers g') = Some q" for p q
  proof -
    have "r \<in> set (g_peers g) \<Longrightarrow> p_ID r = pid \<Longrightarrow> r = p" for r using PeerMap_Get_in [OF m, of r] p by simp
    then have "Left pid \<in> set evs \<longleftrightarrow> snd (suspect_peer now g p)"
      using PeerMap_Get_Some [OF p] unfolding evs by auto
    moreover have "q = ?f p" using p q unfolding g' by (simp add: PeerMap_Get_map)
    ultimately show ?thesis using suspect_peer_ok [OF fit] by simp
  qed
  moreover have "peer_map (g_peers g')" using m unfolding g' peer_map_def by (simp add: comp_def)
  moreover have "peers_kept (g_peers g) (g_peers g')" unfolding g' by (rule peers_kept_map) simp_all
  moreover have "peers_new (g_peers g) (g_peers g') = {}" unfolding g' peers_new_def by (subst peers_map_ids) simp_all
  ultimately show ?thesis by blast
qed

definition sample_peer :: "32 word \<Rightarrow> PeerState \<Rightarrow> Peer" where
  "sample_peer i st = (NewPeer 0 i ''a'')\<lparr>p_state := st\<rparr>"

definition sample_gossiper :: Gossiper where
  "sample_gossiper =
     \<lparr>g_cfg = \<lparr>gc_LocalID = 1, gc_SuspicionTimeout = 10, gc_Fanout = 0, gc_IndirectPingCount = 3\<rparr>,
      g_peers = [sample_peer 2 PeerStateAlive, sample_peer 3 PeerStateSuspect], g_rtt = Map.empty, g_pendingPings = Map.empty, g_nextPingID = 0,
      g_loadProvider = None, g_scatterGather = None, g_leaseManager = None, g_hasMetadataRPC = True\<rparr>"


theorem checkSuspicion_spec_witness:
  "case checkSuspicion 25 sample_gossiper of (g', evs) \<Rightarrow>
     suspicion_ok 25 sample_gossiper (sample_peer 3 PeerStateSuspect) (sample_peer 3 PeerStateOffline) (Left 3 \<in> set evs) \<and>
     evs = [Left 3] \<and> map p_state (g_peers g') = [PeerStateSuspect, PeerStateOffline]"
proof -
  have fit: "timeouts_fit sample_gossiper" by (simp add: timeouts_fit_def sample_gossiper_def)
  have pm: "peer_map (g_peers sample_gossiper)" by code_simp
  have c: "checkSuspicion 25 sample_gossiper =
     (sample_gossiper\<lparr>g_peers := [sample_peer 2 PeerStateSuspect, sample_peer 3 PeerStateOffline]\<rparr>, [Left 3])"
    by (simp add: checkSuspicion_def sample_gossiper_def sample_peer_def PeerMap_All_def suspect_peer_def adaptiveTimeout_def
        rtt_Get_def NewPeer_def SetState_def Let_def)
  have "suspicion_ok (sint (25 :: 64 word)) sample_gossiper (sample_peer 3 PeerStateSuspect) (sample_peer 3 PeerStateOffline) (Left 3 \<in> set [Left (3 :: 32 word)])"
    using checkSuspicion_spec [OF pm fit c, of 3]
    by (auto simp: PeerMap_Get_def sample_gossiper_def sample_peer_def NewPeer_def)
  then show ?thesis unfolding c by (simp add: sample_peer_def)
qed

theorem HandleRPC_membership_witness:
  "case Gossip_HandleRPC None True 7 \<lparr>rpc_From = 2, rpc_Type = MsgMembership,
       rpc_Payload = Heartbeat_Encode \<lparr>hb_Peers = [\<lparr>pi_ID = 1, pi_Addr = ''x''\<rparr>, \<lparr>pi_ID = 4, pi_Addr = ''b''\<rparr>]\<rparr>\<rparr> sample_gossiper of
     (g', out) \<Rightarrow> membership_step True sample_gossiper g' (go_events out) \<and> map p_ID (g_peers g') = [2, 3, 4]"
proof -
  let ?rpc = "\<lparr>rpc_From = 2, rpc_Type = MsgMembership,
       rpc_Payload = Heartbeat_Encode \<lparr>hb_Peers = [\<lparr>pi_ID = 1, pi_Addr = ''x''\<rparr>, \<lparr>pi_ID = 4, pi_Addr = ''b''\<rparr>]\<rparr>\<rparr>"
  have pm: "peer_map (g_peers sample_gossiper)" by code_simp
  have dec: "DecodeHeartbeatPayload (Heartbeat_Encode \<lparr>hb_Peers = [\<lparr>pi_ID = 1, pi_Addr = ''x''\<rparr>, \<lparr>pi_ID = 4, pi_Addr = ''b''\<rparr>]\<rparr>) =
      Inr \<lparr>hb_Peers = [\<lparr>pi_ID = 1, pi_Addr = ''x''\<rparr>, \<lparr>pi_ID = 4, pi_Addr = ''b''\<rparr>]\<rparr>"
    by (rule heartbeat.dec_enc) (simp add: fits_heartbeat_def small_def maxPayloadSize_def Heartbeat_Encode_def PeerInfo_bytes_def)
  have ids: "map p_ID (g_peers (fst (Gossip_HandleRPC None True 7 ?rpc sample_gossiper))) = [2, 3, 4]"
    by (simp add: dec Gossip_HandleRPC_def msg_types handleMembership_def sample_gossiper_def sample_peer_def NewPeer_def
        MaxPeersInHeartbeat_def PeerMap_Get_def PeerMap_Add_def Let_def)
  show ?thesis
    using HandleRPC_membership [OF pm surjective_pairing [of "Gossip_HandleRPC None True 7 ?rpc sample_gossiper"]] ids by (simp add: case_prod_beta)
qed


section \<open>A node and its one consumer\<close>

text \<open>
  \<^verbatim>\<open>Run\<close> takes one message at a time and is the only caller of \<^verbatim>\<open>HandleRPC\<close>; while a handler waits, no message is
  handled. The ping and suspicion loops run beside it; their rounds may end in any way at any time, which
  allows more than the code does. The node counts the acknowledgements it forwarded.
\<close>

record gossip_node =
  gn_g :: Gossiper
  gn_waiting :: "(32 word \<times> PingPayload) option"
  gn_forwarded :: nat

inductive node_step :: "gossip_node \<Rightarrow> gossip_node \<Rightarrow> bool" where
  message: "gn_waiting n = None \<Longrightarrow> Gossip_HandleRPC handler sent now rpc (gn_g n) = (g', out) \<Longrightarrow>
     node_step n (n\<lparr>gn_g := g', gn_waiting := go_waiting out\<rparr>)"
| forward: "gn_waiting n = Some (requester, payload) \<Longrightarrow> g_pendingPings (gn_g n) (pp_PingID payload) = Some True \<Longrightarrow>
     IndirectPing_acked requester payload (gn_g n) = (g', sends) \<Longrightarrow>
     node_step n (n\<lparr>gn_g := g', gn_waiting := None, gn_forwarded := gn_forwarded n + 1\<rparr>)"
| gave_up: "gn_waiting n = Some (requester, payload) \<Longrightarrow>
     node_step n (n\<lparr>gn_g := removePendingPing (pp_PingID payload) (gn_g n), gn_waiting := None\<rparr>)"
| suspicion: "checkSuspicion now (gn_g n) = (g', evs) \<Longrightarrow> node_step n (n\<lparr>gn_g := g'\<rparr>)"
| ping: "Ping_start shuffle now (gn_g n) = Some (g', pingID, target, rpc) \<Longrightarrow> node_step n (n\<lparr>gn_g := g'\<rparr>)"
| ping_unsent: "node_step n (n\<lparr>gn_g := removePendingPing pingID (gn_g n)\<rparr>)"
| ping_acked: "node_step n (n\<lparr>gn_g := Ping_acked ewma now sentAt pingID target (gn_g n)\<rparr>)"
| ping_failed: "node_step n (n\<lparr>gn_g := Ping_failed pingID target (gn_g n)\<rparr>)"

inductive node_reachable :: "Gossiper \<Rightarrow> gossip_node \<Rightarrow> bool" for g where
  start: "node_reachable g \<lparr>gn_g = g, gn_waiting = None, gn_forwarded = 0\<rparr>"
| step: "node_reachable g n \<Longrightarrow> node_step n n' \<Longrightarrow> node_reachable g n'"

definition unacked :: "(32 word \<times> PingPayload) option \<Rightarrow> Gossiper \<Rightarrow> bool" where
  "unacked w g \<longleftrightarrow> (case w of None \<Rightarrow> True | Some (_, payload) \<Rightarrow> g_pendingPings g (pp_PingID payload) \<noteq> Some True)"

definition node_inv :: "Gossiper \<Rightarrow> gossip_node \<Rightarrow> bool" where
  "node_inv g0 n \<longleftrightarrow> gn_forwarded n = 0 \<and> peer_map (g_peers (gn_g n)) \<and> g_cfg (gn_g n) = g_cfg g0 \<and>
     peers_kept (g_peers g0) (g_peers (gn_g n)) \<and>
     (gc_LocalID (g_cfg g0) \<in> p_ID ` set (g_peers (gn_g n)) \<longrightarrow> gc_LocalID (g_cfg g0) \<in> p_ID ` set (g_peers g0)) \<and>
     unacked (gn_waiting n) (gn_g n)"

lemma HandleRPC_waiting:
  "Gossip_HandleRPC handler sent now rpc g = (g', out) \<Longrightarrow> go_waiting out = Some (r, payload) \<Longrightarrow>
   g_pendingPings g' (pp_PingID payload) = Some False"
  unfolding Gossip_HandleRPC_def Let_def quiet_def
  by (auto simp: handleIndirectPing_def Let_def split: if_splits prod.splits option.splits sum.splits)

lemma node_inv_membership:
  assumes inv: "node_inv g0 n" and s: "membership_step b (gn_g n) g' evs"
    and w: "unacked w g'"
  shows "node_inv g0 (n\<lparr>gn_g := g', gn_waiting := w\<rparr>)"
  using assms peers_kept_trans [of "g_peers g0" "g_peers (gn_g n)" "g_peers g'"]
  unfolding node_inv_def membership_step_def peers_new_def by auto

lemma node_inv_local:
  assumes inv: "node_inv g0 n" and s: "membership_step b (gn_g n) g' evs"
    and p: "\<And>i. g_pendingPings g' i = Some True \<Longrightarrow> g_pendingPings (gn_g n) i = Some True"
  shows "node_inv g0 (n\<lparr>gn_g := g'\<rparr>)"
proof -
  have "node_inv g0 (n\<lparr>gn_g := g', gn_waiting := gn_waiting n\<rparr>)"
    using inv p by (intro node_inv_membership [OF inv s]) (auto simp: node_inv_def unacked_def split: option.splits)
  then show ?thesis by simp
qed

lemma checkSuspicion_step:
  assumes "peer_map (g_peers g)" "checkSuspicion now g = (g', evs)"
  shows "membership_step False g g' [] \<and> g_pendingPings g' = g_pendingPings g"
  using assms
  by (auto simp: checkSuspicion_def PeerMap_All_def membership_step_def peer_map_def peers_kept_map peers_new_def comp_def)

lemma ping_steps:
  assumes "peer_map (g_peers g)"
  shows "Ping_start shuffle now g = Some (g', pingID, target, rpc) \<Longrightarrow> membership_step False g g' [] \<and>
      (g_pendingPings g' i = Some True \<longrightarrow> g_pendingPings g i = Some True)"
    and "membership_step False g (removePendingPing pingID g) []"
    and "membership_step False g (Ping_acked ewma now sentAt pingID tid g) []"
    and "membership_step False g (Ping_failed pingID tid g) []"
    and "g_pendingPings (Ping_acked ewma now sentAt pingID tid g) = (g_pendingPings g)(pingID := None)"
    and "g_pendingPings (Ping_failed pingID tid g) = (g_pendingPings g)(pingID := None)"
proof -
  show "Ping_start shuffle now g = Some (g', pingID, target, rpc) \<Longrightarrow> membership_step False g g' [] \<and>
      (g_pendingPings g' i = Some True \<longrightarrow> g_pendingPings g i = Some True)"
    using assms by (auto simp: Ping_start_def Let_def membership_step_same split: list.splits if_splits)
  show "membership_step False g (removePendingPing pingID g) []"
    using assms by (simp add: removePendingPing_def membership_step_same)
  show "membership_step False g (Ping_acked ewma now sentAt pingID tid g) []"
    by (rule membership_step_modify [OF assms, where pid = tid and f = "SetRTT (fst (rtt_Update ewma tid (now - sentAt) (g_rtt g)))"])
       (simp_all add: Ping_acked_def recordPingSuccess_def removePendingPing_def case_prod_beta Let_def)
  show "membership_step False g (Ping_failed pingID tid g) []"
    by (rule membership_step_modify [OF assms, where pid = tid and f = "\<lambda>p. if p_state p = PeerStateAlive then SetState PeerStateSuspect p else p"])
       (simp_all add: Ping_failed_def markSuspectIfAlive_def removePendingPing_def)
qed (simp_all add: Ping_acked_def recordPingSuccess_def removePendingPing_def Ping_failed_def markSuspectIfAlive_def case_prod_beta Let_def)

lemma node_step_inv: "node_step n n' \<Longrightarrow> node_inv g0 n \<Longrightarrow> node_inv g0 n'"
proof (induction rule: node_step.induct)
  case (message n handler sent now rpc g' out)
  have "membership_step (rpc_Type rpc \<in> {MsgHeartbeat, MsgMembership}) (gn_g n) g' (go_events out)"
    using HandleRPC_step [OF _ message(2)] message(3) by (simp add: node_inv_def)
  then show ?case
    using HandleRPC_waiting [OF message(2)] by (intro node_inv_membership [OF message(3)]) (auto simp: unacked_def split: option.splits)
next
  case (forward n requester payload g' sends)
  then show ?case by (simp add: node_inv_def unacked_def)
next
  case (gave_up n requester payload)
  then have "peer_map (g_peers (gn_g n))" by (simp add: node_inv_def)
  from node_inv_membership [OF gave_up(2) ping_steps(2) [OF this]] show ?case by (simp add: unacked_def)
next
  case (suspicion now n g' evs)
  then have "peer_map (g_peers (gn_g n))" by (simp add: node_inv_def)
  from checkSuspicion_step [OF this suspicion(1)] show ?case using suspicion(2) by (metis node_inv_local)
next
  case (ping shuffle now n g' pingID target rpc)
  then have "peer_map (g_peers (gn_g n))" by (simp add: node_inv_def)
  from ping_steps(1) [OF this ping(1)] show ?case using ping(2) by (blast intro: node_inv_local)
next
  case (ping_unsent n pingID)
  then have "peer_map (g_peers (gn_g n))" by (simp add: node_inv_def)
  from ping_steps(2) [OF this] show ?case
    by (rule node_inv_local [OF ping_unsent]) (simp add: removePendingPing_def split: if_splits)
next
  case (ping_acked n pingID ewma now sentAt target)
  then have pm: "peer_map (g_peers (gn_g n))" by (simp add: node_inv_def)
  from ping_steps(3) [OF this] show ?case
    by (rule node_inv_local [OF ping_acked]) (simp add: ping_steps(5) [OF pm] split: if_splits)
next
  case (ping_failed n pingID target)
  then have pm: "peer_map (g_peers (gn_g n))" by (simp add: node_inv_def)
  from ping_steps(4) [OF this] show ?case
    by (rule node_inv_local [OF ping_failed]) (simp add: ping_steps(6) [OF pm] split: if_splits)
qed

lemma node_reachable_inv: "node_reachable g n \<Longrightarrow> peer_map (g_peers g) \<Longrightarrow> node_inv g n"
proof (induction rule: node_reachable.induct)
  case start
  then show ?case by (simp add: node_inv_def unacked_def)
next
  case (step n n')
  then show ?case by (blast intro: node_step_inv)
qed


definition indirect_rpc :: RPC where
  "indirect_rpc = \<lparr>rpc_From = 3, rpc_Type = MsgIndirectPing, rpc_Payload = Ping_Encode \<lparr>pp_PingID = 5, pp_TargetID = 2, pp_Timestamp = 0\<rparr>\<rparr>"


section \<open>Queries and fan-out\<close>

lemma Query_loop_spec:
  "length results \<le> n \<Longrightarrow> Query_loop n results evs = (rs, timedOut) \<Longrightarrow>
   \<exists>got. rs = results @ got \<and> prefix (map Some got) evs \<and> length rs \<le> n \<and> (timedOut \<longleftrightarrow> length rs < n)"
proof (induction n results evs rule: Query_loop.induct)
  case (1 n results evs)
  show ?case
  proof (cases "n \<le> length results")
    case True
    then show ?thesis using 1(2,3) by (auto simp: Query_loop.simps)
  next
    case False
    note ends = Query_loop.simps [of n results evs]
    show ?thesis
    proof (cases evs)
      case Nil
      then show ?thesis using False 1(3) ends by auto
    next
      case (Cons e evs')
      show ?thesis
      proof (cases e)
        case None
        then show ?thesis using False Cons 1(3) ends by auto
      next
        case (Some resp)
        have "Query_loop n (results @ [resp]) evs' = (rs, timedOut)" using False Cons Some 1(3) ends by simp
        with 1(1) [OF False Cons Some] False obtain got where
          "rs = (results @ [resp]) @ got" "prefix (map Some got) evs'" "length rs \<le> n" "timedOut \<longleftrightarrow> length rs < n" by auto
        then show ?thesis using Cons Some by (intro exI [of _ "resp # got"]) auto
      qed
    qed
  qed
qed

text \<open>
  A query returns answers in the order they came, never more than there are other peers, and reports a
  timeout exactly when some are missing; afterwards it no longer waits for answers, and late ones are dropped.
\<close>

theorem Query_returns:
  assumes "Query_start peers qt data sg = Some (sg1, rid, n, rpc)" and "Query_loop n [] evs = (rs, timedOut)"
    and "sg_pending sg2 rid \<noteq> None"
  shows "prefix (map Some rs) evs \<and> length rs \<le> other_peers (sg_localID sg) peers \<and>
    (timedOut \<longleftrightarrow> length rs < other_peers (sg_localID sg) peers) \<and> sg_pending (Query_end rid timedOut sg2) rid = None"
  using assms Query_loop_spec [OF _ assms(2)]
  by (auto simp: Query_start_def Query_end_def Let_def split: if_splits)

lemma handleQueryResponse_room:
  assumes "\<And>i pq. sg_pending sg i = Some pq \<Longrightarrow> length (pq_responses pq) \<le> pq_peerCount pq"
    and "sg_pending (handleQueryResponse rpc sg) i = Some pq"
  shows "length (pq_responses pq) \<le> pq_peerCount pq"
  using assms by (auto simp: handleQueryResponse_def split: sum.splits option.splits if_splits)

lemma fanout_loop_bounds: "f \<le> 10 \<Longrightarrow> f \<le> fanout_loop vs n f \<and> fanout_loop vs n f \<le> 10"
  by (induction vs n f rule: fanout_loop.induct) (auto simp: maxGossipFanout_def)

lemma fanout_loop_mono: "m \<le> n \<Longrightarrow> f \<le> 10 \<Longrightarrow> fanout_loop vs m f \<le> fanout_loop vs n f"
proof (induction vs arbitrary: f)
  case (Cons v vs)
  then show ?case using fanout_loop_bounds [of "f + 1" vs n] by (auto simp: maxGossipFanout_def)
qed simp

text \<open>The number of peers a heartbeat goes to grows with the cluster and stays between one and ten.\<close>

theorem adaptiveFanout_bounds:
  "1 \<le> adaptiveFanout n \<and> adaptiveFanout n \<le> 10 \<and> (m \<le> n \<longrightarrow> adaptiveFanout m \<le> adaptiveFanout n)"
  using fanout_loop_bounds [of 1 e_powers n] fanout_loop_bounds [of 1 e_powers m] fanout_loop_mono [of m n 1 e_powers]
  by (auto simp: adaptiveFanout_def minGossipFanout_def)

end
