(* ===== verification/Hash_Ring.thy ===== *)
theory Hash_Ring
  imports Checksum
begin

text \<open>
  The consistent-hash ring that assigns metadata shards to nodes (\<^verbatim>\<open>src/src/p2p/metadata_ring.go\<close>). The
  library's unstable sort is an argument of which only its contract is used; its binary search is written
  out. Building a ring over no nodes indexes an empty slice, which is the value \<^verbatim>\<open>None\<close>.
\<close>

unbundle bit_operations_syntax

section \<open>Binary search\<close>

text \<open>\<^verbatim>\<open>sort.Search\<close>: the loop over the half-open interval from i to j.\<close>

function search_loop :: "(nat \<Rightarrow> bool) \<Rightarrow> nat \<Rightarrow> nat \<Rightarrow> nat" where
  "search_loop f i j =
     (if i < j then let h = (i + j) div 2 in if \<not> f h then search_loop f (h + 1) j else search_loop f i h else i)"
  by pat_completeness auto
termination
  by (relation "measure (\<lambda>(f, i, j). j - i)") auto

declare search_loop.simps [simp del]

definition sort_Search :: "nat \<Rightarrow> (nat \<Rightarrow> bool) \<Rightarrow> nat" where "sort_Search n f = search_loop f 0 n"

lemma search_loop_spec:
  assumes "\<And>a b. a \<le> b \<Longrightarrow> b < n \<Longrightarrow> f a \<Longrightarrow> f b" and "i \<le> j" "j \<le> n"
    and "\<And>a. a < i \<Longrightarrow> \<not> f a" "\<And>a. j \<le> a \<Longrightarrow> a < n \<Longrightarrow> f a"
  shows "search_loop f i j \<le> n \<and> (\<forall>a < search_loop f i j. \<not> f a) \<and> (\<forall>a. search_loop f i j \<le> a \<and> a < n \<longrightarrow> f a)"
  using assms
proof (induction f i j rule: search_loop.induct)
  case (1 f i j)
  show ?case
  proof (cases "i < j")
    case True
    let ?h = "(i + j) div 2"
    have h: "i \<le> ?h" "?h < j" using True by auto
    show ?thesis
    proof (cases "f ?h")
      case f: True
      have up: "a < n \<Longrightarrow> ?h \<le> a \<Longrightarrow> f a" for a using 1(3) [of ?h a] f by simp
      have eq: "search_loop f i j = search_loop f i ?h" using True f by (subst search_loop.simps) (simp add: Let_def)
      show ?thesis unfolding eq by (rule 1(2) [OF True refl]) (use f h up 1(4-7) in \<open>auto intro: 1(3)\<close>)
    next
      case f: False
      have down: "a < ?h + 1 \<Longrightarrow> \<not> f a" for a using 1(3) [of a ?h] f h 1(5) by auto
      have eq: "search_loop f i j = search_loop f (?h + 1) j" using True f by (subst search_loop.simps) (simp add: Let_def)
      show ?thesis unfolding eq by (rule 1(1) [OF True refl f]) (use f h down 1(4-7) in \<open>auto intro: 1(3)\<close>)
    qed
  next
    case False
    then have "search_loop f i j = i" by (subst search_loop.simps) simp
    then show ?thesis using False 1(4-7) by auto
  qed
qed

text \<open>Whatever the predicate, an index below the length satisfies it.\<close>

lemma search_loop_holds: "i \<le> j \<Longrightarrow> search_loop f i j = j \<or> search_loop f i j < j \<and> f (search_loop f i j)"
proof (induction f i j rule: search_loop.induct)
  case (1 f i j)
  show ?case
  proof (cases "i < j")
    case True
    let ?h = "(i + j) div 2"
    have h: "i \<le> ?h" "?h < j" using True by auto
    show ?thesis
    proof (cases "f ?h")
      case f: True
      have eq: "search_loop f i j = search_loop f i ?h" using True f by (subst search_loop.simps) (simp add: Let_def)
      show ?thesis unfolding eq using 1(2) [OF True refl] f h by auto
    next
      case f: False
      have eq: "search_loop f i j = search_loop f (?h + 1) j" using True f by (subst search_loop.simps) (simp add: Let_def)
      show ?thesis unfolding eq using 1(1) [OF True refl f] h by auto
    qed
  next
    case False
    then have "search_loop f i j = i" by (subst search_loop.simps) simp
    then show ?thesis using False 1(3) by simp
  qed
qed

lemma sort_Search_holds: "sort_Search n f \<noteq> n \<Longrightarrow> sort_Search n f < n \<and> f (sort_Search n f)"
  using search_loop_holds [of 0 n f] unfolding sort_Search_def by auto

lemma sort_Search_spec:
  assumes "\<And>a b. a \<le> b \<Longrightarrow> b < n \<Longrightarrow> f a \<Longrightarrow> f b"
  shows "sort_Search n f \<le> n" "a < sort_Search n f \<Longrightarrow> \<not> f a" "sort_Search n f \<le> a \<Longrightarrow> a < n \<Longrightarrow> f a"
  using search_loop_spec [of n f 0 n] assms unfolding sort_Search_def by auto

section \<open>The ring\<close>

definition MetadataShards :: nat where "MetadataShards = 256"
definition MetadataVNodes :: nat where "MetadataVNodes = 150"

record vnodeEntry =
  vn_hash :: "32 word"
  vn_nodeID :: "32 word"

record Ring =
  rg_shards :: "32 word list"
  rg_vnodes :: "vnodeEntry list"
  rg_nodeIDs :: "32 word set"
  rg_replicaM :: int

text \<open>The virtual nodes of the nodes, in the order they are appended.\<close>

definition vnode_bytes :: "32 word \<Rightarrow> nat \<Rightarrow> bytes" where
  "vnode_bytes i v = PutUint32 i @ [word_of_nat (v div 256), word_of_nat v]"

definition node_vnodes :: "32 word \<Rightarrow> vnodeEntry list" where
  "node_vnodes i = map (\<lambda>v. \<lparr>vn_hash = ChecksumCastagnoli (vnode_bytes i v), vn_nodeID = i\<rparr>) [0..<MetadataVNodes]"

definition next_vnode :: "(32 word \<Rightarrow> bool) \<Rightarrow> vnodeEntry list \<Rightarrow> nat" where
  "next_vnode f vnodes =
     (let idx = sort_Search (length vnodes) (\<lambda>i. f (vn_hash (vnodes ! i))) in if idx = length vnodes then 0 else idx)"

definition rebuild :: "(vnodeEntry list \<Rightarrow> vnodeEntry list) \<Rightarrow> 32 word list \<Rightarrow> Ring \<Rightarrow> Ring option" where
  "rebuild sortSlice nodeIDs r =
     (let vnodes = sortSlice (concat (map node_vnodes nodeIDs)) in
      if vnodes = [] then None
      else Some (r\<lparr>rg_shards := map (\<lambda>s. vn_nodeID (vnodes ! next_vnode (\<lambda>h. word_of_nat s \<le> h) vnodes)) [0..<MetadataShards],
                   rg_vnodes := vnodes\<rparr>))"

definition NewRing :: "(vnodeEntry list \<Rightarrow> vnodeEntry list) \<Rightarrow> 32 word list \<Rightarrow> int \<Rightarrow> Ring option" where
  "NewRing sortSlice nodeIDs replicaM =
     rebuild sortSlice nodeIDs
       \<lparr>rg_shards = replicate MetadataShards 0, rg_vnodes = [], rg_nodeIDs = set nodeIDs, rg_replicaM = replicaM\<rparr>"

definition UpdateNodes :: "(vnodeEntry list \<Rightarrow> vnodeEntry list) \<Rightarrow> 32 word list \<Rightarrow> Ring \<Rightarrow> Ring option" where
  "UpdateNodes sortSlice nodeIDs r = rebuild sortSlice nodeIDs (r\<lparr>rg_nodeIDs := set nodeIDs\<rparr>)"

definition Lookup :: "string \<Rightarrow> Ring \<Rightarrow> 32 word" where
  "Lookup key r = (let h = ChecksumCastagnoli (str_bytes key) in rg_shards r ! (unat h mod MetadataShards))"

lemma next_vnode_cases: "next_vnode f vs = 0 \<or> next_vnode f vs < length vs \<and> f (vn_hash (vs ! next_vnode f vs))"
  using sort_Search_holds [of "length vs" "\<lambda>i. f (vn_hash (vs ! i))"] by (auto simp: next_vnode_def Let_def)

text \<open>
  The loop of \<^verbatim>\<open>Replicas\<close>. Every round either ends it or moves to a greater hash, which is why it ends.
\<close>

function replicas_loop :: "nat \<Rightarrow> nat \<Rightarrow> vnodeEntry list \<Rightarrow> 32 word \<Rightarrow> 32 word list \<Rightarrow> 32 word list" where
  "replicas_loop m n vnodes vnodeHash replicas =
     (if length replicas < m \<and> length replicas < n then
        let idx = next_vnode (\<lambda>h. vnodeHash < h) vnodes;
            candidate = vn_nodeID (vnodes ! idx);
            replicas = (if candidate \<in> set replicas then replicas else replicas @ [candidate]);
            h = vn_hash (vnodes ! idx) in
        if h = vn_hash (vnodes ! 0) \<and> idx = 0 then replicas
        else replicas_loop m n vnodes h replicas
      else replicas)"
  by pat_completeness auto
termination
proof (relation "measure (\<lambda>(m, n, vnodes, h, rs). 2 ^ 32 - unat h)")
  fix m n :: nat and vnodes :: "vnodeEntry list" and vnodeHash h :: "32 word" and replicas rs :: "32 word list" and idx candidate
  assume "idx = next_vnode (\<lambda>h. vnodeHash < h) vnodes" "h = vn_hash (vnodes ! idx)"
    "\<not> (h = vn_hash (vnodes ! 0) \<and> idx = 0)"
  then have "unat vnodeHash < unat h"
    using next_vnode_cases [of "\<lambda>h. vnodeHash < h" vnodes] by (auto simp: word_less_nat_alt)
  then show "((m, n, vnodes, h, rs), m, n, vnodes, vnodeHash, replicas) \<in> measure (\<lambda>(m, n, vnodes, h, rs). 2 ^ 32 - unat h)"
    using unsigned_less [of h, where ?'a = nat] by simp
qed simp

declare replicas_loop.simps [simp del]

definition Replicas :: "string \<Rightarrow> int \<Rightarrow> Ring \<Rightarrow> 32 word list" where
  "Replicas key m r =
     (let owner = Lookup key r in
      if m \<le> 1 then [owner]
      else replicas_loop (nat m) (card (rg_nodeIDs r)) (rg_vnodes r) (ChecksumCastagnoli (str_bytes key)) [owner])"

text \<open>\<^verbatim>\<open>string(rune(n))\<close> below 256: the UTF-8 encoding of the code point.\<close>

definition rune_string :: "nat \<Rightarrow> string" where
  "rune_string n = (if n < 128 then [char_of n] else [char_of (192 + n div 64), char_of (128 + n mod 64)])"

definition ShardKey :: "string \<Rightarrow> string" where
  "ShardKey name = rune_string (unat (ChecksumCastagnoli (str_bytes name)) mod MetadataShards)"

definition NodeCount :: "Ring \<Rightarrow> nat" where "NodeCount r = card (rg_nodeIDs r)"

section \<open>What the ring promises\<close>

text \<open>The contract of the library's sort: a permutation in the order of the hashes.\<close>

definition sorts_slices :: "(vnodeEntry list \<Rightarrow> vnodeEntry list) \<Rightarrow> bool" where
  "sorts_slices f \<longleftrightarrow> (\<forall>xs. mset (f xs) = mset xs \<and> sorted (map vn_hash (f xs)))"

lemma sorts_slices_sort_key: "sorts_slices (sort_key vn_hash)" by (simp add: sorts_slices_def)

definition ring_wf :: "Ring \<Rightarrow> bool" where
  "ring_wf r \<longleftrightarrow> rg_vnodes r \<noteq> [] \<and> sorted (map vn_hash (rg_vnodes r)) \<and> finite (rg_nodeIDs r) \<and>
     vn_nodeID ` set (rg_vnodes r) = rg_nodeIDs r \<and> length (rg_shards r) = MetadataShards \<and>
     set (rg_shards r) \<subseteq> rg_nodeIDs r"

lemma node_vnodes_ids: "vn_nodeID ` set (node_vnodes i) = {i}"
  unfolding node_vnodes_def MetadataVNodes_def by (force simp: image_iff intro: exI [of _ 0])

lemma next_vnode_less: "vs \<noteq> [] \<Longrightarrow> next_vnode f vs < length vs"
  using next_vnode_cases [of f vs] by auto

lemma rebuild_wf:
  assumes s: "sorts_slices sortSlice" and n: "rg_nodeIDs r = set nodeIDs" "nodeIDs \<noteq> []"
  shows "\<exists>r'. rebuild sortSlice nodeIDs r = Some r' \<and> ring_wf r' \<and> rg_nodeIDs r' = set nodeIDs \<and>
    mset (rg_vnodes r') = mset (concat (map node_vnodes nodeIDs))"
proof -
  define vs where "vs = sortSlice (concat (map node_vnodes nodeIDs))"
  have m: "mset vs = mset (concat (map node_vnodes nodeIDs))" and so: "sorted (map vn_hash vs)"
    using s unfolding vs_def sorts_slices_def by blast+
  have st: "set vs = set (concat (map node_vnodes nodeIDs))" using m by (rule mset_eq_setD)
  have ids: "vn_nodeID ` set vs = set nodeIDs" unfolding st by (auto simp: image_UN node_vnodes_ids)
  then have ne: "vs \<noteq> []" using n(2) by auto
  have "vn_nodeID (vs ! next_vnode f vs) \<in> set nodeIDs" for f
    using next_vnode_less [OF ne, of f] ids nth_mem by blast
  then show ?thesis
    using ne so ids n m unfolding rebuild_def Let_def vs_def [symmetric] ring_wf_def by auto
qed

lemma NewRing_empty: "sorts_slices sortSlice \<Longrightarrow> NewRing sortSlice [] m = None"
proof -
  assume "sorts_slices sortSlice"
  then have "mset (sortSlice []) = {#}" by (simp add: sorts_slices_def)
  then show ?thesis by (simp add: NewRing_def rebuild_def)
qed

lemma NewRing_wf:
  assumes "sorts_slices sortSlice" "nodeIDs \<noteq> []"
  shows "\<exists>r. NewRing sortSlice nodeIDs m = Some r \<and> ring_wf r \<and> rg_nodeIDs r = set nodeIDs \<and>
    mset (rg_vnodes r) = mset (concat (map node_vnodes nodeIDs))"
  unfolding NewRing_def by (rule rebuild_wf [OF assms(1) _ assms(2)]) simp

lemma NewRing_Some:
  assumes "sorts_slices sortSlice" "NewRing sortSlice nodeIDs m = Some r"
  shows "nodeIDs \<noteq> []" "ring_wf r" "rg_nodeIDs r = set nodeIDs" "mset (rg_vnodes r) = mset (concat (map node_vnodes nodeIDs))"
proof -
  show "nodeIDs \<noteq> []" using NewRing_empty [OF assms(1), of m] assms(2) by auto
  from NewRing_wf [OF assms(1) this, of m]
  show "ring_wf r" "rg_nodeIDs r = set nodeIDs" "mset (rg_vnodes r) = mset (concat (map node_vnodes nodeIDs))"
    using assms(2) by auto
qed

lemma Lookup_member: "ring_wf r \<Longrightarrow> Lookup key r \<in> rg_nodeIDs r"
  using nth_mem [of "unat (ChecksumCastagnoli (str_bytes key)) mod MetadataShards" "rg_shards r"]
  by (auto simp: Lookup_def ring_wf_def Let_def MetadataShards_def)

text \<open>
  Over a non-empty list of nodes a ring is built, with 150 virtual nodes for each of them, and every key is
  owned by one of the nodes; over an empty list building it panics.
\<close>

theorem NewRing_spec:
  assumes "sorts_slices sortSlice"
  shows "(NewRing sortSlice nodeIDs m = None \<longleftrightarrow> nodeIDs = []) \<and>
    (\<forall>r. NewRing sortSlice nodeIDs m = Some r \<longrightarrow> ring_wf r \<and> Lookup key r \<in> set nodeIDs \<and>
       length (rg_vnodes r) = 150 * length nodeIDs)"
proof -
  have "length (rg_vnodes r) = 150 * length nodeIDs" if "mset (rg_vnodes r) = mset (concat (map node_vnodes nodeIDs))" for r :: Ring
    using arg_cong [OF that, of size]
    by (simp add: length_concat comp_def node_vnodes_def MetadataVNodes_def sum_list_triv)
  then show ?thesis
    using NewRing_empty [OF assms] NewRing_wf [OF assms, of nodeIDs m] Lookup_member by fastforce
qed

lemma replicas_loop_spec:
  assumes "ring_wf r" "distinct rs" "set rs \<subseteq> rg_nodeIDs r" "length rs \<le> max m 1"
  shows "distinct (replicas_loop m n (rg_vnodes r) h rs) \<and> set (replicas_loop m n (rg_vnodes r) h rs) \<subseteq> rg_nodeIDs r \<and>
    prefix rs (replicas_loop m n (rg_vnodes r) h rs) \<and> length (replicas_loop m n (rg_vnodes r) h rs) \<le> max m 1"
  using assms
proof (induction m n "rg_vnodes r" h rs rule: replicas_loop.induct)
  case (1 m n h rs)
  define idx where "idx = next_vnode (\<lambda>x. h < x) (rg_vnodes r)"
  define c where "c = vn_nodeID (rg_vnodes r ! idx)"
  define rs' where "rs' = (if c \<in> set rs then rs else rs @ [c])"
  have unf: "replicas_loop m n (rg_vnodes r) h rs =
    (if length rs < m \<and> length rs < n then
       if vn_hash (rg_vnodes r ! idx) = vn_hash (rg_vnodes r ! 0) \<and> idx = 0 then rs'
       else replicas_loop m n (rg_vnodes r) (vn_hash (rg_vnodes r ! idx)) rs' else rs)"
    by (subst replicas_loop.simps) (simp add: Let_def idx_def c_def rs'_def)
  show ?case
  proof (cases "length rs < m \<and> length rs < n")
    case False
    then have "replicas_loop m n (rg_vnodes r) h rs = rs" unfolding unf by (simp only: if_False if_P if_not_P)
    then show ?thesis using 1(3-5) by simp
  next
    case True
    have "idx < length (rg_vnodes r)" using 1(2) by (simp add: idx_def next_vnode_less ring_wf_def)
    then have "c \<in> rg_nodeIDs r" using 1(2) nth_mem unfolding c_def ring_wf_def by blast
    then have rs': "distinct rs'" "set rs' \<subseteq> rg_nodeIDs r" "length rs' \<le> max m 1" "prefix rs rs'"
      using 1(3,4) True by (auto simp: rs'_def)
    show ?thesis
    proof (cases "vn_hash (rg_vnodes r ! idx) = vn_hash (rg_vnodes r ! 0) \<and> idx = 0")
      case stop: True
      then show ?thesis using True rs' unfolding unf by simp
    next
      case go: False
      note IH = 1(1) [OF True idx_def c_def rs'_def refl go 1(2) rs'(1-3)]
      then show ?thesis using True go rs'(4) unfolding unf by (auto intro: prefix_order.trans)
    qed
  qed
qed

text \<open>
  C29: The replicas of a key are distinct nodes of the ring, the owner first, and at most as many as asked for;
  the walk around the ring ends for every key.
\<close>

theorem Replicas_spec:
  assumes "sorts_slices sortSlice" and "NewRing sortSlice nodeIDs k = Some r"
  shows "distinct (Replicas key m r) \<and> set (Replicas key m r) \<subseteq> set nodeIDs \<and> Replicas key m r \<noteq> [] \<and>
    hd (Replicas key m r) = Lookup key r \<and> length (Replicas key m r) \<le> max (nat m) 1"
proof -
  note wf = NewRing_Some(2,3) [OF assms]
  have own: "Lookup key r \<in> set nodeIDs" using Lookup_member [OF wf(1)] wf(2) by simp
  let ?loop = "replicas_loop (nat m) (card (rg_nodeIDs r)) (rg_vnodes r) (ChecksumCastagnoli (str_bytes key)) [Lookup key r]"
  have l: "distinct ?loop \<and> set ?loop \<subseteq> rg_nodeIDs r \<and> prefix [Lookup key r] ?loop \<and> length ?loop \<le> max (nat m) 1"
    by (rule replicas_loop_spec [OF wf(1)]) (use own wf(2) in auto)
  then obtain t where "?loop = Lookup key r # t" by (auto simp: prefix_def)
  then show ?thesis using l own wf(2) by (auto simp: Replicas_def Let_def)
qed

theorem Replicas_spec_witness:
  "\<exists>r. NewRing (sort_key vn_hash) [1, 2] 2 = Some r \<and> distinct (Replicas ''k'' 2 r) \<and> set (Replicas ''k'' 2 r) \<subseteq> {1, 2} \<and>
     hd (Replicas ''k'' 2 r) = Lookup ''k'' r \<and> length (Replicas ''k'' 2 r) \<le> 2"
proof -
  obtain r where r: "NewRing (sort_key vn_hash) [1, 2] 2 = Some r"
    using NewRing_wf [OF sorts_slices_sort_key, of "[1, 2]" 2] by auto
  from Replicas_spec [OF sorts_slices_sort_key r, of "''k''" 2] show ?thesis using r by (auto simp: max_def)
qed

section \<open>Where the ring does not spread\<close>

lemma next_vnode_first:
  assumes "\<And>v. v \<in> set vs \<Longrightarrow> f (vn_hash v)"
  shows "next_vnode f vs = 0"
proof (cases "vs = []")
  case True
  then show ?thesis using next_vnode_cases [of f vs] by simp
next
  case False
  let ?p = "\<lambda>i. f (vn_hash (vs ! i))"
  have all: "i < length vs \<Longrightarrow> ?p i" for i using assms nth_mem by blast
  then have "\<not> 0 < sort_Search (length vs) ?p" using sort_Search_spec(2) [of "length vs" ?p 0] False by auto
  then show ?thesis by (simp add: next_vnode_def Let_def)
qed

lemma next_vnode_none: "(\<And>v. v \<in> set vs \<Longrightarrow> \<not> f (vn_hash v)) \<Longrightarrow> next_vnode f vs = 0"
  using next_vnode_cases [of f vs] nth_mem by blast

lemma NewRing_shards:
  "NewRing sortSlice nodeIDs m = Some r \<Longrightarrow>
   rg_shards r = map (\<lambda>s. vn_nodeID (rg_vnodes r ! next_vnode (\<lambda>h. word_of_nat s \<le> h) (rg_vnodes r))) [0..<MetadataShards]"
  by (auto simp: NewRing_def rebuild_def Let_def split: if_splits)

text \<open>
  The shards are numbered 0 to 255 and placed on the ring by their numbers, among virtual nodes whose
  hashes take all 32 bits. When none of the hashes is below 255, which is so for all but very few sets of
  nodes, every key of the cluster has the same owner.
\<close>

theorem Lookup_degenerate:
  assumes s: "sorts_slices sortSlice" and r: "NewRing sortSlice nodeIDs m = Some r"
    and h: "\<And>v. v \<in> set (rg_vnodes r) \<Longrightarrow> 255 \<le> vn_hash v"
  shows "Lookup key r = vn_nodeID (rg_vnodes r ! 0)"
proof -
  have "next_vnode (\<lambda>h. word_of_nat i \<le> h) (rg_vnodes r) = 0" if "i < 256" for i
  proof (rule next_vnode_first)
    fix v
    assume "v \<in> set (rg_vnodes r)"
    have "word_of_nat i \<le> (255 :: 32 word)" using that by (simp add: word_le_nat_alt unat_of_nat take_bit_nat_eq_self)
    then show "word_of_nat i \<le> vn_hash v" using h [OF \<open>v \<in> _\<close>] by simp
  qed
  then show ?thesis by (simp add: Lookup_def Let_def NewRing_shards [OF r] MetadataShards_def)
qed

text \<open>
  The walk for the replicas starts at the key's hash, not at its owner, and stops at the first virtual node:
  a key whose hash lies outside the range of the virtual nodes gets at most one replica beside its owner, and
  none when the owner has the first virtual node, however many are asked for and however many nodes there are.
\<close>

theorem Replicas_shortfall:
  assumes r: "NewRing sortSlice nodeIDs k = Some r"
    and h: "(\<forall>v \<in> set (rg_vnodes r). ChecksumCastagnoli (str_bytes key) < vn_hash v) \<or>
            (\<forall>v \<in> set (rg_vnodes r). vn_hash v \<le> ChecksumCastagnoli (str_bytes key))"
  shows "set (Replicas key m r) \<subseteq> {Lookup key r, vn_nodeID (rg_vnodes r ! 0)}"
proof -
  have "next_vnode (\<lambda>h. ChecksumCastagnoli (str_bytes key) < h) (rg_vnodes r) = 0"
    using h next_vnode_first [of "rg_vnodes r" "\<lambda>h. ChecksumCastagnoli (str_bytes key) < h"]
      next_vnode_none [of "rg_vnodes r" "\<lambda>h. ChecksumCastagnoli (str_bytes key) < h"] by (auto simp: not_less)
  then show ?thesis by (auto simp: Replicas_def Let_def replicas_loop.simps)
qed


text \<open>The hashes of the virtual nodes of two nodes, evaluated: none is below 255.\<close>

definition crcc_step :: "32 word \<Rightarrow> 32 word" where
  "crcc_step c = (if bit c 0 then drop_bit 1 c XOR 0x82F63B78 else drop_bit 1 c)"

lemma crcc_bits_steps:
  "crcc_bits 8 c = crcc_step (crcc_step (crcc_step (crcc_step (crcc_step (crcc_step (crcc_step (crcc_step c)))))))"
  by (simp add: crcc_step_def eval_nat_numeral)

lemma crcc_step_eval:
  "crcc_step 0 = 0" "crcc_step 1 = 0x82F63B78" "crcc_step (numeral (num.Bit0 n)) = drop_bit 1 (numeral (num.Bit0 n))"
  "crcc_step (numeral (num.Bit1 n)) = drop_bit 1 (numeral (num.Bit1 n)) XOR 0x82F63B78"
  "crcc_step (- 1) = 0xFD09C487"
  by (simp_all add: crcc_step_def bit_0 drop_bit_eq_div)

lemma node_crcs:
  "foldl (\<lambda>c b. crcc_bits 8 (c XOR ucast b)) (NOT 0) [0, 0, 0, 1, 0 :: byte] = 0xA92F11BD"
  "foldl (\<lambda>c b. crcc_bits 8 (c XOR ucast b)) (NOT 0) [0, 0, 0, 2, 0 :: byte] = 0x9DC8B924"
  by (simp_all add: crcc_bits_steps crcc_step_eval)

lemma vnode_crcs:
  "list_all (\<lambda>v. crcc_bits 8 (0xA92F11BD XOR ucast (word_of_nat v :: byte)) \<le> 0xFFFFFF00) [0..<150]"
  "list_all (\<lambda>v. crcc_bits 8 (0x9DC8B924 XOR ucast (word_of_nat v :: byte)) \<le> 0xFFFFFF00) [0..<150]"
  by (simp_all add: upt_rec [of _ 150] crcc_bits_steps crcc_step_eval)

lemma not_ge:
  assumes "(x :: 32 word) \<le> 0xFFFFFF00"
  shows "255 \<le> NOT x"
proof -
  have "NOT x = 0xFFFFFFFF - x" by (simp add: not_eq_complement)
  moreover have "unat (0xFFFFFFFF - x) = 0xFFFFFFFF - unat x"
    using unat_sub [of x "0xFFFFFFFF"] assms by (simp add: word_le_nat_alt)
  ultimately show ?thesis using assms by (simp add: word_le_nat_alt)
qed

lemma vnode_hashes:
  assumes "v < 150" "i = 1 \<or> i = 2"
  shows "255 \<le> ChecksumCastagnoli (vnode_bytes i v)"
proof -
  have p: "PutUint32 1 = [0, 0, 0, 1]" "PutUint32 2 = [0, 0, 0, 2]" by code_simp+
  have b: "vnode_bytes 1 v = [0, 0, 0, 1, 0] @ [word_of_nat v]" "vnode_bytes 2 v = [0, 0, 0, 2, 0] @ [word_of_nat v]"
    using assms(1) p by (simp_all add: vnode_bytes_def)
  have c: "ChecksumCastagnoli (xs @ [y]) = NOT (crcc_bits 8 (foldl (\<lambda>c b. crcc_bits 8 (c XOR ucast b)) (NOT 0) xs XOR ucast y))" for xs y
    by (simp add: ChecksumCastagnoli_def)
  have "crcc_bits 8 (0xA92F11BD XOR ucast (word_of_nat v :: byte)) \<le> 0xFFFFFF00"
    "crcc_bits 8 (0x9DC8B924 XOR ucast (word_of_nat v :: byte)) \<le> 0xFFFFFF00"
    using vnode_crcs assms(1) unfolding list_all_iff by simp_all
  then have "255 \<le> ChecksumCastagnoli (vnode_bytes 1 v)" "255 \<le> ChecksumCastagnoli (vnode_bytes 2 v)"
    unfolding b c node_crcs by (simp_all add: not_ge)
  then show ?thesis using assms(2) by blast
qed

theorem Lookup_degenerate_witness:
  "\<exists>r. NewRing (sort_key vn_hash) [1, 2] 2 = Some r \<and> NodeCount r = 2 \<and>
     (\<exists>owner. \<forall>key \<in> {''a'', ''bucket/object''}. Lookup key r = owner)"
proof -
  obtain r where r: "NewRing (sort_key vn_hash) [1, 2] 2 = Some r" "rg_nodeIDs r = {1, 2}"
    and v: "mset (rg_vnodes r) = mset (concat (map node_vnodes [1, 2]))"
    using NewRing_wf [OF sorts_slices_sort_key, of "[1, 2]" 2] by auto
  have "255 \<le> vn_hash x" if "x \<in> set (rg_vnodes r)" for x
    using that vnode_hashes unfolding mset_eq_setD [OF v] by (auto simp: node_vnodes_def MetadataVNodes_def)
  from Lookup_degenerate [OF sorts_slices_sort_key r(1) this] show ?thesis
    using r by (auto simp: NodeCount_def)
qed

end
